(* ===== verification/Prelude.thy ===== *)
theory Prelude
  imports Main "HOL-Library.Word"
begin

text \<open>
  The vocabulary the components share: byte strings and machine integers, Rust's
  \<open>Result\<close> as a sum, the few functions of Rust's standard library that more than one
  component calls (decimal printing and parsing of integers, \<open>to_be_bytes\<close>,
  \<open>split_once\<close>, \<open>strip_prefix\<close>), and generic lemmas on lists and options.

  A Rust \<open>String\<close> is a HOL \<^typ>\<open>string\<close> whose characters are the bytes of its UTF-8
  form, so that \<open>len()\<close> is \<^const>\<open>length\<close>; a \<open>Vec<u8>\<close> is a list of 8-bit words.
\<close>

named_theorems codec_simps \<open>round trips of the shared encoders\<close>
named_theorems result_elims \<open>case analysis of results\<close>

type_synonym bytes = "8 word list"
type_synonym u32 = "32 word"
type_synonym u64 = "64 word"
type_synonym ('e, 'a) result = "'e + 'a"

abbreviation Err :: "'e \<Rightarrow> ('e, 'a) result" where
  "Err \<equiv> Inl"

abbreviation Ok :: "'a \<Rightarrow> ('e, 'a) result" where
  "Ok \<equiv> Inr"

section \<open>Bytes\<close>

definition byte_of :: "char \<Rightarrow> 8 word" where
  "byte_of c = word_of_nat (of_char c)"

definition as_bytes :: "string \<Rightarrow> bytes" where
  "as_bytes s = map byte_of s"

definition u64_be_bytes :: "u64 \<Rightarrow> bytes" where
  "u64_be_bytes w = map (\<lambda>i. ucast (drop_bit (8 * i) w)) [7, 6, 5, 4, 3, 2, 1, 0]"

lemma byte_of_inj [simp]: "byte_of c = byte_of d \<longleftrightarrow> c = d"
proof
  assume "byte_of c = byte_of d"
  then have "unat (byte_of c) = unat (byte_of d)" by simp
  then have "(of_char c :: nat) = of_char d"
    by (simp add: byte_of_def unsigned_of_nat take_bit_eq_mod)
  then show "c = d" by simp
qed simp

lemma as_bytes_inj [simp]: "as_bytes s = as_bytes t \<longleftrightarrow> s = t"
  unfolding as_bytes_def by (metis byte_of_inj inj_map_eq_map injI)

lemma length_as_bytes [simp]: "length (as_bytes s) = length s"
  by (simp add: as_bytes_def)

lemma as_bytes_append [simp]: "as_bytes (s @ t) = as_bytes s @ as_bytes t"
  by (simp add: as_bytes_def)

text \<open>Bytes kept where a string is expected.\<close>

definition text_of :: "bytes \<Rightarrow> string" where
  "text_of bs = map (\<lambda>b. char_of (unat b)) bs"

lemma text_of_as_bytes [simp]: "text_of (as_bytes s) = s"
  by (induction s) (simp_all add: text_of_def as_bytes_def byte_of_def unsigned_of_nat take_bit_eq_mod)

lemma as_bytes_text_of [simp]: "as_bytes (text_of bs) = bs"
proof -
  have "unat b < 256" for b :: "8 word" using unsigned_less [of b] by simp
  then show ?thesis
    by (induction bs) (simp_all add: text_of_def as_bytes_def byte_of_def)
qed

lemma length_u64_be_bytes [simp]: "length (u64_be_bytes w) = 8"
  by (simp add: u64_be_bytes_def)

lemma u64_be_bytes_inj [simp]: "u64_be_bytes v = u64_be_bytes w \<longleftrightarrow> v = w"
proof
  assume eq: "u64_be_bytes v = u64_be_bytes w"
  show "v = w"
  proof (rule bit_word_eqI)
    fix n
    assume n: "n < LENGTH(64)"
    define i where "i = n div 8"
    from n have "i < 8" by (simp add: i_def)
    then have "i \<in> {0, 1, 2, 3, 4, 5, 6, 7}" by auto
    with eq have "(ucast (drop_bit (8 * i) v) :: 8 word) = ucast (drop_bit (8 * i) w)"
      by (auto simp: u64_be_bytes_def)
    then have "bit (ucast (drop_bit (8 * i) v) :: 8 word) (n mod 8)
             = bit (ucast (drop_bit (8 * i) w) :: 8 word) (n mod 8)" by simp
    then show "bit v n = bit w n"
      by (simp add: bit_simps i_def)
  qed
qed simp

section \<open>Decimal integers\<close>

text \<open>
  \<open>to_string\<close> of an unsigned integer, and \<open>str::parse::<u64>\<close>: an optional \<open>+\<close>, at least
  one digit, digits only, and a value that fits the type.
\<close>

definition digit_char :: "nat \<Rightarrow> char" where
  "digit_char d = char_of (48 + d)"

definition digit_val :: "char \<Rightarrow> nat option" where
  "digit_val c = (let n = of_char c in if 48 \<le> n \<and> n \<le> 57 then Some (n - 48) else None)"

fun show_nat :: "nat \<Rightarrow> string" where
  "show_nat n = (if n < 10 then [digit_char n]
                 else show_nat (n div 10) @ [digit_char (n mod 10)])"

declare show_nat.simps [simp del]

fun read_digits :: "nat \<Rightarrow> string \<Rightarrow> nat option" where
  "read_digits acc [] = Some acc"
| "read_digits acc (c # cs) =
     (case digit_val c of None \<Rightarrow> None | Some d \<Rightarrow> read_digits (10 * acc + d) cs)"

definition parse_unsigned :: "nat \<Rightarrow> string \<Rightarrow> nat option" where
  "parse_unsigned w s =
     (let ds = (if s \<noteq> [] \<and> hd s = CHR ''+'' then tl s else s)
      in if ds = [] then None
         else case read_digits 0 ds of
                None \<Rightarrow> None
              | Some n \<Rightarrow> if n < 2 ^ w then Some n else None)"

lemma digit_val_digit_char [simp]: "d < 10 \<Longrightarrow> digit_val (digit_char d) = Some d"
  by (simp add: digit_val_def digit_char_def)

lemma digit_char_not_plus: "d < 10 \<Longrightarrow> digit_char d \<noteq> CHR ''+''"
proof
  assume "d < 10" and "digit_char d = CHR ''+''"
  then have "digit_val (CHR ''+'') = Some d" using digit_val_digit_char by metis
  then show False by (simp add: digit_val_def)
qed

lemma read_digits_append:
  "read_digits acc (s @ t) =
     (case read_digits acc s of None \<Rightarrow> None | Some n \<Rightarrow> read_digits n t)"
  by (induction s arbitrary: acc) (auto split: option.splits)

lemma read_digits_show [codec_simps]: "read_digits 0 (show_nat n) = Some n"
proof (induction n rule: show_nat.induct)
  case (1 n)
  then show ?case
    by (cases "n < 10") (simp_all add: show_nat.simps [of n] read_digits_append)
qed

lemma show_nat_nonempty [simp]: "show_nat n \<noteq> []"
  by (subst show_nat.simps) simp

lemma hd_show_nat: "\<exists>d < 10. hd (show_nat n) = digit_char d"
proof (induction n rule: show_nat.induct)
  case (1 n)
  then show ?case
    by (cases "n < 10") (auto simp: show_nat.simps [of n])
qed

lemma parse_show_nat [codec_simps]:
  "n < 2 ^ w \<Longrightarrow> parse_unsigned w (show_nat n) = Some n"
proof -
  assume n: "n < 2 ^ w"
  from hd_show_nat [of n] digit_char_not_plus have "hd (show_nat n) \<noteq> CHR ''+''" by metis
  with n show ?thesis
    by (simp add: parse_unsigned_def read_digits_show Let_def)
qed

lemma show_nat_digits: "c \<in> set (show_nat n) \<Longrightarrow> \<exists>d < 10. c = digit_char d"
proof (induction n rule: show_nat.induct)
  case (1 n)
  show ?case
  proof (cases "n < 10")
    case True
    with 1(2) show ?thesis by (auto simp: show_nat.simps [of n])
  next
    case False
    with 1(2) have "c \<in> set (show_nat (n div 10)) \<or> c = digit_char (n mod 10)"
      by (auto simp: show_nat.simps [of n])
    then show ?thesis
    proof
      assume "c = digit_char (n mod 10)"
      moreover have "n mod 10 < 10" by simp
      ultimately show ?thesis by blast
    qed (use 1(1) False in blast)
  qed
qed

definition show_int :: "int \<Rightarrow> string" where
  "show_int i = (if i < 0 then CHR ''-'' # show_nat (nat (- i)) else show_nat (nat i))"

text \<open>\<open>str::parse::<i64>\<close>: an optional sign, at least one digit, and a value in range.\<close>

definition parse_i64 :: "string \<Rightarrow> int option" where
  "parse_i64 s =
     (let neg = (s \<noteq> [] \<and> hd s = CHR ''-'');
          ds = (if s \<noteq> [] \<and> (hd s = CHR ''-'' \<or> hd s = CHR ''+'') then tl s else s)
      in if ds = [] then None
         else case read_digits 0 ds of
                None \<Rightarrow> None
              | Some n \<Rightarrow>
                  (let v = (if neg then - int n else int n)
                   in if - (2 ^ 63) \<le> v \<and> v < 2 ^ 63 then Some v else None))"

lemma show_nat_inj [simp]: "show_nat m = show_nat n \<longleftrightarrow> m = n"
  by (metis option.inject read_digits_show)

lemma hd_show_nat_not_dash: "show_nat n \<noteq> CHR ''-'' # xs"
proof
  assume "show_nat n = CHR ''-'' # xs"
  moreover obtain d where "d < 10" "hd (show_nat n) = digit_char d" using hd_show_nat by blast
  ultimately have "digit_val (CHR ''-'') = Some d" by simp
  then show False by (simp add: digit_val_def)
qed

lemma show_int_inj [simp]: "show_int a = show_int b \<longleftrightarrow> a = b"
  using hd_show_nat_not_dash hd_show_nat_not_dash [symmetric] by (simp add: show_int_def) linarith

lemma parse_i64_show_int [codec_simps]:
  assumes "- (2 ^ 63) \<le> i" "i < 2 ^ 63"
  shows "parse_i64 (show_int i) = Some i"
proof (cases "i < 0")
  case True
  with assms show ?thesis by (simp add: parse_i64_def show_int_def read_digits_show Let_def)
next
  case False
  obtain d where d: "d < 10" "hd (show_nat (nat i)) = digit_char d" using hd_show_nat by blast
  then have "hd (show_nat (nat i)) \<noteq> CHR ''-''"
    by (metis hd_Cons_tl hd_show_nat_not_dash show_nat_nonempty)
  moreover from d digit_char_not_plus have "hd (show_nat (nat i)) \<noteq> CHR ''+''" by metis
  ultimately show ?thesis using False assms
    by (simp add: parse_i64_def show_int_def read_digits_show Let_def)
qed

section \<open>Letter case\<close>

text \<open>\<open>to_ascii_lowercase\<close> and \<open>eq_ignore_ascii_case\<close>: only the 26 ASCII letters change.\<close>

definition ascii_lower :: "char \<Rightarrow> char" where
  "ascii_lower c = (let n = (of_char c :: nat) in if 65 \<le> n \<and> n \<le> 90 then char_of (n + 32) else c)"

definition eq_ignore_ascii_case :: "string \<Rightarrow> string \<Rightarrow> bool" where
  "eq_ignore_ascii_case s t \<longleftrightarrow> map ascii_lower s = map ascii_lower t"

definition is_ascii_digit :: "char \<Rightarrow> bool" where
  "is_ascii_digit c = (let n = (of_char c :: nat) in 48 \<le> n \<and> n \<le> 57)"

definition is_ascii_hexdigit :: "char \<Rightarrow> bool" where
  "is_ascii_hexdigit c =
     (let n = (of_char c :: nat)
      in 48 \<le> n \<and> n \<le> 57 \<or> 65 \<le> n \<and> n \<le> 70 \<or> 97 \<le> n \<and> n \<le> 102)"

definition is_ascii_alphanumeric :: "char \<Rightarrow> bool" where
  "is_ascii_alphanumeric c =
     (let n = (of_char c :: nat)
      in 48 \<le> n \<and> n \<le> 57 \<or> 65 \<le> n \<and> n \<le> 90 \<or> 97 \<le> n \<and> n \<le> 122)"

section \<open>Splitting\<close>

text \<open>\<open>str::split_once(c)\<close>: the parts before and after the first occurrence.\<close>

fun split_once :: "char \<Rightarrow> string \<Rightarrow> (string \<times> string) option" where
  "split_once c [] = None"
| "split_once c (x # xs) =
     (if x = c then Some ([], xs)
      else case split_once c xs of None \<Rightarrow> None | Some (l, r) \<Rightarrow> Some (x # l, r))"

lemma split_once_append [simp]:
  "c \<notin> set l \<Longrightarrow> split_once c (l @ c # r) = Some (l, r)"
  by (induction l) auto

lemma split_once_none [simp]: "c \<notin> set l \<Longrightarrow> split_once c l = None"
  by (induction l) auto

section \<open>UTF-8\<close>

text \<open>\<open>String::from_utf8\<close> accepts exactly the well-formed sequences of the Unicode standard.\<close>

definition utf8_cont :: "nat \<Rightarrow> bool" where
  "utf8_cont b \<longleftrightarrow> 128 \<le> b \<and> b \<le> 191"

fun utf8_ok :: "nat list \<Rightarrow> bool" where
  "utf8_ok [] = True"
| "utf8_ok (b # bs) =
     (if b < 128 then utf8_ok bs
      else if 194 \<le> b \<and> b \<le> 223 then
        (case bs of b1 # r \<Rightarrow> utf8_cont b1 \<and> utf8_ok r | [] \<Rightarrow> False)
      else if 224 \<le> b \<and> b \<le> 239 then
        (case bs of b1 # b2 # r \<Rightarrow> utf8_cont b1 \<and> utf8_cont b2 \<and>
            (b = 224 \<longrightarrow> 160 \<le> b1) \<and> (b = 237 \<longrightarrow> b1 \<le> 159) \<and> utf8_ok r
         | _ \<Rightarrow> False)
      else if 240 \<le> b \<and> b \<le> 244 then
        (case bs of b1 # b2 # b3 # r \<Rightarrow> utf8_cont b1 \<and> utf8_cont b2 \<and> utf8_cont b3 \<and>
            (b = 240 \<longrightarrow> 144 \<le> b1) \<and> (b = 244 \<longrightarrow> b1 \<le> 143) \<and> utf8_ok r
         | _ \<Rightarrow> False)
      else False)"

definition from_utf8 :: "string \<Rightarrow> string option" where
  "from_utf8 s = (if utf8_ok (map of_char s) then Some s else None)"

end
