(* ===== verification/Hybrid_Sig.thy ===== *)
theory Hybrid_Sig
  imports Prelude
begin

text \<open>
  Hybrid Ed25519 + ML-DSA-65 signatures, \<open>crates/construct-crypto/src/pqc/hybrid.rs\<close>:
  the key and signature layouts, the messages a prekey is signed over, signing and
  verification. The two primitive schemes are the crates \<open>ed25519-dalek\<close> and \<open>ml-dsa\<close>; they
  are the record \<open>sig_prims\<close>, an argument of every definition that uses them.
\<close>

section \<open>Sizes\<close>

definition ED25519_PUBLIC_KEY_SIZE :: nat where
  "ED25519_PUBLIC_KEY_SIZE = 32"
definition ED25519_SIGNATURE_SIZE :: nat where
  "ED25519_SIGNATURE_SIZE = 64"
definition ML_DSA_65_PUBLIC_KEY_SIZE :: nat where
  "ML_DSA_65_PUBLIC_KEY_SIZE = 1952"
definition ML_DSA_65_SECRET_KEY_SIZE :: nat where
  "ML_DSA_65_SECRET_KEY_SIZE = 32"
definition ML_DSA_65_SIGNATURE_SIZE :: nat where
  "ML_DSA_65_SIGNATURE_SIZE = 3309"
definition HYBRID_SIG_PUBLIC_KEY_SIZE :: nat where
  "HYBRID_SIG_PUBLIC_KEY_SIZE = ED25519_PUBLIC_KEY_SIZE + ML_DSA_65_PUBLIC_KEY_SIZE"
definition HYBRID_SIG_SECRET_KEY_SIZE :: nat where
  "HYBRID_SIG_SECRET_KEY_SIZE = 32 + ML_DSA_65_SECRET_KEY_SIZE + ML_DSA_65_PUBLIC_KEY_SIZE"
definition HYBRID_SIGNATURE_SIZE :: nat where
  "HYBRID_SIGNATURE_SIZE = ED25519_SIGNATURE_SIZE + ML_DSA_65_SIGNATURE_SIZE"

lemmas sig_sizes = ED25519_PUBLIC_KEY_SIZE_def ED25519_SIGNATURE_SIZE_def
  ML_DSA_65_PUBLIC_KEY_SIZE_def ML_DSA_65_SECRET_KEY_SIZE_def ML_DSA_65_SIGNATURE_SIZE_def
  HYBRID_SIG_PUBLIC_KEY_SIZE_def HYBRID_SIG_SECRET_KEY_SIZE_def HYBRID_SIGNATURE_SIZE_def

section \<open>The primitive schemes\<close>

record sig_prims =
  ed_public :: "bytes \<Rightarrow> bytes"
  ed_sign :: "bytes \<Rightarrow> bytes \<Rightarrow> bytes"
  ed_key_ok :: "bytes \<Rightarrow> bool"
  ed_verify :: "bytes \<Rightarrow> bytes \<Rightarrow> bytes \<Rightarrow> bool"
  ml_public :: "bytes \<Rightarrow> bytes"
  ml_try_sign :: "bytes \<Rightarrow> bytes \<Rightarrow> bytes option"
  ml_sig_ok :: "bytes \<Rightarrow> bool"
  ml_verify :: "bytes \<Rightarrow> bytes \<Rightarrow> bytes \<Rightarrow> bool"

text \<open>
  What the crates document, for a 32-byte seed: keys and signatures have their fixed sizes,
  a derived public key is accepted, and a signature made with a seed verifies under its
  public key.
\<close>

definition prims_correct :: "sig_prims \<Rightarrow> bool" where
  "prims_correct P \<longleftrightarrow>
     (\<forall>seed m. length seed = 32 \<longrightarrow>
        length (ed_public P seed) = 32 \<and> ed_key_ok P (ed_public P seed) \<and>
        length (ed_sign P seed m) = 64 \<and> ed_verify P (ed_public P seed) m (ed_sign P seed m) \<and>
        length (ml_public P seed) = 1952 \<and>
        (\<forall>sig. ml_try_sign P seed m = Some sig \<longrightarrow>
           length sig = 3309 \<and> ml_sig_ok P sig \<and> ml_verify P (ml_public P seed) m sig))"

section \<open>Prekey messages\<close>

definition build_prekey_sign_message :: "8 word \<Rightarrow> bytes \<Rightarrow> bytes" where
  "build_prekey_sign_message suite_id public_key =
     as_bytes ''KonstruktX3DH-v1'' @ [0, suite_id] @ public_key"

definition KYBER_PREKEY_SIGN_SUITE_V2 :: "8 word" where
  "KYBER_PREKEY_SIGN_SUITE_V2 = 0x11"

definition build_kyber_prekey_sign_message_v2 :: "u64 \<Rightarrow> bytes \<Rightarrow> bytes" where
  "build_kyber_prekey_sign_message_v2 created_at public_key =
     build_prekey_sign_message KYBER_PREKEY_SIGN_SUITE_V2
       (u64_be_bytes created_at @ public_key)"

section \<open>Splitting, signing, verifying\<close>

datatype sig_error =
    VerifyingKeySize | InvalidVerifyingKey | SignatureSize | PrekeyVerificationFailed
  | HybridPublicKeySize nat | HybridSignatureSize nat | HybridPrivateKeySize nat
  | InvalidEd25519Key | Ed25519Failed | InvalidMlDsaSignature | MlDsaFailed
  | MlDsaSigningFailed

definition verify_kyber_prekey_signature_v2 ::
    "sig_prims \<Rightarrow> bytes \<Rightarrow> u64 \<Rightarrow> bytes \<Rightarrow> bytes \<Rightarrow> (sig_error, unit) result" where
  "verify_kyber_prekey_signature_v2 P vk created_at public_key signature =
     (if length vk \<noteq> ED25519_PUBLIC_KEY_SIZE then Err VerifyingKeySize
      else if \<not> ed_key_ok P vk then Err InvalidVerifyingKey
      else if length signature \<noteq> ED25519_SIGNATURE_SIZE then Err SignatureSize
      else if ed_verify P vk (build_kyber_prekey_sign_message_v2 created_at public_key) signature
        then Ok () else Err PrekeyVerificationFailed)"

definition split_hybrid_public_key :: "bytes \<Rightarrow> (sig_error, bytes \<times> bytes) result" where
  "split_hybrid_public_key pk =
     (if length pk \<noteq> HYBRID_SIG_PUBLIC_KEY_SIZE then Err (HybridPublicKeySize (length pk))
      else Ok (take ED25519_PUBLIC_KEY_SIZE pk, drop ED25519_PUBLIC_KEY_SIZE pk))"

definition split_hybrid_signature :: "bytes \<Rightarrow> (sig_error, bytes \<times> bytes) result" where
  "split_hybrid_signature sig =
     (if length sig \<noteq> HYBRID_SIGNATURE_SIZE then Err (HybridSignatureSize (length sig))
      else Ok (take ED25519_SIGNATURE_SIZE sig, drop ED25519_SIGNATURE_SIZE sig))"

text \<open>
  The ML-DSA key and signature arrays already have the encoded sizes after the two splits, so
  only the signature's \<open>decode\<close> can still refuse them.
\<close>

definition verify_hybrid_signature ::
    "sig_prims \<Rightarrow> bytes \<Rightarrow> bytes \<Rightarrow> bytes \<Rightarrow> (sig_error, unit) result" where
  "verify_hybrid_signature P pk message sig =
     (case split_hybrid_public_key pk of
        Err e \<Rightarrow> Err e
      | Ok (ed_pk, ml_pk) \<Rightarrow>
          (case split_hybrid_signature sig of
             Err e \<Rightarrow> Err e
           | Ok (ed_sig, ml_sig) \<Rightarrow>
               if \<not> ed_key_ok P ed_pk then Err InvalidEd25519Key
               else if \<not> ed_verify P ed_pk message ed_sig then Err Ed25519Failed
               else if \<not> ml_sig_ok P ml_sig then Err InvalidMlDsaSignature
               else if \<not> ml_verify P ml_pk message ml_sig then Err MlDsaFailed
               else Ok ()))"

definition verify_hybrid_kyber_prekey_signature_v2 ::
    "sig_prims \<Rightarrow> bytes \<Rightarrow> u64 \<Rightarrow> bytes \<Rightarrow> bytes \<Rightarrow> (sig_error, unit) result" where
  "verify_hybrid_kyber_prekey_signature_v2 P vk created_at kyber_public_key sig =
     verify_hybrid_signature P vk
       (build_kyber_prekey_sign_message_v2 created_at kyber_public_key) sig"

definition hybrid_signature_keypair_from_seeds ::
    "sig_prims \<Rightarrow> bytes \<Rightarrow> bytes \<Rightarrow> bytes \<times> bytes" where
  "hybrid_signature_keypair_from_seeds P ed25519_seed mldsa_seed =
     (ed25519_seed @ mldsa_seed @ ml_public P mldsa_seed,
      ed_public P ed25519_seed @ ml_public P mldsa_seed)"

definition hybrid_sign :: "sig_prims \<Rightarrow> bytes \<Rightarrow> bytes \<Rightarrow> (sig_error, bytes) result" where
  "hybrid_sign P private_key message =
     (if length private_key \<noteq> HYBRID_SIG_SECRET_KEY_SIZE
      then Err (HybridPrivateKeySize (length private_key))
      else let ed_seed = take 32 private_key;
               ml_seed = take ML_DSA_65_SECRET_KEY_SIZE (drop 32 private_key)
           in case ml_try_sign P ml_seed message of
                None \<Rightarrow> Err MlDsaSigningFailed
              | Some ml_sig \<Rightarrow> Ok (ed_sign P ed_seed message @ ml_sig))"

section \<open>Properties\<close>

lemma verify_hybrid_OkD:
  assumes "verify_hybrid_signature P pk m sig = Ok ()"
  shows "length pk = 1984 \<and> length sig = 3373 \<and>
         ed_key_ok P (take 32 pk) \<and> ed_verify P (take 32 pk) m (take 64 sig) \<and>
         ml_sig_ok P (drop 64 sig) \<and> ml_verify P (drop 32 pk) m (drop 64 sig)"
  using assms
  by (auto simp: verify_hybrid_signature_def split_hybrid_public_key_def
      split_hybrid_signature_def sig_sizes split: if_splits)

lemma verify_hybrid_OkI:
  assumes "length pk = 1984" "length sig = 3373"
    and "ed_key_ok P (take 32 pk)" "ed_verify P (take 32 pk) m (take 64 sig)"
    and "ml_sig_ok P (drop 64 sig)" "ml_verify P (drop 32 pk) m (drop 64 sig)"
  shows "verify_hybrid_signature P pk m sig = Ok ()"
  using assms
  by (simp add: verify_hybrid_signature_def split_hybrid_public_key_def
      split_hybrid_signature_def sig_sizes)

lemma hybrid_sign_keypair:
  assumes ok: "prims_correct P"
    and len: "length s1 = 32" "length s2 = 32"
    and kp: "hybrid_signature_keypair_from_seeds P s1 s2 = (sk, pk)"
  shows "hybrid_sign P sk m =
     (case ml_try_sign P s2 m of None \<Rightarrow> Err MlDsaSigningFailed
      | Some ms \<Rightarrow> Ok (ed_sign P s1 m @ ms))"
proof -
  from ok len have "length (ml_public P s2) = 1952" by (simp add: prims_correct_def)
  with len kp show ?thesis
    by (auto simp: hybrid_signature_keypair_from_seeds_def hybrid_sign_def sig_sizes
        split: option.split)
qed

lemma hybrid_sign_verifies:
  assumes ok: "prims_correct P"
    and len: "length s1 = 32" "length s2 = 32"
    and kp: "hybrid_signature_keypair_from_seeds P s1 s2 = (sk, pk)"
    and sg: "hybrid_sign P sk m = Ok sig"
  shows "verify_hybrid_signature P pk m sig = Ok ()"
proof -
  from sg hybrid_sign_keypair [OF ok len kp, of m] obtain ms
    where ms: "ml_try_sign P s2 m = Some ms" and sig: "sig = ed_sign P s1 m @ ms"
    by (auto split: option.splits)
  from kp have pk: "pk = ed_public P s1 @ ml_public P s2"
    by (simp add: hybrid_signature_keypair_from_seeds_def)
  from ok len ms show ?thesis
    unfolding pk sig by (intro verify_hybrid_OkI) (auto simp: prims_correct_def)
qed

text \<open>
  A signed prekey message determines its suite, its creation time and its key: a signature
  over one of them cannot be presented for another.
\<close>

lemma build_prekey_sign_message_inj:
  "build_prekey_sign_message i k = build_prekey_sign_message j l \<longleftrightarrow> i = j \<and> k = l"
  by (auto simp: build_prekey_sign_message_def)

lemma build_kyber_v2_inj:
  "build_kyber_prekey_sign_message_v2 t k = build_kyber_prekey_sign_message_v2 u l
     \<longleftrightarrow> t = u \<and> k = l"
  by (auto simp: build_kyber_prekey_sign_message_v2_def build_prekey_sign_message_inj)

end
