(* ===== verification/Server_Trust.thy ===== *)
theory Server_Trust
  imports Hybrid_Sig
begin

text \<open>
  Server keys rooted offline, \<open>crates/construct-crypto/src/server_trust.rs\<close>: which delegation a
  configured key signs under, the window a signature may be dated in, and how long a delegation
  is served. The delegation's own encoding and the signed bytes are the crate
  \<open>construct-server-trust\<close>: \<open>trust_crate\<close> is what this code calls of it.
\<close>

datatype purpose = SenderCert | KtHead | StickerManifest

record delegation =
  d_purpose :: purpose
  d_not_before :: int
  d_not_after :: int
  d_public_key :: bytes
  d_root_signature :: bytes

record trust_crate =
  kid_of :: "bytes \<Rightarrow> bytes"
  signable :: "delegation \<Rightarrow> bytes"
  server_signable :: "purpose \<Rightarrow> bytes \<Rightarrow> bytes \<Rightarrow> bytes"
  kt_head_body :: "u64 \<Rightarrow> bytes \<Rightarrow> bytes"
  grace_secs :: "purpose \<Rightarrow> int option"

definition key_env :: "purpose \<Rightarrow> string" where
  "key_env p = (case p of
      SenderCert \<Rightarrow> ''SERVER_TRUST_SENDER_CERT_KEY''
    | KtHead \<Rightarrow> ''SERVER_TRUST_KT_HEAD_KEY''
    | StickerManifest \<Rightarrow> ''SERVER_TRUST_STICKER_MANIFEST_KEY'')"

text \<open>\<open>i64::saturating_add\<close>.\<close>

definition sat_add64 :: "int \<Rightarrow> int \<Rightarrow> int" where
  "sat_add64 a b = max (- (2 ^ 63)) (min (2 ^ 63 - 1) (a + b))"

definition servable_delegations :: "trust_crate \<Rightarrow> delegation list \<Rightarrow> int \<Rightarrow> delegation list" where
  "servable_delegations T ds now =
     filter (\<lambda>d. case grace_secs T (d_purpose d) of
                   Some grace \<Rightarrow> now \<le> sat_add64 (d_not_after d) grace
                 | None \<Rightarrow> True) ds"

definition is_rooted :: "sig_prims \<Rightarrow> trust_crate \<Rightarrow> delegation \<Rightarrow> bytes list \<Rightarrow> bool" where
  "is_rooted P T d roots =
     list_ex (\<lambda>r. verify_hybrid_signature P r (signable T d) (d_root_signature d) = Ok ()) roots"

record delegated_signer =
  ds_purpose :: purpose
  ds_private_key :: bytes
  ds_kid :: bytes
  ds_not_before :: int
  ds_not_after :: int

datatype trust_error = NoDelegation bytes | NotRooted bytes | OutsideWindow int int int
  | SignFailed sig_error

text \<open>
  \<open>Iterator::max_by_key\<close> over the delegations' \<open>not_after\<close>: the last of the maximal elements.
\<close>

fun max_by_not_after :: "delegation list \<Rightarrow> delegation option" where
  "max_by_not_after [] = None"
| "max_by_not_after (d # ds) =
     (case max_by_not_after ds of
        None \<Rightarrow> Some d
      | Some e \<Rightarrow> if d_not_after d \<le> d_not_after e then Some e else Some d)"

definition delegated_signer_new ::
    "sig_prims \<Rightarrow> trust_crate \<Rightarrow> purpose \<Rightarrow> bytes \<Rightarrow> delegation list \<Rightarrow> bytes list \<Rightarrow>
     (trust_error, delegated_signer) result" where
  "delegated_signer_new P T purpose seeds delegations roots =
     (let (private_key, public_key) =
            hybrid_signature_keypair_from_seeds P (take 32 seeds) (drop 32 seeds);
          kid = kid_of T public_key
      in case max_by_not_after
                (filter (\<lambda>d. d_purpose d = purpose \<and> d_public_key d = public_key) delegations) of
           None \<Rightarrow> Err (NoDelegation kid)
         | Some d \<Rightarrow>
             if roots \<noteq> [] \<and> \<not> is_rooted P T d roots then Err (NotRooted kid)
             else Ok \<lparr>ds_purpose = purpose, ds_private_key = private_key, ds_kid = kid,
                      ds_not_before = d_not_before d, ds_not_after = d_not_after d\<rparr>)"

definition signer_sign ::
    "sig_prims \<Rightarrow> trust_crate \<Rightarrow> delegated_signer \<Rightarrow> bytes \<Rightarrow> int \<Rightarrow> (trust_error, bytes) result" where
  "signer_sign P T s body signed_at =
     (if signed_at < ds_not_before s \<or> signed_at > ds_not_after s
      then Err (OutsideWindow (ds_not_before s) (ds_not_after s) signed_at)
      else case hybrid_sign P (ds_private_key s)
                  (server_signable T (ds_purpose s) (ds_kid s) body) of
             Err e \<Rightarrow> Err (SignFailed e)
           | Ok sig \<Rightarrow> Ok sig)"

section \<open>Properties\<close>

lemma max_by_not_after_None [simp]: "max_by_not_after ds = None \<longleftrightarrow> ds = []"
  by (cases ds) (auto split: option.splits)

lemma max_by_not_after_max:
  "max_by_not_after ds = Some d \<Longrightarrow>
     d \<in> set ds \<and> (\<forall>e \<in> set ds. d_not_after e \<le> d_not_after d)"
proof (induction ds arbitrary: d)
  case (Cons a ds)
  then show ?case
    by (cases "max_by_not_after ds") (fastforce split: if_splits)+
qed simp

lemma delegated_signer_new_OkD:
  assumes "delegated_signer_new P T p seeds ds roots = Ok s"
    and "hybrid_signature_keypair_from_seeds P (take 32 seeds) (drop 32 seeds) = (sk, pk)"
  shows "\<exists>d \<in> set ds. d_purpose d = p \<and> d_public_key d = pk \<and>
           ds_not_before s = d_not_before d \<and> ds_not_after s = d_not_after d \<and>
           (\<forall>e \<in> set ds. d_purpose e = p \<and> d_public_key e = pk \<longrightarrow> d_not_after e \<le> d_not_after d) \<and>
           (roots \<noteq> [] \<longrightarrow> is_rooted P T d roots) \<and>
           ds_purpose s = p \<and> ds_private_key s = sk \<and> ds_kid s = kid_of T pk"
  using assms
  by (auto simp: delegated_signer_new_def Let_def split: option.splits if_splits
      dest!: max_by_not_after_max)

lemma signer_sign_OkD:
  assumes "signer_sign P T s body t = Ok sig"
  shows "ds_not_before s \<le> t \<and> t \<le> ds_not_after s \<and>
         hybrid_sign P (ds_private_key s) (server_signable T (ds_purpose s) (ds_kid s) body) = Ok sig"
  using assms by (auto simp: signer_sign_def split: if_splits sum.splits)

text \<open>
  C40. Every signature a delegated signer issues is one a client accepts: it verifies, over the
  bytes the purpose and key id name, under the public key of a delegation of that purpose, it is
  dated inside that delegation's window, the delegation is signed by one of the configured roots
  when there are any, and no other delegation of the same key ends later.
\<close>

theorem delegated_signature_accepted:
  assumes "prims_correct P" and "length seeds = 64"
    and "delegated_signer_new P T p seeds ds roots = Ok s"
    and "signer_sign P T s body t = Ok sig"
  shows "\<exists>d \<in> set ds. d_purpose d = p \<and>
           d_not_before d \<le> t \<and> t \<le> d_not_after d \<and>
           (roots \<noteq> [] \<longrightarrow> is_rooted P T d roots) \<and>
           (\<forall>e \<in> set ds. d_purpose e = p \<and> d_public_key e = d_public_key d \<longrightarrow>
              d_not_after e \<le> d_not_after d) \<and>
           verify_hybrid_signature P (d_public_key d)
             (server_signable T p (kid_of T (d_public_key d)) body) sig = Ok ()"
proof -
  obtain sk pk
    where kp: "hybrid_signature_keypair_from_seeds P (take 32 seeds) (drop 32 seeds) = (sk, pk)"
    by fastforce
  from delegated_signer_new_OkD [OF assms(3) kp] signer_sign_OkD [OF assms(4)]
  obtain d where d: "d \<in> set ds" "d_purpose d = p" "d_public_key d = pk"
      "d_not_before d \<le> t" "t \<le> d_not_after d" "roots \<noteq> [] \<longrightarrow> is_rooted P T d roots"
      "\<forall>e \<in> set ds. d_purpose e = p \<and> d_public_key e = pk \<longrightarrow> d_not_after e \<le> d_not_after d"
    and sg: "hybrid_sign P sk (server_signable T p (kid_of T pk) body) = Ok sig"
    by metis
  have "verify_hybrid_signature P pk (server_signable T p (kid_of T pk) body) sig = Ok ()"
    by (rule hybrid_sign_verifies [OF assms(1) _ _ kp sg]) (simp_all add: assms(2))
  with d show ?thesis by blast
qed

text \<open>A concrete signer: primitives that satisfy the hypothesis, and one delegation.\<close>

definition sample_prims :: sig_prims where
  "sample_prims = \<lparr>ed_public = (\<lambda>s. s), ed_sign = (\<lambda>s m. replicate 64 0), ed_key_ok = (\<lambda>k. True),
     ed_verify = (\<lambda>k m s. s = replicate 64 0), ml_public = (\<lambda>s. replicate 1952 0),
     ml_try_sign = (\<lambda>s m. Some (replicate 3309 1)), ml_sig_ok = (\<lambda>s. True),
     ml_verify = (\<lambda>k m s. s = replicate 3309 1)\<rparr>"

definition sample_trust :: trust_crate where
  "sample_trust = \<lparr>kid_of = take 8, signable = d_public_key, server_signable = (\<lambda>p k b. k @ b),
     kt_head_body = (\<lambda>n r. u64_be_bytes n @ r), grace_secs = (\<lambda>p. Some 60)\<rparr>"

definition sample_delegation :: delegation where
  "sample_delegation = \<lparr>d_purpose = KtHead, d_not_before = 1000, d_not_after = 2000,
     d_public_key = replicate 1984 0, d_root_signature = []\<rparr>"

lemma sample_prims_correct: "prims_correct sample_prims"
  by (simp add: prims_correct_def sample_prims_def)

lemma sample_keypair:
  "hybrid_signature_keypair_from_seeds sample_prims (replicate 32 0) (replicate 32 0)
     = (replicate 2016 0, replicate 1984 0)"
  by (simp add: hybrid_signature_keypair_from_seeds_def sample_prims_def
      flip: replicate_add)

theorem delegated_signature_accepted_witness:
  "\<exists>d \<in> set [sample_delegation]. d_purpose d = KtHead \<and>
     d_not_before d \<le> 1500 \<and> 1500 \<le> d_not_after d \<and>
     verify_hybrid_signature sample_prims (d_public_key d)
       (server_signable sample_trust KtHead (kid_of sample_trust (d_public_key d)) [7])
       (replicate 64 0 @ replicate 3309 1) = Ok ()"
proof -
  let ?seeds = "replicate 64 0 :: bytes"
  let ?s = "\<lparr>ds_purpose = KtHead, ds_private_key = replicate 2016 0, ds_kid = replicate 8 0,
              ds_not_before = 1000, ds_not_after = 2000\<rparr>"
  have new: "delegated_signer_new sample_prims sample_trust KtHead ?seeds [sample_delegation] [] = Ok ?s"
    by (simp add: delegated_signer_new_def sample_keypair sample_delegation_def sample_trust_def)
  have sign: "signer_sign sample_prims sample_trust ?s [7] 1500 = Ok (replicate 64 0 @ replicate 3309 1)"
    by (simp add: signer_sign_def hybrid_sign_def sig_sizes sample_prims_def)
  show ?thesis
    using delegated_signature_accepted [OF sample_prims_correct _ new sign] by auto
qed

text \<open>
  A delegation is served as long as a client may still need it: with a non-negative grace,
  one that is valid at \<open>t\<close> is in the served list at every time up to \<open>t\<close> plus its purpose's
  grace (times and graces below the saturation point), and a purpose without a grace is always
  served.
\<close>

theorem servable_through_grace:
  assumes "d \<in> set ds" and "t \<le> d_not_after d"
    and "\<And>g. grace_secs T (d_purpose d) = Some g \<Longrightarrow>
           now \<le> t + g \<and> now < 2 ^ 63"
  shows "d \<in> set (servable_delegations T ds now)"
  using assms by (auto simp: servable_delegations_def sat_add64_def split: option.splits)

end
