(* ===== verification/Key_Transparency.thy ===== *)
theory Key_Transparency
  imports Server_Trust "HOL-Library.While_Combinator"
begin

text \<open>
  The key-transparency log, \<open>key-service/src/kt.rs\<close>: leaf and node hashes, the RFC 6962 Merkle
  tree over the log's leaves, inclusion proofs and their verification, the append-only table of
  leaves, and the proofs and signed heads a prekey bundle carries. SHA-256 is the argument
  \<open>sha\<close>; the table \<open>kt_leaves\<close> is a list of rows and each SQL statement of the file is the
  definition named after what it reads or writes.
\<close>

section \<open>Hashing\<close>

definition leaf_hash :: "(bytes \<Rightarrow> bytes) \<Rightarrow> string \<Rightarrow> bytes \<Rightarrow> bytes" where
  "leaf_hash sha device_id identity_key_raw = sha (0 # as_bytes device_id @ identity_key_raw)"

definition hybrid_leaf_hash :: "(bytes \<Rightarrow> bytes) \<Rightarrow> string \<Rightarrow> bytes \<Rightarrow> bytes" where
  "hybrid_leaf_hash sha device_id hybrid_identity_key =
     sha (2 # as_bytes device_id @ hybrid_identity_key)"

definition node_hash :: "(bytes \<Rightarrow> bytes) \<Rightarrow> bytes \<Rightarrow> bytes \<Rightarrow> bytes" where
  "node_hash sha left right = sha (1 # left @ right)"

section \<open>The Merkle tree\<close>

text \<open>
  The loop doubles \<open>k\<close> until it reaches \<open>n\<close>. A slice of 32-byte hashes is shorter than
  \<open>2 ^ 59\<close>, so the shift never overflows a 64-bit \<open>usize\<close>.
\<close>

definition split_at :: "nat \<Rightarrow> nat" where
  "split_at n = while (\<lambda>k. k < n) (\<lambda>k. 2 * k) 1 div 2"

lemma split_loop:
  "\<exists>j. while (\<lambda>k. k < n) (\<lambda>k. 2 * k) (1::nat) = 2 ^ j \<and> n \<le> 2 ^ j \<and> (j = 0 \<or> 2 ^ (j - 1) < n)"
proof (rule while_rule [where r = "measure (\<lambda>k. n - k)"
      and P = "\<lambda>k. \<exists>j. k = 2 ^ j \<and> (j = 0 \<or> 2 ^ (j - 1) < n)"])
  show "\<exists>j. (1::nat) = 2 ^ j \<and> (j = 0 \<or> 2 ^ (j - 1) < n)" by (rule exI [of _ 0]) simp
next
  fix k :: nat
  assume "\<exists>j. k = 2 ^ j \<and> (j = 0 \<or> 2 ^ (j - 1) < n)" and "k < n"
  then obtain j where "k = 2 ^ j" by blast
  with \<open>k < n\<close> show "\<exists>j. 2 * k = 2 ^ j \<and> (j = 0 \<or> 2 ^ (j - 1) < n)"
    by (intro exI [of _ "Suc j"]) simp
qed (auto simp: not_less intro!: diff_less_mono2)

lemma split_at_pow2:
  assumes "2 \<le> n"
  obtains j where "split_at n = 2 ^ j" and "2 ^ j < n" and "n \<le> 2 * 2 ^ j"
proof -
  from split_loop [of n] obtain i
    where i: "while (\<lambda>k. k < n) (\<lambda>k. 2 * k) (1::nat) = 2 ^ i" "n \<le> 2 ^ i"
      "i = 0 \<or> 2 ^ (i - 1) < n" by blast
  with assms have "i \<noteq> 0" by (cases i) auto
  then obtain j where "i = Suc j" by (cases i) auto
  with i that [of j] show thesis by (simp add: split_at_def)
qed

lemma split_at_bounds: "2 \<le> n \<Longrightarrow> 0 < split_at n \<and> split_at n < n"
  by (metis split_at_pow2 zero_less_numeral zero_less_power)

lemma split_at_less: "1 < n \<Longrightarrow> split_at n < n"
  and split_at_rest_less: "1 < n \<Longrightarrow> n - split_at n < n"
  using split_at_bounds [of n] by auto

lemma two_or_more: "xs \<noteq> [] \<Longrightarrow> length xs \<noteq> Suc 0 \<Longrightarrow> 1 < length xs"
  by (cases xs) auto

function merkle_root :: "(bytes \<Rightarrow> bytes) \<Rightarrow> bytes list \<Rightarrow> bytes" where
  "merkle_root sha leaves =
     (if length leaves = 0 then sha []
      else if length leaves = 1 then leaves ! 0
      else let k = split_at (length leaves)
           in node_hash sha (merkle_root sha (take k leaves)) (merkle_root sha (drop k leaves)))"
  by pat_completeness auto
termination
  by (relation "measure (\<lambda>(sha, leaves). length leaves)")
    (auto simp: min_def not_le dest!: two_or_more intro: split_at_less split_at_rest_less)

declare merkle_root.simps [simp del]

section \<open>Inclusion proofs\<close>

text \<open>Called on a non-empty slice only, where \<open>length leaves \<le> 1\<close> is the code's \<open>n == 1\<close>.\<close>

function inclusion_proof_inner :: "(bytes \<Rightarrow> bytes) \<Rightarrow> bytes list \<Rightarrow> nat \<Rightarrow> bytes list" where
  "inclusion_proof_inner sha leaves index =
     (if length leaves \<le> 1 then []
      else let k = split_at (length leaves)
           in if index < k
              then inclusion_proof_inner sha (take k leaves) index
                     @ [merkle_root sha (drop k leaves)]
              else inclusion_proof_inner sha (drop k leaves) (index - k)
                     @ [merkle_root sha (take k leaves)])"
  by pat_completeness auto
termination
  by (relation "measure (\<lambda>(sha, leaves, index). length leaves)")
    (auto simp: min_def not_le dest!: two_or_more intro: split_at_less split_at_rest_less)

declare inclusion_proof_inner.simps [simp del]

definition generate_inclusion_proof ::
    "(bytes \<Rightarrow> bytes) \<Rightarrow> bytes list \<Rightarrow> nat \<Rightarrow> (bytes list \<times> bytes) option" where
  "generate_inclusion_proof sha leaves index =
     (if leaves = [] \<or> length leaves \<le> index then None
      else Some (inclusion_proof_inner sha leaves index, merkle_root sha leaves))"

function inclusion_reconstruct ::
    "(bytes \<Rightarrow> bytes) \<Rightarrow> bytes \<Rightarrow> bytes list \<Rightarrow> nat \<Rightarrow> nat \<Rightarrow> bytes option" where
  "inclusion_reconstruct sha leaf proof index n =
     (if proof = [] then (if n = 1 \<and> index = 0 then Some leaf else None)
      else let k = split_at n; sibling = last proof; inner = butlast proof
           in if index < k
              then (case inclusion_reconstruct sha leaf inner index k of
                      None \<Rightarrow> None | Some left \<Rightarrow> Some (node_hash sha left sibling))
              else (case inclusion_reconstruct sha leaf inner (index - k) (n - k) of
                      None \<Rightarrow> None | Some right \<Rightarrow> Some (node_hash sha sibling right)))"
  by pat_completeness auto
termination
  by (relation "measure (\<lambda>(sha, leaf, proof, index, n). length proof)") auto

declare inclusion_reconstruct.simps [simp del]

definition verify_inclusion ::
    "(bytes \<Rightarrow> bytes) \<Rightarrow> bytes \<Rightarrow> bytes list \<Rightarrow> nat \<Rightarrow> nat \<Rightarrow> bytes \<Rightarrow> bool" where
  "verify_inclusion sha leaf proof index tree_size root =
     (if tree_size = 0 \<or> tree_size \<le> index then False
      else inclusion_reconstruct sha leaf proof index tree_size = Some root)"

section \<open>Properties of the tree\<close>

lemma merkle_root_single [simp]: "merkle_root sha [l] = l"
  by (simp add: merkle_root.simps)

lemma merkle_root_split:
  "1 < length ls \<Longrightarrow> merkle_root sha ls =
     node_hash sha (merkle_root sha (take (split_at (length ls)) ls))
       (merkle_root sha (drop (split_at (length ls)) ls))"
  by (subst merkle_root.simps) (auto simp: Let_def)

lemma proof_inner_short [simp]: "length ls \<le> 1 \<Longrightarrow> inclusion_proof_inner sha ls i = []"
  by (simp add: inclusion_proof_inner.simps)

lemma proof_inner_split:
  "1 < length ls \<Longrightarrow> inclusion_proof_inner sha ls i =
     (let k = split_at (length ls)
      in if i < k then inclusion_proof_inner sha (take k ls) i @ [merkle_root sha (drop k ls)]
         else inclusion_proof_inner sha (drop k ls) (i - k) @ [merkle_root sha (take k ls)])"
  by (subst inclusion_proof_inner.simps) (auto simp: Let_def)

lemma reconstruct_nil [simp]:
  "inclusion_reconstruct sha leaf [] i n = (if n = 1 \<and> i = 0 then Some leaf else None)"
  by (simp add: inclusion_reconstruct.simps)

lemma reconstruct_snoc [simp]:
  "inclusion_reconstruct sha leaf (p @ [x]) i n =
     (let k = split_at n
      in if i < k then map_option (\<lambda>l. node_hash sha l x) (inclusion_reconstruct sha leaf p i k)
         else map_option (node_hash sha x) (inclusion_reconstruct sha leaf p (i - k) (n - k)))"
  by (subst inclusion_reconstruct.simps) (auto simp: Let_def split: option.split)

lemma length_cases:
  assumes "ls \<noteq> []"
  obtains l where "ls = [l]" | "1 < length ls"
  using assms by (cases ls; cases "tl ls") auto

lemma reconstruct_inner:
  "index < length leaves \<Longrightarrow>
     inclusion_reconstruct sha (leaves ! index) (inclusion_proof_inner sha leaves index) index
       (length leaves) = Some (merkle_root sha leaves)"
proof (induction sha leaves index rule: inclusion_proof_inner.induct)
  case (1 sha leaves index)
  define k where "k = split_at (length leaves)"
  from "1.prems" have "leaves \<noteq> []" by auto
  then show ?case
  proof (cases rule: length_cases)
    case 1
    with "1.prems" show ?thesis by simp
  next
    case 2
    then have k: "0 < k" "k < length leaves" using split_at_bounds by (auto simp: k_def)
    note unfold = merkle_root_split [OF 2, folded k_def] proof_inner_split [OF 2, folded k_def]
    show ?thesis
    proof (cases "index < k")
      case True
      with "1.IH"(1) [OF _ k_def] k 2
      have "inclusion_reconstruct sha (leaves ! index)
          (inclusion_proof_inner sha (take k leaves) index) index k
          = Some (merkle_root sha (take k leaves))" by simp
      with True show ?thesis by (simp add: unfold flip: k_def)
    next
      case False
      with "1.IH"(2) [OF _ k_def] k 2 "1.prems"
      have "inclusion_reconstruct sha (leaves ! index)
          (inclusion_proof_inner sha (drop k leaves) (index - k)) (index - k) (length leaves - k)
          = Some (merkle_root sha (drop k leaves))" by simp
      with False show ?thesis by (simp add: unfold flip: k_def)
    qed
  qed
qed

text \<open>
  Two different inputs with one digest. The soundness results below do not assume that the hash
  is injective, which no 32-byte hash is: a proof accepted for a leaf that is not there exhibits
  a collision.
\<close>

definition collision :: "(bytes \<Rightarrow> bytes) \<Rightarrow> bool" where
  "collision sha \<longleftrightarrow> (\<exists>x y. x \<noteq> y \<and> sha x = sha y)"

definition is_leaf_digest :: "(bytes \<Rightarrow> bytes) \<Rightarrow> bytes \<Rightarrow> bool" where
  "is_leaf_digest sha l \<longleftrightarrow> (\<exists>t m. t \<noteq> 1 \<and> l = sha (t # m))"

lemma collisionI: "sha x = sha y \<Longrightarrow> x \<noteq> y \<Longrightarrow> collision sha"
  by (auto simp: collision_def)

lemma leaf_digests [simp]:
  "is_leaf_digest sha (leaf_hash sha d k)" "is_leaf_digest sha (hybrid_leaf_hash sha d k)"
  by (force simp: is_leaf_digest_def leaf_hash_def hybrid_leaf_hash_def)+

lemma leaf_digest_not_node: "is_leaf_digest sha (node_hash sha l r) \<Longrightarrow> collision sha"
  by (auto simp: is_leaf_digest_def node_hash_def intro: collisionI)

lemma node_hash_eq:
  assumes "node_hash sha l r = node_hash sha l' r'" and "length l = length l'"
  shows "l = l' \<and> r = r' \<or> collision sha"
  using assms by (auto simp: node_hash_def dest: collisionI)

lemma length_reconstruct:
  assumes "\<And>x. length (sha x) = 32" and "length leaf = 32"
    and "inclusion_reconstruct sha leaf p i n = Some r"
  shows "length r = 32"
  using assms by (cases p rule: rev_cases) (auto simp: Let_def node_hash_def split: if_splits)

lemma length_merkle_root:
  assumes "\<And>x. length (sha x) = 32" and "\<And>l. l \<in> set ls \<Longrightarrow> length l = 32"
  shows "length (merkle_root sha ls) = 32"
  using assms by (subst merkle_root.simps) (auto simp: Let_def node_hash_def)

lemma is_leaf_digest_length: "(\<And>x. length (sha x) = 32) \<Longrightarrow> is_leaf_digest sha l \<Longrightarrow> length l = 32"
  by (auto simp: is_leaf_digest_def)

lemma reconstruct_sound:
  assumes sha: "\<And>x. length (sha x) = 32" and leaf: "length leaf = 32"
  shows "index < length ls \<Longrightarrow> (\<And>l. l \<in> set ls \<Longrightarrow> is_leaf_digest sha l) \<Longrightarrow>
     inclusion_reconstruct sha leaf p index (length ls) = Some (merkle_root sha ls) \<Longrightarrow>
     leaf = ls ! index \<or> collision sha"
proof (induction "length ls" arbitrary: ls index p rule: less_induct)
  case less
  define k where "k = split_at (length ls)"
  from less.prems(1) have "ls \<noteq> []" by auto
  then show ?case
  proof (cases rule: length_cases)
    case (1 l)
    with less.prems show ?thesis
      by (cases p rule: rev_cases)
        (auto simp: Let_def split: if_splits dest: leaf_digest_not_node)
  next
    case 2
    then have k: "0 < k" "k < length ls" using split_at_bounds by (auto simp: k_def)
    from less.prems(3) 2 obtain q x where p: "p = q @ [x]"
      by (cases p rule: rev_cases) auto
    have len: "length (merkle_root sha xs) = 32" if "set xs \<subseteq> set ls" for xs
      using that less.prems(2) sha
      by (intro length_merkle_root) (auto intro: is_leaf_digest_length)
    let ?L = "take k ls" and ?R = "drop k ls"
    have sub: "set ?L \<subseteq> set ls" "set ?R \<subseteq> set ls" by (auto dest: in_set_takeD in_set_dropD)
    note root = merkle_root_split [OF 2, of sha, folded k_def]
    show ?thesis
    proof (cases "index < k")
      case True
      with less.prems(3) p root obtain l
        where l: "inclusion_reconstruct sha leaf q index (length ?L) = Some l"
          and eq: "node_hash sha l x = node_hash sha (merkle_root sha ?L) (merkle_root sha ?R)"
        using k by (auto simp: Let_def k_def [symmetric])
      from node_hash_eq [OF eq] length_reconstruct [OF sha leaf l] len [OF sub(1)]
      have "l = merkle_root sha ?L \<or> collision sha" by auto
      then show ?thesis
        using less.hyps [of ?L index q] less.prems(2) sub(1) l k True by auto
    next
      case False
      with less.prems(3) p root obtain r
        where r: "inclusion_reconstruct sha leaf q (index - k) (length ?R) = Some r"
          and eq: "node_hash sha x r = node_hash sha (merkle_root sha ?L) (merkle_root sha ?R)"
        using k by (auto simp: Let_def k_def [symmetric])
      then have "x @ r = merkle_root sha ?L @ merkle_root sha ?R \<or> collision sha"
        by (auto simp: node_hash_def dest: collisionI)
      moreover have "length r = length (merkle_root sha ?R)"
        using length_reconstruct [OF sha leaf r] len [OF sub(2)] by simp
      ultimately have "r = merkle_root sha ?R \<or> collision sha"
        by auto
      moreover have "leaf = ?R ! (index - k) \<or> collision sha" if "r = merkle_root sha ?R"
        by (rule less.hyps [of ?R "index - k" q]) (use that less.prems(1,2) sub(2) r k False in auto)
      ultimately show ?thesis using less.prems(1) k False by auto
    qed
  qed
qed

lemma proof_length_log:
  "0 < length ls \<Longrightarrow> length ls \<le> 2 ^ d \<Longrightarrow> length (inclusion_proof_inner sha ls i) \<le> d"
proof (induction d arbitrary: ls i)
  case 0
  then show ?case by simp
next
  case (Suc d)
  show ?case
  proof (cases "1 < length ls")
    case True
    define k where "k = split_at (length ls)"
    from True obtain j where j: "k = 2 ^ j" "2 ^ j < length ls" "length ls \<le> 2 * 2 ^ j"
      using split_at_pow2 [of "length ls"] by (auto simp: k_def)
    from j(2) Suc.prems(2) have "(2::nat) ^ j < 2 ^ Suc d" by linarith
    then have "j < Suc d" by (rule power_less_imp_less_exp [rotated]) simp
    then have "k \<le> 2 ^ d" using j(1) by simp
    moreover have "length ls - k \<le> 2 ^ d" using j \<open>k \<le> 2 ^ d\<close> by linarith
    ultimately show ?thesis
      using Suc.IH [of "take k ls" i] Suc.IH [of "drop k ls" "i - k"] j
      by (simp add: proof_inner_split [OF True, folded k_def] Let_def)
  qed simp
qed

section \<open>The table of leaves\<close>

record leaf_row =
  lr_device_id :: string
  lr_leaf_kind :: int
  lr_leaf_hash :: bytes
  lr_tree_index :: int

definition LEAF_KIND_IDENTITY :: int where
  "LEAF_KIND_IDENTITY = 0"
definition LEAF_KIND_HYBRID :: int where
  "LEAF_KIND_HYBRID = 1"

text \<open>
  The statements of the transaction: the latest leaf of one device and kind
  (\<open>ORDER BY tree_index DESC LIMIT 1\<close>), the next position
  (\<open>COALESCE(MAX(tree_index), -1) + 1\<close>) and the leaves in tree order.
\<close>

fun max_index_row :: "leaf_row list \<Rightarrow> leaf_row option" where
  "max_index_row [] = None"
| "max_index_row (r # rs) =
     (case max_index_row rs of
        None \<Rightarrow> Some r
      | Some q \<Rightarrow> if lr_tree_index r \<le> lr_tree_index q then Some q else Some r)"

definition select_latest :: "leaf_row list \<Rightarrow> string \<Rightarrow> int \<Rightarrow> (int \<times> bytes) option" where
  "select_latest tbl d kind =
     map_option (\<lambda>r. (lr_tree_index r, lr_leaf_hash r))
       (max_index_row (filter (\<lambda>r. lr_device_id r = d \<and> lr_leaf_kind r = kind) tbl))"

definition next_tree_index :: "leaf_row list \<Rightarrow> int" where
  "next_tree_index tbl =
     (case max_index_row tbl of None \<Rightarrow> -1 | Some r \<Rightarrow> lr_tree_index r) + 1"

definition select_all_leaves :: "leaf_row list \<Rightarrow> bytes list" where
  "select_all_leaves tbl = map lr_leaf_hash (sort_key lr_tree_index tbl)"

text \<open>
  The database calls that can fail, each an early return with the transaction rolled back.
  \<open>fails\<close> says which of them do in one run.
\<close>

datatype kt_error = KtBegin | KtLock | KtFetchLatest | KtInsert | KtCommit | KtFetchAll
  | KtLeafSize | KtNoProof nat

definition insert_leaf ::
    "(kt_error \<Rightarrow> bool) \<Rightarrow> leaf_row list \<Rightarrow> string \<Rightarrow> int \<Rightarrow> bytes \<Rightarrow>
     leaf_row list \<times> (kt_error, nat) result" where
  "insert_leaf fails tbl device_id leaf_kind lhash =
     (let index = next_tree_index tbl in
      if fails KtInsert then (tbl, Err KtInsert)
      else if fails KtCommit then (tbl, Err KtCommit)
      else (tbl @ [\<lparr>lr_device_id = device_id, lr_leaf_kind = leaf_kind, lr_leaf_hash = lhash,
                    lr_tree_index = index\<rparr>], Ok (nat index)))"

definition db_ensure_leaf ::
    "(kt_error \<Rightarrow> bool) \<Rightarrow> leaf_row list \<Rightarrow> string \<Rightarrow> int \<Rightarrow> bytes \<Rightarrow>
     leaf_row list \<times> (kt_error, nat) result" where
  "db_ensure_leaf fails tbl device_id leaf_kind lhash =
     (if fails KtBegin then (tbl, Err KtBegin)
      else if fails KtLock then (tbl, Err KtLock)
      else if fails KtFetchLatest then (tbl, Err KtFetchLatest)
      else case select_latest tbl device_id leaf_kind of
        Some (existing_index, existing_hash) \<Rightarrow>
          if existing_hash = lhash
          then (tbl, if fails KtCommit then Err KtCommit else Ok (nat existing_index))
          else insert_leaf fails tbl device_id leaf_kind lhash
      | None \<Rightarrow> insert_leaf fails tbl device_id leaf_kind lhash)"

definition db_get_all_leaves ::
    "(kt_error \<Rightarrow> bool) \<Rightarrow> leaf_row list \<Rightarrow> (kt_error, bytes list) result" where
  "db_get_all_leaves fails tbl =
     (if fails KtFetchAll then Err KtFetchAll
      else let hs = select_all_leaves tbl
           in if \<forall>h \<in> set hs. length h = 32 then Ok hs else Err KtLeafSize)"

section \<open>Proofs and signed heads\<close>

definition tree_head_signable :: "u64 \<Rightarrow> bytes \<Rightarrow> bytes" where
  "tree_head_signable tree_size root =
     as_bytes ''ConstructKT-v1'' @ u64_be_bytes tree_size @ root"

record kt_proof =
  kp_leaf_index :: nat
  kp_tree_size :: u64
  kp_root_hash :: bytes
  kp_proof_hashes :: "bytes list"
  kp_tree_head_signature :: bytes

record signed_tree_head =
  sh_tree_size :: u64
  sh_root_hash :: bytes
  sh_kid :: bytes
  sh_signature :: bytes

record kt_proofs =
  ks_identity :: kt_proof
  ks_hybrid :: "kt_proof option"
  ks_head :: "signed_tree_head option"

text \<open>\<open>ed_seed\<close> is the Ed25519 signing key; \<open>head_signer\<close> the delegated hybrid key, if any.\<close>

definition sign_tree_head ::
    "sig_prims \<Rightarrow> trust_crate \<Rightarrow> delegated_signer option \<Rightarrow> u64 \<Rightarrow> bytes \<Rightarrow> int \<Rightarrow>
     signed_tree_head option" where
  "sign_tree_head P T head_signer tree_size root now =
     (case head_signer of
        None \<Rightarrow> None
      | Some signer \<Rightarrow>
          (case signer_sign P T signer (kt_head_body T tree_size root) now of
             Ok signature \<Rightarrow> Some \<lparr>sh_tree_size = tree_size, sh_root_hash = root,
                                   sh_kid = ds_kid signer, sh_signature = signature\<rparr>
           | Err _ \<Rightarrow> None))"

definition proofs_from_snapshot ::
    "(bytes \<Rightarrow> bytes) \<Rightarrow> sig_prims \<Rightarrow> trust_crate \<Rightarrow> bytes list \<Rightarrow> nat \<Rightarrow> nat option \<Rightarrow> bytes \<Rightarrow>
     delegated_signer option \<Rightarrow> int \<Rightarrow> (kt_error, kt_proofs) result" where
  "proofs_from_snapshot sha P T leaves identity_index hybrid_index ed_seed head_signer now =
     (let tree_size = of_nat (length leaves) in
      case generate_inclusion_proof sha leaves identity_index of
        None \<Rightarrow> Err (KtNoProof identity_index)
      | Some (identity_hashes, root) \<Rightarrow>
          let ed25519_head = ed_sign P ed_seed (tree_head_signable tree_size root);
              mk_proof = (\<lambda>leaf_index proof_hashes.
                \<lparr>kp_leaf_index = leaf_index, kp_tree_size = tree_size, kp_root_hash = root,
                 kp_proof_hashes = proof_hashes, kp_tree_head_signature = ed25519_head\<rparr>);
              head = sign_tree_head P T head_signer tree_size root now
          in (case hybrid_index of
               None \<Rightarrow> Ok \<lparr>ks_identity = mk_proof identity_index identity_hashes,
                           ks_hybrid = None, ks_head = head\<rparr>
             | Some index \<Rightarrow>
                 (case generate_inclusion_proof sha leaves index of
                    None \<Rightarrow> Err (KtNoProof index)
                  | Some (hashes, hybrid_root) \<Rightarrow>
                      Ok \<lparr>ks_identity = mk_proof identity_index identity_hashes,
                          ks_hybrid = Some (mk_proof index hashes), ks_head = head\<rparr>)))"

text \<open>Each database round of the call has its own failures: \<open>f1\<close>, \<open>f2\<close> for the two leaves,
  \<open>f3\<close> for the read of the tree.\<close>

definition build_kt_proofs ::
    "(bytes \<Rightarrow> bytes) \<Rightarrow> sig_prims \<Rightarrow> trust_crate \<Rightarrow> (kt_error \<Rightarrow> bool) \<Rightarrow> (kt_error \<Rightarrow> bool) \<Rightarrow>
     (kt_error \<Rightarrow> bool) \<Rightarrow> leaf_row list \<Rightarrow> string \<Rightarrow> bytes \<Rightarrow> bytes option \<Rightarrow> bytes \<Rightarrow>
     delegated_signer option \<Rightarrow> int \<Rightarrow> leaf_row list \<times> (kt_error, kt_proofs) result" where
  "build_kt_proofs sha P T f1 f2 f3 tbl device_id identity_key hybrid_key ed_seed head_signer now =
     (case db_ensure_leaf f1 tbl device_id LEAF_KIND_IDENTITY (leaf_hash sha device_id identity_key) of
        (tbl1, Err e) \<Rightarrow> (tbl1, Err e)
      | (tbl1, Ok identity_index) \<Rightarrow>
          (case (case hybrid_key of
                   None \<Rightarrow> (tbl1, Ok None)
                 | Some key \<Rightarrow>
                     (case db_ensure_leaf f2 tbl1 device_id LEAF_KIND_HYBRID
                             (hybrid_leaf_hash sha device_id key) of
                        (tbl2, Err e) \<Rightarrow> (tbl2, Err e)
                      | (tbl2, Ok i) \<Rightarrow> (tbl2, Ok (Some i)))) of
             (tbl2, Err e) \<Rightarrow> (tbl2, Err e)
           | (tbl2, Ok hybrid_index) \<Rightarrow>
               (tbl2, case db_get_all_leaves f3 tbl2 of
                        Err e \<Rightarrow> Err e
                      | Ok leaves \<Rightarrow>
                          proofs_from_snapshot sha P T leaves identity_index hybrid_index
                            ed_seed head_signer now)))"

section \<open>Properties of the log\<close>

text \<open>
  The log is dense: the rows carry the positions \<open>0, 1, 2, \<dots>\<close> in the order they were
  appended. Migration 073 establishes it and every append keeps it.
\<close>

definition dense_log :: "leaf_row list \<Rightarrow> bool" where
  "dense_log tbl \<longleftrightarrow> map lr_tree_index tbl = map int [0..<length tbl]"

lemma max_index_row_None [simp]: "max_index_row rs = None \<longleftrightarrow> rs = []"
  by (cases rs) (auto split: option.splits)

lemma max_index_row_Some:
  "max_index_row rs = Some r \<Longrightarrow>
     r \<in> set rs \<and> (\<forall>q \<in> set rs. lr_tree_index q \<le> lr_tree_index r)"
proof (induction rs arbitrary: r)
  case (Cons a rs)
  then show ?case
    by (cases "max_index_row rs") (fastforce split: if_splits)+
qed simp

lemma dense_log_nth: "dense_log tbl \<Longrightarrow> i < length tbl \<Longrightarrow> lr_tree_index (tbl ! i) = int i"
  unfolding dense_log_def by (metis (no_types, lifting) add_0 length_map nth_map nth_upt diff_zero length_upt)

lemma dense_log_next: "dense_log tbl \<Longrightarrow> next_tree_index tbl = int (length tbl)"
proof (cases "max_index_row tbl")
  case (Some r)
  assume d: "dense_log tbl"
  from Some have "r \<in> set tbl" and mx: "\<forall>q \<in> set tbl. lr_tree_index q \<le> lr_tree_index r"
    by (auto dest: max_index_row_Some)
  then obtain i where i: "i < length tbl" "r = tbl ! i" by (auto simp: in_set_conv_nth)
  with d mx have "lr_tree_index (tbl ! (length tbl - 1)) \<le> int i"
    by (metis dense_log_nth diff_less length_greater_0_conv less_nat_zero_code list.size(3)
        nth_mem zero_less_one)
  with i d have "i = length tbl - 1" using dense_log_nth [OF d, of "length tbl - 1"] by auto
  with Some i d show ?thesis by (simp add: next_tree_index_def dense_log_nth)
qed (simp add: next_tree_index_def)

lemma dense_log_append:
  "dense_log tbl \<Longrightarrow> lr_tree_index r = int (length tbl) \<Longrightarrow> dense_log (tbl @ [r])"
  by (simp add: dense_log_def)

lemma dense_log_leaves: "dense_log tbl \<Longrightarrow> select_all_leaves tbl = map lr_leaf_hash tbl"
proof -
  assume "dense_log tbl"
  then have "sorted (map lr_tree_index tbl)"
    by (simp add: dense_log_def sorted_map)
  then show ?thesis by (simp add: select_all_leaves_def sort_key_id_if_sorted)
qed

lemma select_latest_Some:
  assumes "dense_log tbl" and "select_latest tbl d kind = Some (i, h)"
  shows "\<exists>j < length tbl. i = int j \<and> lr_leaf_hash (tbl ! j) = h \<and>
           lr_device_id (tbl ! j) = d \<and> lr_leaf_kind (tbl ! j) = kind \<and>
           (\<forall>m < length tbl. j < m \<longrightarrow>
              \<not> (lr_device_id (tbl ! m) = d \<and> lr_leaf_kind (tbl ! m) = kind))"
proof -
  let ?f = "\<lambda>r. lr_device_id r = d \<and> lr_leaf_kind r = kind"
  from assms(2) obtain r where "max_index_row (filter ?f tbl) = Some r"
    and r: "i = lr_tree_index r" "h = lr_leaf_hash r"
    by (auto simp: select_latest_def)
  then have "r \<in> set tbl" "?f r" and mx: "\<And>q. q \<in> set tbl \<Longrightarrow> ?f q \<Longrightarrow> lr_tree_index q \<le> lr_tree_index r"
    by (auto dest: max_index_row_Some)
  then obtain j where j: "j < length tbl" "r = tbl ! j" by (auto simp: in_set_conv_nth)
  moreover have "\<not> ?f (tbl ! m)" if "m < length tbl" "j < m" for m
    using mx [of "tbl ! m"] that j dense_log_nth [OF assms(1)] by force
  ultimately show ?thesis
    using r \<open>?f r\<close> dense_log_nth [OF assms(1) j(1)] by auto
qed

lemma insert_leaf_cases:
  "insert_leaf fails tbl d kind h = (tbl', res) \<Longrightarrow>
     (\<exists>e. res = Err e \<and> tbl' = tbl) \<or>
     res = Ok (nat (next_tree_index tbl)) \<and>
     tbl' = tbl @ [\<lparr>lr_device_id = d, lr_leaf_kind = kind, lr_leaf_hash = h,
                    lr_tree_index = next_tree_index tbl\<rparr>]"
  by (auto simp: insert_leaf_def Let_def split: if_splits)

lemma db_ensure_leaf_cases:
  assumes "db_ensure_leaf fails tbl d kind h = (tbl', res)"
  obtains (failed) e where "res = Err e" "tbl' = tbl"
  | (present) i where "select_latest tbl d kind = Some (i, h)" "res = Ok (nat i)" "tbl' = tbl"
  | (appended) "\<And>i. select_latest tbl d kind \<noteq> Some (i, h)" "res = Ok (nat (next_tree_index tbl))"
      "tbl' = tbl @ [\<lparr>lr_device_id = d, lr_leaf_kind = kind, lr_leaf_hash = h,
                      lr_tree_index = next_tree_index tbl\<rparr>]"
  using assms
  by (fastforce simp: db_ensure_leaf_def split: if_splits option.splits prod.splits
      dest: insert_leaf_cases)

lemma db_ensure_leaf_dense:
  assumes "dense_log tbl" and "db_ensure_leaf fails tbl d kind h = (tbl', res)"
  shows "dense_log tbl'"
  using assms(2)
  by (cases rule: db_ensure_leaf_cases)
    (use assms(1) in \<open>auto intro!: dense_log_append simp: dense_log_next\<close>)

lemma db_ensure_leaf_index:
  assumes d: "dense_log tbl" and e: "db_ensure_leaf fails tbl dev kind h = (tbl', Ok i)"
  shows "i < length tbl' \<and> lr_leaf_hash (tbl' ! i) = h \<and> lr_device_id (tbl' ! i) = dev \<and>
         lr_leaf_kind (tbl' ! i) = kind"
  using e
proof (cases rule: db_ensure_leaf_cases)
  case (present j)
  with select_latest_Some [OF d present(1)] show ?thesis by auto
next
  case appended
  with d show ?thesis by (auto simp: dense_log_next nth_append)
qed simp

lemma db_ensure_leaf_appends:
  assumes "db_ensure_leaf fails tbl d kind h = (tbl', res)"
  shows "\<exists>rows. tbl' = tbl @ rows \<and> length rows \<le> 1"
  using assms by (cases rule: db_ensure_leaf_cases) auto

section \<open>The log as the proof builder sees it\<close>

text \<open>
  What the proof builder relies on: an append returns a position at which the leaf stands, and no
  later append moves a leaf. \<open>'f\<close> says how one call of the store can fail.
\<close>

locale leaf_log =
  fixes ensure :: "'f \<Rightarrow> 's \<Rightarrow> string \<Rightarrow> int \<Rightarrow> bytes \<Rightarrow> 's \<times> (kt_error, nat) result"
    and leaves :: "'s \<Rightarrow> bytes list"
    and log_inv :: "'s \<Rightarrow> bool"
  assumes ensure_inv: "log_inv s \<Longrightarrow> ensure f s d k h = (s', r) \<Longrightarrow> log_inv s'"
    and ensure_at: "log_inv s \<Longrightarrow> ensure f s d k h = (s', Ok i) \<Longrightarrow>
          i < length (leaves s') \<and> leaves s' ! i = h"
    and ensure_appends: "log_inv s \<Longrightarrow> ensure f s d k h = (s', r) \<Longrightarrow>
          \<exists>ys. leaves s' = leaves s @ ys"
begin

lemma position_kept:
  assumes "log_inv s" and "ensure f s d k h = (s', r)" and "i < length (leaves s)"
  shows "i < length (leaves s') \<and> leaves s' ! i = leaves s ! i"
  using ensure_appends [OF assms(1,2)] assms(3) by (auto simp: nth_append)

lemma two_leaves:
  assumes "log_inv s" and "ensure f s d k h = (s1, Ok i)" and "ensure g s1 d' k' h' = (s2, Ok j)"
  shows "i < length (leaves s2) \<and> leaves s2 ! i = h \<and> j < length (leaves s2) \<and> leaves s2 ! j = h'"
proof -
  have inv1: "log_inv s1" by (rule ensure_inv [OF assms(1,2)])
  show ?thesis
    using ensure_at [OF assms(1,2)] ensure_at [OF inv1 assms(3)] position_kept [OF inv1 assms(3)]
    by auto
qed

end

interpretation kt: leaf_log db_ensure_leaf select_all_leaves dense_log
proof
  fix f s d k h s' r
  assume inv: "dense_log s" and e: "db_ensure_leaf f s d k h = (s', r)"
  show inv': "dense_log s'" by (rule db_ensure_leaf_dense [OF inv e])
  show "\<exists>ys. select_all_leaves s' = select_all_leaves s @ ys"
    using db_ensure_leaf_appends [OF e] by (auto simp: dense_log_leaves inv inv')
next
  fix f s d k h s' i
  assume inv: "dense_log s" and e: "db_ensure_leaf f s d k h = (s', Ok i)"
  show "i < length (select_all_leaves s') \<and> select_all_leaves s' ! i = h"
    using db_ensure_leaf_index [OF inv e] db_ensure_leaf_dense [OF inv e]
    by (auto simp: dense_log_leaves)
qed

lemma generate_verifies:
  assumes "generate_inclusion_proof sha leaves i = Some (p, root)"
  shows "root = merkle_root sha leaves \<and> verify_inclusion sha (leaves ! i) p i (length leaves) root"
  using assms reconstruct_inner [of i leaves sha]
  by (auto simp: generate_inclusion_proof_def verify_inclusion_def split: if_splits)

lemma snapshot_OkD:
  assumes "proofs_from_snapshot sha P T leaves i hyb seed signer now = Ok ps"
  shows "(\<exists>p. generate_inclusion_proof sha leaves i = Some (p, merkle_root sha leaves) \<and>
            kp_leaf_index (ks_identity ps) = i \<and> kp_proof_hashes (ks_identity ps) = p) \<and>
         kp_root_hash (ks_identity ps) = merkle_root sha leaves \<and>
         kp_tree_size (ks_identity ps) = of_nat (length leaves) \<and>
         (case hyb of None \<Rightarrow> ks_hybrid ps = None
          | Some j \<Rightarrow> (\<exists>q. generate_inclusion_proof sha leaves j = Some (q, merkle_root sha leaves) \<and>
              ks_hybrid ps = Some ((ks_identity ps)\<lparr>kp_leaf_index := j, kp_proof_hashes := q\<rparr>))) \<and>
         (\<forall>h. ks_head ps = Some h \<longrightarrow>
            sh_root_hash h = merkle_root sha leaves \<and> sh_tree_size h = of_nat (length leaves))"
  using assms
  by (auto simp: proofs_from_snapshot_def sign_tree_head_def Let_def generate_inclusion_proof_def
      split: option.splits if_splits sum.splits)

section \<open>Claims\<close>

text \<open>
  Every leaf of a log has an inclusion proof that verifies: for each position of a non-empty
  log the proof generator answers, with the log's Merkle root, and the verifier accepts the proof
  for the leaf at that position.
\<close>

theorem inclusion_complete:
  assumes "i < length leaves"
  shows "\<exists>p. generate_inclusion_proof sha leaves i = Some (p, merkle_root sha leaves) \<and>
           verify_inclusion sha (leaves ! i) p i (length leaves) (merkle_root sha leaves)"
  using assms reconstruct_inner [OF assms, of sha]
  by (auto simp: generate_inclusion_proof_def verify_inclusion_def)

definition sample_sha :: "bytes \<Rightarrow> bytes" where
  "sample_sha x = replicate 31 0 @ [sum_list x]"



text \<open>
  Proofs stay small: a log of at most \<open>2 ^ d\<close> leaves has proofs of at most \<open>d\<close> hashes.
\<close>

theorem inclusion_proof_small:
  assumes "generate_inclusion_proof sha leaves i = Some (p, root)" and "length leaves \<le> 2 ^ d"
  shows "length p \<le> d"
  using assms proof_length_log [of leaves d sha i]
  by (auto simp: generate_inclusion_proof_def split: if_splits)

text \<open>
  C39. The log is append-only and its positions never move: ensuring a leaf keeps the table
  dense, leaves every earlier row in place and adds at most one, and the position it answers is
  the position of that device's leaf of that kind in the tree order the proofs use.
\<close>

theorem ensure_leaf_appends:
  assumes "dense_log tbl" and "db_ensure_leaf fails tbl d kind h = (tbl', res)"
  shows "dense_log tbl' \<and> (\<exists>rows. tbl' = tbl @ rows \<and> length rows \<le> 1) \<and>
         (\<forall>i. res = Ok i \<longrightarrow> i < length tbl' \<and> select_all_leaves tbl' ! i = h \<and>
                lr_device_id (tbl' ! i) = d \<and> lr_leaf_kind (tbl' ! i) = kind)"
  using kt.ensure_inv [OF assms] db_ensure_leaf_appends [OF assms(2)]
    kt.ensure_at [OF assms(1)] db_ensure_leaf_index [OF assms(1)] assms(2) by blast

definition no_fault :: "kt_error \<Rightarrow> bool" where
  "no_fault e = False"

theorem ensure_leaf_appends_witness:
  "\<exists>rows. fst (db_ensure_leaf no_fault [] ''d'' 0 [1]) = [] @ rows \<and> length rows \<le> 1"
  using ensure_leaf_appends [of "[]" no_fault "''d''" 0 "[1]"]
  by (cases "db_ensure_leaf no_fault [] ''d'' 0 [1]") (auto simp: dense_log_def)

text \<open>
  Ensuring is idempotent until the key changes: a second call with the same key answers the
  same position and adds nothing, and a call with another key appends a new leaf after every
  earlier one, so a rotation is recorded and the old leaf stays.
\<close>

theorem ensure_leaf_idempotent:
  assumes "dense_log tbl" and "db_ensure_leaf no_fault tbl d kind h = (tbl', Ok i)"
  shows "db_ensure_leaf no_fault tbl' d kind h = (tbl', Ok i) \<and>
         (h' \<noteq> h \<longrightarrow> (\<exists>row. db_ensure_leaf no_fault tbl' d kind h' = (tbl' @ [row], Ok (length tbl')) \<and>
            lr_leaf_hash row = h' \<and> lr_device_id row = d))"
proof -
  have latest: "select_latest tbl' d kind = Some (int i, h)"
    using assms(2)
  proof (cases rule: db_ensure_leaf_cases)
    case (present j)
    with select_latest_Some [OF assms(1) present(1)] show ?thesis by auto
  next
    case appended
    define rows where "rows = filter (\<lambda>r. lr_device_id r = d \<and> lr_leaf_kind r = kind) tbl'"
    let ?r = "\<lparr>lr_device_id = d, lr_leaf_kind = kind, lr_leaf_hash = h,
               lr_tree_index = int (length tbl)\<rparr>"
    have r: "?r \<in> set rows" and i: "i = length tbl" and tbl': "tbl' = tbl @ [?r]"
      using appended assms(1) by (auto simp: rows_def dense_log_next)
    from r obtain q where q: "max_index_row rows = Some q" by (cases "max_index_row rows") auto
    then have "q \<in> set tbl'" and ge: "int (length tbl) \<le> lr_tree_index q"
      using max_index_row_Some [OF q] r by (auto simp: rows_def)
    then have "q = ?r"
      using dense_log_nth [OF assms(1)] by (fastforce simp: tbl' in_set_conv_nth nth_append)
    with q i show ?thesis by (simp add: select_latest_def rows_def)
  qed simp
  have "dense_log tbl'" by (rule db_ensure_leaf_dense [OF assms])
  with latest show ?thesis
    by (simp add: db_ensure_leaf_def insert_leaf_def no_fault_def dense_log_next)
qed

text \<open>
  C37. What a bundle carries verifies. On a dense log, when the
  proofs of a device are built, the identity proof verifies for the device's identity leaf, the
  hybrid proof (present exactly when the device has a hybrid key) for its hybrid leaf, both under
  one root and one tree size, which are those of the resulting table and of the signed head.
\<close>

theorem bundle_proofs_verify:
  assumes "dense_log tbl"
    and "build_kt_proofs sha P T f1 f2 f3 tbl d key hkey seed signer now = (tbl', Ok ps)"
  shows "let root = merkle_root sha (select_all_leaves tbl'); n = length tbl';
             ident = ks_identity ps
         in dense_log tbl' \<and> kp_root_hash ident = root \<and> kp_tree_size ident = of_nat n \<and>
            verify_inclusion sha (leaf_hash sha d key) (kp_proof_hashes ident)
              (kp_leaf_index ident) n root \<and>
            (case hkey of None \<Rightarrow> ks_hybrid ps = None
             | Some hk \<Rightarrow> (\<exists>hp. ks_hybrid ps = Some hp \<and> kp_root_hash hp = root \<and>
                 kp_tree_size hp = of_nat n \<and>
                 kp_tree_head_signature hp = kp_tree_head_signature ident \<and>
                 verify_inclusion sha (hybrid_leaf_hash sha d hk) (kp_proof_hashes hp)
                   (kp_leaf_index hp) n root)) \<and>
            (\<forall>h. ks_head ps = Some h \<longrightarrow> sh_root_hash h = root \<and> sh_tree_size h = of_nat n)"
proof -
  let ?L = "select_all_leaves tbl'"
  from assms(2) obtain t1 i hyb where
    e1: "db_ensure_leaf f1 tbl d LEAF_KIND_IDENTITY (leaf_hash sha d key) = (t1, Ok i)" and
    e2: "case hkey of None \<Rightarrow> tbl' = t1 \<and> hyb = None
         | Some hk \<Rightarrow> \<exists>j. hyb = Some j \<and>
             db_ensure_leaf f2 t1 d LEAF_KIND_HYBRID (hybrid_leaf_hash sha d hk) = (tbl', Ok j)" and
    all: "proofs_from_snapshot sha P T ?L i hyb seed signer now = Ok ps"
    by (auto simp: build_kt_proofs_def db_get_all_leaves_def Let_def
        split: prod.splits sum.splits option.splits if_splits)
  have inv1: "dense_log t1" by (rule kt.ensure_inv [OF assms(1) e1])
  have inv: "dense_log tbl'" and at_i: "?L ! i = leaf_hash sha d key"
    and at_j: "\<And>hk j. hkey = Some hk \<Longrightarrow> hyb = Some j \<Longrightarrow> ?L ! j = hybrid_leaf_hash sha d hk"
    using e2 inv1 kt.ensure_at [OF assms(1) e1] kt.ensure_inv [OF inv1]
      kt.two_leaves [OF assms(1) e1]
    by (auto split: option.splits)
  have n: "length ?L = length tbl'" by (simp add: select_all_leaves_def)
  note ok = snapshot_OkD [OF all]
  show ?thesis
  proof (cases hkey)
    case None
    with e2 ok inv at_i n show ?thesis by (auto simp: Let_def dest: generate_verifies)
  next
    case (Some hk)
    with e2 obtain j where "hyb = Some j" by auto
    with Some ok inv at_i at_j n show ?thesis
      by (auto simp: Let_def dest!: generate_verifies)
  qed
qed

theorem bundle_proofs_verify_witness:
  "\<exists>ps. snd (build_kt_proofs sample_sha sample_prims sample_trust no_fault no_fault no_fault []
          ''d'' [7] None [] None 0) = Ok ps \<and>
        verify_inclusion sample_sha (leaf_hash sample_sha ''d'' [7])
          (kp_proof_hashes (ks_identity ps)) (kp_leaf_index (ks_identity ps)) 1
          (kp_root_hash (ks_identity ps))"
proof -
  let ?row = "\<lparr>lr_device_id = ''d'', lr_leaf_kind = 0,
               lr_leaf_hash = leaf_hash sample_sha ''d'' [7], lr_tree_index = 0\<rparr>"
  have "\<exists>ps. build_kt_proofs sample_sha sample_prims sample_trust no_fault no_fault no_fault []
          ''d'' [7] None [] None 0 = ([?row], Ok ps)"
    by (simp add: build_kt_proofs_def db_ensure_leaf_def select_latest_def insert_leaf_def
        next_tree_index_def no_fault_def LEAF_KIND_IDENTITY_def db_get_all_leaves_def
        select_all_leaves_def proofs_from_snapshot_def generate_inclusion_proof_def Let_def)
      (simp add: leaf_hash_def sample_sha_def)
  then obtain ps where ps: "build_kt_proofs sample_sha sample_prims sample_trust no_fault no_fault
      no_fault [] ''d'' [7] None [] None 0 = ([?row], Ok ps)" by blast
  from bundle_proofs_verify [OF _ ps] show ?thesis by (simp add: ps Let_def dense_log_def)
qed

end
