(* ===== verification/Envelope.thy ===== *)
theory Envelope
  imports Prelude
begin

text \<open>
  The stored message envelope of \<open>crates/construct-message/src/types.rs\<close>, the delivery
  identity of an envelope (\<open>crates/construct-queue/src/dedup.rs\<close>), and what the messaging
  service makes of a stored envelope for a client: \<open>convert_envelope_to_proto\<close> of
  \<open>messaging-service/src/envelope.rs\<close>, \<open>build_receipt_response\<close> of
  \<open>receipts.rs\<close>, and the routing decisions of \<open>core.rs\<close>.

  SHA-256 followed by \<open>hex::encode\<close> is the parameter \<open>h\<close>; \<open>serde_json\<close> is a
  parameter that reads a receipt payload.
\<close>

section \<open>Stored envelopes\<close>

datatype message_type =
    DirectMessage | ControlMessage | MLSMessage | MLSKeyPackage | MLSWelcome | MLSCommit
  | MLSProposal | FederatedMessage | SealedSender | Receipt | SenderSync

record message_envelope =
  message_id :: string
  sender_id :: string
  recipient_id :: string
  timestamp :: int
  message_type :: message_type
  ephemeral_public_key :: "string option"
  message_number :: "u32 option"
  mls_payload :: "string option"
  group_id :: "string option"
  encrypted_payload :: string
  content_hash :: string
  crypto_suite_id :: "16 word"
  origin_server :: "string option"
  federated :: bool
  server_signature :: "string option"
  is_sealed_sender :: bool
  sealed_inner :: "string option"
  max_queue_len :: "int option"
  proto_content_type :: "int option"
  recipient_device :: "string option"

section \<open>Delivery identity\<close>

definition dedup_field :: "string \<Rightarrow> bytes" where
  "dedup_field field = u64_be_bytes (word_of_nat (length field)) @ as_bytes field"

definition dedup_preimage :: "string \<Rightarrow> string \<Rightarrow> string option \<Rightarrow> string \<Rightarrow> bytes" where
  "dedup_preimage sender recipient device mid =
     concat (map dedup_field
       [sender, recipient, (case device of None \<Rightarrow> [] | Some d \<Rightarrow> d), mid])"

definition dedup_key_new ::
    "(bytes \<Rightarrow> string) \<Rightarrow> string \<Rightarrow> string \<Rightarrow> string option \<Rightarrow> string \<Rightarrow> string" where
  "dedup_key_new h sender recipient device mid =
     ''msg:dedup:v2:'' @ h (dedup_preimage sender recipient device mid)"

definition for_envelope :: "(bytes \<Rightarrow> string) \<Rightarrow> message_envelope \<Rightarrow> string" where
  "for_envelope h e =
     dedup_key_new h (sender_id e) (recipient_id e) (recipient_device e) (message_id e)"

text \<open>
  Two envelopes are one delivery when their routing fields and message id agree, an absent
  device counting as the empty one. A digest collision is a pair of inputs the digest maps to
  one value.
\<close>

definition device_name :: "string option \<Rightarrow> string" where
  "device_name d = (case d of None \<Rightarrow> [] | Some n \<Rightarrow> n)"

definition same_delivery :: "message_envelope \<Rightarrow> message_envelope \<Rightarrow> bool" where
  "same_delivery e f \<longleftrightarrow>
     sender_id e = sender_id f \<and> recipient_id e = recipient_id f \<and>
     device_name (recipient_device e) = device_name (recipient_device f) \<and>
     message_id e = message_id f"

definition digest_collision :: "(bytes \<Rightarrow> string) \<Rightarrow> bool" where
  "digest_collision h \<longleftrightarrow> (\<exists>x y. x \<noteq> y \<and> h x = h y)"

text \<open>A string a Rust process can hold: its length fits a 64-bit \<open>usize\<close>.\<close>

definition fits_usize :: "string \<Rightarrow> bool" where
  "fits_usize s \<longleftrightarrow> length s < 2 ^ 64"

definition envelope_fits :: "message_envelope \<Rightarrow> bool" where
  "envelope_fits e \<longleftrightarrow> fits_usize (sender_id e) \<and> fits_usize (recipient_id e) \<and>
     fits_usize (device_name (recipient_device e)) \<and> fits_usize (message_id e)"

lemma dedup_field_prefix:
  assumes "dedup_field a @ xs = dedup_field b @ ys"
    and "fits_usize a" "fits_usize b"
  shows "a = b \<and> xs = ys"
proof -
  from assms(1) have heads: "u64_be_bytes (word_of_nat (length a)) = u64_be_bytes (word_of_nat (length b))"
      and tails: "as_bytes a @ xs = as_bytes b @ ys"
    by (simp_all add: dedup_field_def append_eq_append_conv)
  from heads have "(word_of_nat (length a) :: u64) = word_of_nat (length b)" by simp
  then have "unat (word_of_nat (length a) :: u64) = unat (word_of_nat (length b) :: u64)" by simp
  with assms(2,3) have "length a = length b"
    by (simp add: fits_usize_def unsigned_of_nat take_bit_eq_mod)
  with tails show ?thesis by (simp add: append_eq_append_conv)
qed

lemma dedup_preimage_inj:
  assumes "dedup_preimage s r d m = dedup_preimage s' r' d' m'"
    and "fits_usize s" "fits_usize r" "fits_usize (device_name d)" "fits_usize m"
    and "fits_usize s'" "fits_usize r'" "fits_usize (device_name d')" "fits_usize m'"
  shows "s = s' \<and> r = r' \<and> device_name d = device_name d' \<and> m = m'"
proof -
  have eq: "dedup_field s @ dedup_field r @ dedup_field (device_name d) @ dedup_field m @ []
      = dedup_field s' @ dedup_field r' @ dedup_field (device_name d') @ dedup_field m' @ []"
    using assms(1) by (simp add: dedup_preimage_def device_name_def)
  note 1 = dedup_field_prefix [OF eq assms(2,6)]
  note 2 = dedup_field_prefix [OF 1 [THEN conjunct2] assms(3,7)]
  note 3 = dedup_field_prefix [OF 2 [THEN conjunct2] assms(4,8)]
  note 4 = dedup_field_prefix [OF 3 [THEN conjunct2] assms(5,9)]
  show ?thesis using 1 2 3 4 by simp
qed

lemma for_envelope_separates:
  assumes "for_envelope h e = for_envelope h f" "envelope_fits e" "envelope_fits f"
  shows "same_delivery e f \<or> digest_collision h"
proof (cases "dedup_preimage (sender_id e) (recipient_id e) (recipient_device e) (message_id e)
     = dedup_preimage (sender_id f) (recipient_id f) (recipient_device f) (message_id f)")
  case True
  with assms(2,3) show ?thesis
    using dedup_preimage_inj unfolding envelope_fits_def same_delivery_def by blast
next
  case False
  with assms(1) show ?thesis
    by (auto simp: for_envelope_def dedup_key_new_def digest_collision_def)
qed

lemma for_envelope_cong:
  "same_delivery e f \<Longrightarrow> for_envelope h e = for_envelope h f"
  by (simp add: same_delivery_def for_envelope_def dedup_key_new_def dedup_preimage_def
      device_name_def)

text \<open>
  C27. The deduplication key of an envelope names one delivery: two envelopes have the same key
  exactly when sender, recipient, recipient device (absent and empty alike) and message id all
  agree, up to a collision of the digest; no choice of field contents moves a field boundary.
\<close>

theorem dedup_key_exact:
  assumes "envelope_fits e" "envelope_fits f"
  shows "(same_delivery e f \<longrightarrow> for_envelope h e = for_envelope h f) \<and>
    (for_envelope h e = for_envelope h f \<longrightarrow> same_delivery e f \<or> digest_collision h)"
  using assms for_envelope_cong for_envelope_separates by blast

definition sample_envelope :: message_envelope where
  "sample_envelope =
     \<lparr> message_id = ''m'', sender_id = ''alice'', recipient_id = ''bob'', timestamp = 0,
       message_type = DirectMessage, ephemeral_public_key = None, message_number = None,
       mls_payload = None, group_id = None, encrypted_payload = ''ct'', content_hash = [],
       crypto_suite_id = 0, origin_server = None, federated = False, server_signature = None,
       is_sealed_sender = False, sealed_inner = None, max_queue_len = None,
       proto_content_type = None, recipient_device = None \<rparr>"

text \<open>A digest without collisions: one character per byte.\<close>

definition sample_digest :: "bytes \<Rightarrow> string" where
  "sample_digest = map (\<lambda>b. char_of (unat b))"

theorem dedup_key_exact_witness:
  "for_envelope sample_digest sample_envelope
     = for_envelope sample_digest (sample_envelope\<lparr>recipient_device := Some []\<rparr>)
   \<and> envelope_fits sample_envelope"
proof -
  have fits: "envelope_fits sample_envelope"
      "envelope_fits (sample_envelope\<lparr>recipient_device := Some []\<rparr>)"
    by (simp_all add: envelope_fits_def fits_usize_def sample_envelope_def device_name_def)
  moreover have "same_delivery sample_envelope (sample_envelope\<lparr>recipient_device := Some []\<rparr>)"
    by (simp add: same_delivery_def sample_envelope_def device_name_def)
  ultimately show ?thesis using dedup_key_exact [OF fits, of sample_digest] by blast
qed

section \<open>Responses to the client\<close>

record user_ref =
  user_id_of :: string
  domain_of :: "string option"
  display_name_of :: "string option"

record sealed_envelope =
  recipient_server :: string
  sealed_bytes :: string
  forwarding_token :: string
  sealed_timestamp :: int

record proto_envelope =
  p_sender :: "user_ref option"
  p_sender_device :: "string option"
  p_recipient :: "user_ref option"
  p_recipient_device :: "string option"
  p_content_type :: int
  p_message_id :: "string option"
  p_timestamp :: int
  p_ttl :: int
  p_priority :: int
  p_encrypted_payload :: string
  p_conversation_id :: string
  p_sealed_sender :: "sealed_envelope option"

text \<open>The numbers of \<open>enum ContentType\<close> in \<open>shared/proto/core/envelope.proto\<close>.\<close>

abbreviation (input) E2eeSignal :: int where "E2eeSignal \<equiv> 1"
abbreviation (input) SessionReset :: int where "SessionReset \<equiv> 21"
abbreviation (input) KeySync :: int where "KeySync \<equiv> 22"
abbreviation (input) MessagePriority_Normal :: int where "MessagePriority_Normal \<equiv> 0"

definition content_type_values :: "int list" where
  "content_type_values =
     [0, 1, 2, 10, 11, 12, 13, 14, 20, 21, 22, 23, 24, 25, 26, 27, 28, 29, 30]"

definition content_type_try_from :: "int \<Rightarrow> int option" where
  "content_type_try_from n = (if n \<in> set content_type_values then Some n else None)"

text \<open>
  The content type shown to the client: the sender's own when it was stored and is known, else
  inferred from the message type. A payload that is not UTF-8 matches none of the labels, so
  comparing the bytes is the same test.
\<close>

definition egress_content_type :: "message_envelope \<Rightarrow> int" where
  "egress_content_type e =
     (case proto_content_type e of
        Some ct \<Rightarrow> (case content_type_try_from ct of Some n \<Rightarrow> n | None \<Rightarrow> E2eeSignal)
      | None \<Rightarrow>
          (if message_type e = ControlMessage then
             if encrypted_payload e = ''SESSION_RESET'' \<or> encrypted_payload e = ''END_SESSION''
             then SessionReset
             else if encrypted_payload e = ''KEY_SYNC'' then KeySync
             else E2eeSignal
           else E2eeSignal))"

definition egress_payload :: "message_envelope \<Rightarrow> string" where
  "egress_payload e =
     (if egress_content_type e = SessionReset \<or> egress_content_type e = KeySync then []
      else encrypted_payload e)"

definition plain_user :: "string \<Rightarrow> user_ref" where
  "plain_user u = \<lparr>user_id_of = u, domain_of = None, display_name_of = None\<rparr>"

definition convert_envelope_to_proto ::
    "message_envelope \<Rightarrow> (string, proto_envelope) result" where
  "convert_envelope_to_proto e =
     (if is_sealed_sender e then
        Ok \<lparr> p_sender = None, p_sender_device = None,
             p_recipient = Some (plain_user (recipient_id e)), p_recipient_device = None,
             p_content_type = E2eeSignal, p_message_id = Some (message_id e),
             p_timestamp = timestamp e, p_ttl = 0, p_priority = MessagePriority_Normal,
             p_encrypted_payload = [], p_conversation_id = [],
             p_sealed_sender = Some \<lparr> recipient_server = [],
               sealed_bytes = (case sealed_inner e of None \<Rightarrow> [] | Some b \<Rightarrow> b),
               forwarding_token = [], sealed_timestamp = 0 \<rparr> \<rparr>
      else
        Ok \<lparr> p_sender = Some (plain_user (sender_id e)), p_sender_device = None,
             p_recipient = Some (plain_user (recipient_id e)), p_recipient_device = None,
             p_content_type = egress_content_type e, p_message_id = Some (message_id e),
             p_timestamp = timestamp e, p_ttl = 0, p_priority = MessagePriority_Normal,
             p_encrypted_payload = egress_payload e, p_conversation_id = [],
             p_sealed_sender = None \<rparr>)"

record receipt_payload =
  rp_message_ids :: "string list"
  rp_status :: string
  rp_timestamp :: int

record direct_receipt =
  dr_message_ids :: "string list"
  dr_status :: int
  dr_timestamp :: int
  dr_sender_device_id :: string
  dr_recipient_user_id :: string

datatype stream_payload = PMessage proto_envelope | PReceipt direct_receipt

record stream_response =
  response :: stream_payload
  stream_cursor :: "string option"

type_synonym json_reader = "string \<Rightarrow> (string, receipt_payload) result"

definition build_receipt_response ::
    "json_reader \<Rightarrow> message_envelope \<Rightarrow> (string, stream_response) result" where
  "build_receipt_response json e =
     (case json (encrypted_payload e) of
        Err x \<Rightarrow> Err (''Invalid receipt payload: '' @ x)
      | Ok p \<Rightarrow>
          let status = (if rp_status p = ''read'' then 2 else if rp_status p = ''failed'' then 3
                        else 1)
          in Ok \<lparr> response = PReceipt \<lparr> dr_message_ids = rp_message_ids p, dr_status = status,
                    dr_timestamp = rp_timestamp p, dr_sender_device_id = [],
                    dr_recipient_user_id = sender_id e \<rparr>,
                  stream_cursor = None \<rparr>)"

lemma convert_total: "\<exists>p. convert_envelope_to_proto e = Ok p"
  by (simp add: convert_envelope_to_proto_def)



section \<open>Routing\<close>

definition normalize_device_id :: "string \<Rightarrow> string option" where
  "normalize_device_id d = (if d \<noteq> [] then Some d else None)"

definition named_recipient_device :: "string option \<Rightarrow> string option" where
  "named_recipient_device d = (case d of None \<Rightarrow> None | Some i \<Rightarrow> normalize_device_id i)"

definition select_target_devices ::
    "string list \<Rightarrow> string option \<Rightarrow> string list \<times> string" where
  "select_target_devices active named =
     (case named of
        None \<Rightarrow> (active, ''unnamed'')
      | Some n \<Rightarrow> if n = [] then (active, ''unnamed'')
                  else if n \<in> set active then ([n], ''named'')
                  else (active, ''unknown_device''))"

definition should_send_wake_push :: "bool \<Rightarrow> bool" where
  "should_send_wake_push online = (\<not> online)"

definition push_announces :: "string \<Rightarrow> string \<Rightarrow> bool" where
  "push_announces sender recipient \<longleftrightarrow>
     sender = [] \<or> \<not> eq_ignore_ascii_case sender recipient"

lemma select_targets_known:
  "set (fst (select_target_devices active named)) \<subseteq> set active"
  by (auto simp: select_target_devices_def split: option.splits)

lemma select_targets_nonempty:
  "active \<noteq> [] \<Longrightarrow> fst (select_target_devices active named) \<noteq> []"
  by (auto simp: select_target_devices_def split: option.splits)

end
