(* ===== verification/Mailbox.thy ===== *)
theory Mailbox
  imports Envelope "HOL-Library.Multiset" "HOL-Library.AList" "HOL-Library.Product_Lexorder"
begin

text \<open>
  The mailbox of \<open>crates/construct-queue\<close>: Redis stream ids and their comparison, the page
  read of a device and of the legacy user stream (\<open>delivery.rs\<close>), the merge of the two
  (\<open>merge_mailbox_pages\<close> of \<open>lib.rs\<close>) and the one-cursor resume position.

  Redis is reached through parameters: \<open>xread\<close> is the decoded answer of
  \<open>XREAD COUNT n STREAMS key id\<close>. MessagePack decoding is the parameter \<open>decode\<close>. The
  iteration order of a Rust \<open>HashMap\<close> is unspecified, so it is the parameter
  \<open>shuffle\<close>, a permutation.
\<close>

section \<open>Stream ids\<close>

datatype ordering = Less | Equal | Greater

definition cmp_of :: "'a::linorder \<Rightarrow> 'a \<Rightarrow> ordering" where
  "cmp_of a b = (if a < b then Less else if a = b then Equal else Greater)"

text \<open>Byte-wise comparison of strings.\<close>

fun cmp_str :: "string \<Rightarrow> string \<Rightarrow> ordering" where
  "cmp_str [] [] = Equal"
| "cmp_str [] (y # ys) = Less"
| "cmp_str (x # xs) [] = Greater"
| "cmp_str (x # xs) (y # ys) =
     (if (of_char x :: nat) < of_char y then Less
      else if (of_char y :: nat) < of_char x then Greater
      else cmp_str xs ys)"

definition parse_stream_id :: "string \<Rightarrow> (nat \<times> nat) option" where
  "parse_stream_id i =
     (case split_once CHR ''-'' i of
        Some (ts, sq) \<Rightarrow>
          (case (parse_unsigned 64 ts, parse_unsigned 64 sq) of
             (Some t, Some s) \<Rightarrow> Some (t, s) | _ \<Rightarrow> None)
      | None \<Rightarrow> (case parse_unsigned 64 i of Some t \<Rightarrow> Some (t, 0) | None \<Rightarrow> None))"

definition compare_stream_id_watermarks :: "string \<Rightarrow> string \<Rightarrow> ordering" where
  "compare_stream_id_watermarks a b =
     (case (parse_stream_id a, parse_stream_id b) of
        (Some x, Some y) \<Rightarrow> cmp_of x y
      | _ \<Rightarrow> cmp_str a b)"

definition show_stream_id :: "nat \<times> nat \<Rightarrow> string" where
  "show_stream_id p = show_nat (fst p) @ ''-'' @ show_nat (snd p)"

text \<open>
  An id as Redis writes it, and the position it denotes. \<open>0\<close> alone is the start of a stream.
\<close>

definition redis_id :: "string \<Rightarrow> bool" where
  "redis_id i \<longleftrightarrow> i = ''0'' \<or>
     (\<exists>ms sq. ms < 2 ^ 64 \<and> sq < 2 ^ 64 \<and> i = show_stream_id (ms, sq))"

definition pos :: "string \<Rightarrow> nat \<times> nat" where
  "pos i = (case parse_stream_id i of Some p \<Rightarrow> p | None \<Rightarrow> (0, 0))"

section \<open>Sorting and selecting by a comparison\<close>

text \<open>
  \<open>slice::sort_by\<close> is stable; \<open>Iterator::min_by\<close> answers the first minimum and
  \<open>max_by\<close> the last maximum.
\<close>

fun insert_by :: "('a \<Rightarrow> 'a \<Rightarrow> ordering) \<Rightarrow> 'a \<Rightarrow> 'a list \<Rightarrow> 'a list" where
  "insert_by c x [] = [x]"
| "insert_by c x (y # ys) = (if c x y = Greater then y # insert_by c x ys else x # y # ys)"

definition sort_by :: "('a \<Rightarrow> 'a \<Rightarrow> ordering) \<Rightarrow> 'a list \<Rightarrow> 'a list" where
  "sort_by c xs = foldr (insert_by c) xs []"

fun min_by :: "('a \<Rightarrow> 'a \<Rightarrow> ordering) \<Rightarrow> 'a list \<Rightarrow> 'a option" where
  "min_by c [] = None"
| "min_by c (x # xs) = Some (foldl (\<lambda>m y. if c m y = Greater then y else m) x xs)"

fun max_by :: "('a \<Rightarrow> 'a \<Rightarrow> ordering) \<Rightarrow> 'a list \<Rightarrow> 'a option" where
  "max_by c [] = None"
| "max_by c (x # xs) = Some (foldl (\<lambda>m y. if c m y = Greater then m else y) x xs)"

section \<open>The merge of the two streams\<close>

type_synonym entry = "string \<times> message_envelope option"

record mailbox_page =
  entries :: "entry list"
  user_only_ids :: "string list"
  sibling_skipped :: nat
  user_examined_through :: "string option"
  has_more :: bool

record merge_state =
  by_message_id :: "(string \<times> string \<times> message_envelope) list"
  orphans :: "entry list"
  skipped :: nat

definition named_to_sibling :: "string \<Rightarrow> message_envelope \<Rightarrow> bool" where
  "named_to_sibling reader e =
     (case recipient_device e of None \<Rightarrow> False | Some named \<Rightarrow> named \<noteq> reader)"

definition merge_user :: "(bytes \<Rightarrow> string) \<Rightarrow> string \<Rightarrow> entry \<Rightarrow> merge_state \<Rightarrow> merge_state" where
  "merge_user h reader x st =
     (case x of
        (i, Some e) \<Rightarrow>
          if named_to_sibling reader e then st\<lparr>skipped := skipped st + 1\<rparr>
          else st\<lparr>by_message_id := AList.update (for_envelope h e) (i, e) (by_message_id st)\<rparr>
      | (i, None) \<Rightarrow> st\<lparr>orphans := orphans st @ [(i, None)]\<rparr>)"

definition merge_device :: "(bytes \<Rightarrow> string) \<Rightarrow> entry \<Rightarrow> merge_state \<Rightarrow> merge_state" where
  "merge_device h x st =
     (case x of
        (i, Some e) \<Rightarrow>
          st\<lparr>by_message_id := AList.update (for_envelope h e) (i, e) (by_message_id st)\<rparr>
      | (i, None) \<Rightarrow> st\<lparr>orphans := orphans st @ [(i, None)]\<rparr>)"

definition read_end :: "nat \<Rightarrow> entry list \<Rightarrow> string option" where
  "read_end source_limit r =
     (if source_limit \<le> length r \<and> r \<noteq> [] then Some (fst (last r)) else None)"

definition merge_horizon :: "nat \<Rightarrow> entry list \<Rightarrow> entry list \<Rightarrow> string option" where
  "merge_horizon source_limit device_msgs user_msgs =
     min_by compare_stream_id_watermarks
       (List.map_filter (read_end source_limit) [device_msgs, user_msgs])"

definition past_horizon :: "string option \<Rightarrow> string \<Rightarrow> bool" where
  "past_horizon horizon i =
     (case horizon of None \<Rightarrow> False
      | Some hz \<Rightarrow> compare_stream_id_watermarks i hz = Greater)"

definition by_watermark :: "entry \<Rightarrow> entry \<Rightarrow> ordering" where
  "by_watermark a b = compare_stream_id_watermarks (fst a) (fst b)"

definition merge_all ::
    "(bytes \<Rightarrow> string) \<Rightarrow> string \<Rightarrow> entry list \<Rightarrow> entry list \<Rightarrow> merge_state" where
  "merge_all h reader device_msgs user_msgs =
     fold (merge_device h) device_msgs
       (fold (merge_user h reader) user_msgs
          \<lparr>by_message_id = [], orphans = [], skipped = 0\<rparr>)"

definition merge_candidates ::
    "(entry list \<Rightarrow> entry list) \<Rightarrow> merge_state \<Rightarrow> entry list" where
  "merge_candidates shuffle st =
     shuffle (map (\<lambda>(k, i, e). (i, Some e)) (by_message_id st)) @ orphans st"

definition merge_mailbox_pages ::
    "(bytes \<Rightarrow> string) \<Rightarrow> (entry list \<Rightarrow> entry list) \<Rightarrow> entry list \<Rightarrow> entry list \<Rightarrow> nat \<Rightarrow> nat
     \<Rightarrow> string \<Rightarrow> mailbox_page" where
  "merge_mailbox_pages h shuffle device_msgs user_msgs limit source_limit reader =
     (let device_ids = set (List.map_filter (\<lambda>x. map_option (for_envelope h) (snd x)) device_msgs);
          user_last = (if user_msgs = [] then None else Some (fst (last user_msgs)));
          horizon = merge_horizon source_limit device_msgs user_msgs;
          st = merge_all h reader device_msgs user_msgs;
          kept = filter (\<lambda>x. \<not> past_horizon horizon (fst x))
                   (sort_by by_watermark (merge_candidates shuffle st));
          cut_by_count = limit < length kept;
          merged = take limit kept
      in \<lparr> entries = merged,
           user_only_ids = map message_id
             (filter (\<lambda>e. for_envelope h e \<notin> device_ids) (List.map_filter snd merged)),
           sibling_skipped = skipped st,
           user_examined_through =
             (if cut_by_count then None
              else map_option (\<lambda>i. if past_horizon horizon i
                                    then (case horizon of Some hz \<Rightarrow> hz | None \<Rightarrow> i) else i)
                     user_last),
           has_more = cut_by_count \<or> horizon \<noteq> None \<rparr>)"

definition resume_after :: "mailbox_page \<Rightarrow> string option \<Rightarrow> string option" where
  "resume_after page since =
     max_by compare_stream_id_watermarks
       (List.map_filter id
          [if entries page = [] then None else Some (fst (last (entries page))),
           user_examined_through page, since])"

definition user_only :: "mailbox_page \<Rightarrow> nat" where
  "user_only page = length (user_only_ids page)"

section \<open>Lemmas on ids and sorting\<close>

lemma dash_not_in_show_nat [simp]: "CHR ''-'' \<notin> set (show_nat n)"
proof
  assume "CHR ''-'' \<in> set (show_nat n)"
  then obtain d where "d < 10" "CHR ''-'' = digit_char d" using show_nat_digits by blast
  then have "digit_val (CHR ''-'') = Some d" by simp
  then show False by (simp add: digit_val_def)
qed

lemma parse_show_stream_id [simp]:
  "fst p < 2 ^ 64 \<Longrightarrow> snd p < 2 ^ 64 \<Longrightarrow> parse_stream_id (show_stream_id p) = Some p"
  by (simp add: parse_stream_id_def show_stream_id_def codec_simps)

lemma parse_zero_id [simp]: "parse_stream_id ''0'' = Some (0, 0)"
  by (simp add: parse_stream_id_def parse_unsigned_def digit_val_def)

lemma redis_id_parses: "redis_id i \<Longrightarrow> parse_stream_id i = Some (pos i)"
  unfolding redis_id_def pos_def by (auto simp del: parse_zero_id) auto

lemma redis_id_zero [simp]: "redis_id ''0''"
  by (simp add: redis_id_def)

lemma pos_zero [simp]: "pos ''0'' = (0, 0)"
  by (simp add: pos_def)

lemma zero_pos_le [simp]: "(0, 0) \<le> (p :: nat \<times> nat)"
  by (cases p) (auto simp: less_eq_prod_def)

lemma pos_show_stream_id [simp]: "fst p < 2 ^ 64 \<Longrightarrow> snd p < 2 ^ 64 \<Longrightarrow> pos (show_stream_id p) = p"
  by (simp add: pos_def)

lemma redis_id_show [simp]: "a < 2 ^ 64 \<Longrightarrow> b < 2 ^ 64 \<Longrightarrow> redis_id (show_stream_id (a, b))"
  by (auto simp: redis_id_def)

lemma compare_watermarks_pos:
  "redis_id a \<Longrightarrow> redis_id b \<Longrightarrow> compare_stream_id_watermarks a b = cmp_of (pos a) (pos b)"
  by (simp add: compare_stream_id_watermarks_def redis_id_parses)

lemma cmp_of_greater [simp]: "cmp_of a b = Greater \<longleftrightarrow> b < a"
  by (auto simp: cmp_of_def)

lemma mset_insert_by [simp]: "mset (insert_by c x ys) = add_mset x (mset ys)"
  by (induction ys) auto

lemma mset_sort_by [simp]: "mset (sort_by c xs) = mset xs"
  by (induction xs) (simp_all add: sort_by_def)

lemma set_sort_by [simp]: "set (sort_by c xs) = set xs"
  by (metis mset_sort_by set_mset_mset)

lemma sort_by_sorted:
  assumes "\<And>x y. x \<in> set xs \<Longrightarrow> y \<in> set xs \<Longrightarrow> c x y = cmp_of (f x) (f y)"
  shows "sorted_wrt (\<lambda>x y. f x \<le> f y) (sort_by c xs)"
proof -
  have ins: "sorted_wrt (\<lambda>x y. f x \<le> f y) (insert_by c x ys)"
    if "sorted_wrt (\<lambda>x y. f x \<le> f y) ys" "x \<in> set xs" "set ys \<subseteq> set xs" for x ys
    using that
  proof (induction ys)
    case (Cons y ys)
    have "set (insert_by c x ys) = insert x (set ys)"
      by (metis mset_insert_by set_mset_add_mset_insert set_mset_mset)
    with Cons assms show ?case by (fastforce simp: not_less)
  qed simp
  have "set zs \<subseteq> set xs \<Longrightarrow> sorted_wrt (\<lambda>x y. f x \<le> f y) (foldr (insert_by c) zs [])" for zs
  proof (induction zs)
    case (Cons z zs)
    moreover have "set (foldr (insert_by c) zs []) = set zs"
      using set_sort_by [of c zs] by (simp add: sort_by_def)
    ultimately show ?case using ins by simp
  qed simp
  then show ?thesis by (simp add: sort_by_def)
qed

section \<open>What the merge keeps\<close>

text \<open>
  The device's own entries and the user-stream entries not named to a sibling are the reader's.
  Entries of one class carry one delivery key.
\<close>

definition siblings :: "string \<Rightarrow> entry \<Rightarrow> bool" where
  "siblings reader x = (case snd x of None \<Rightarrow> False | Some e \<Rightarrow> named_to_sibling reader e)"

definition entry_class :: "(bytes \<Rightarrow> string) \<Rightarrow> entry \<Rightarrow> string option" where
  "entry_class h x = map_option (for_envelope h) (snd x)"

definition permutes_entries :: "(entry list \<Rightarrow> entry list) \<Rightarrow> bool" where
  "permutes_entries shuffle \<longleftrightarrow> (\<forall>xs. mset (shuffle xs) = mset xs)"

definition merge_sound ::
    "(bytes \<Rightarrow> string) \<Rightarrow> entry set \<Rightarrow> merge_state \<Rightarrow> bool" where
  "merge_sound h R st \<longleftrightarrow>
     distinct (map fst (by_message_id st)) \<and>
     (\<forall>(k, i, e) \<in> set (by_message_id st). k = for_envelope h e \<and> (i, Some e) \<in> R) \<and>
     (\<forall>x \<in> set (orphans st). x \<in> R \<and> snd x = None) \<and>
     (\<forall>x \<in> R. (case snd x of None \<Rightarrow> x \<in> set (orphans st)
               | Some e \<Rightarrow> for_envelope h e \<in> fst ` set (by_message_id st)))"

lemma update_member:
  assumes "distinct (map fst al)"
  shows "set (AList.update k v al) = insert (k, v) {p \<in> set al. fst p \<noteq> k}"
  using assms by (induction al) (auto simp: image_iff)

lemma merge_insert_sound:
  assumes "merge_sound h R st"
  shows "merge_sound h (insert (i, Some e) R)
     (st\<lparr>by_message_id := AList.update (for_envelope h e) (i, e) (by_message_id st)\<rparr>)"
proof -
  define al where "al = AList.update (for_envelope h e) (i, e) (by_message_id st)"
  from assms have d: "distinct (map fst (by_message_id st))" by (simp add: merge_sound_def)
  have mem: "set al = insert (for_envelope h e, i, e)
      {p \<in> set (by_message_id st). fst p \<noteq> for_envelope h e}"
    unfolding al_def by (rule update_member [OF d])
  have keys: "fst ` set al = insert (for_envelope h e) (fst ` set (by_message_id st))"
    unfolding mem by auto
  have "distinct (map fst al)" unfolding al_def by (simp add: d distinct_update)
  moreover from assms have "\<forall>(k, j, f) \<in> set al. k = for_envelope h f \<and> (j, Some f) \<in> insert (i, Some e) R"
    unfolding mem merge_sound_def by auto
  moreover from assms have "\<forall>x \<in> insert (i, Some e) R. (case snd x of None \<Rightarrow> x \<in> set (orphans st)
      | Some f \<Rightarrow> for_envelope h f \<in> fst ` set al)"
    unfolding keys merge_sound_def by (auto split: option.splits)
  ultimately show ?thesis
    using assms unfolding merge_sound_def al_def by (simp cong: option.case_cong)
qed

lemma merge_sound_skipped [simp]: "merge_sound h R (st\<lparr>skipped := n\<rparr>) = merge_sound h R st"
  by (simp add: merge_sound_def cong: option.case_cong)

lemma merge_orphan_sound:
  assumes "merge_sound h R st"
  shows "merge_sound h (insert (i, None) R) (st\<lparr>orphans := orphans st @ [(i, None)]\<rparr>)"
  using assms unfolding merge_sound_def by (auto split: option.splits)

lemma merge_device_sound:
  "merge_sound h R st \<Longrightarrow> merge_sound h (insert x R) (merge_device h x st)"
  unfolding merge_device_def
  by (cases x) (auto split: option.split intro: merge_insert_sound merge_orphan_sound)

lemma merge_user_sound:
  "merge_sound h R st \<Longrightarrow>
     merge_sound h (if siblings reader x then R else insert x R) (merge_user h reader x st)"
  unfolding merge_user_def siblings_def
  by (cases x) (auto split: option.split intro: merge_insert_sound merge_orphan_sound)

lemma fold_device_sound:
  "merge_sound h R st \<Longrightarrow> merge_sound h (set xs \<union> R) (fold (merge_device h) xs st)"
proof (induction xs arbitrary: R st)
  case (Cons x xs)
  from Cons.IH [OF merge_device_sound [OF Cons.prems]] show ?case by simp
qed simp

lemma fold_user_sound:
  "merge_sound h R st \<Longrightarrow>
     merge_sound h ({x \<in> set xs. \<not> siblings reader x} \<union> R) (fold (merge_user h reader) xs st)"
proof (induction xs arbitrary: R st)
  case (Cons x xs)
  have "{y \<in> set (x # xs). \<not> siblings reader y} \<union> R
      = {y \<in> set xs. \<not> siblings reader y} \<union> (if siblings reader x then R else insert x R)"
    by auto
  with Cons.IH [OF merge_user_sound [OF Cons.prems]] show ?case by simp
qed simp

definition readers_entries :: "string \<Rightarrow> entry list \<Rightarrow> entry list \<Rightarrow> entry set" where
  "readers_entries reader dm um = set dm \<union> {x \<in> set um. \<not> siblings reader x}"

lemma merge_all_sound: "merge_sound h (readers_entries reader dm um) (merge_all h reader dm um)"
proof -
  have "merge_sound h {} \<lparr>by_message_id = [], orphans = [], skipped = 0\<rparr>"
    by (simp add: merge_sound_def)
  from fold_device_sound [OF fold_user_sound [OF this, of um reader], of dm]
  show ?thesis by (simp add: merge_all_def readers_entries_def)
qed

lemma candidates_set:
  assumes "permutes_entries shuffle"
  shows "set (merge_candidates shuffle st)
    = (\<lambda>(k, i, e). (i, Some e)) ` set (by_message_id st) \<union> set (orphans st)"
proof -
  have "set (shuffle xs) = set xs" for xs
    using assms unfolding permutes_entries_def by (metis set_mset_mset)
  then show ?thesis by (simp add: merge_candidates_def)
qed

lemma merge_sound_key:
  "merge_sound h R st \<Longrightarrow> (k, i, e) \<in> set (by_message_id st) \<Longrightarrow>
     k = for_envelope h e \<and> (i, Some e) \<in> R"
  by (auto simp: merge_sound_def)

lemma candidates_sound:
  assumes "merge_sound h R st" "permutes_entries shuffle"
    and "x \<in> set (merge_candidates shuffle st)"
  shows "x \<in> R"
  using assms by (auto simp: candidates_set merge_sound_def)

lemma candidates_cover:
  assumes "merge_sound h R st" "permutes_entries shuffle" "x \<in> R"
  shows "\<exists>x' \<in> set (merge_candidates shuffle st).
    entry_class h x' = entry_class h x \<and> (snd x = None \<longrightarrow> x' = x)"
proof (cases "snd x")
  case None
  with assms show ?thesis by (auto simp: candidates_set merge_sound_def entry_class_def split: option.splits)
next
  case (Some e)
  with assms have "for_envelope h e \<in> fst ` set (by_message_id st)"
    by (auto simp: merge_sound_def split: option.splits)
  then obtain i f where f: "(for_envelope h e, i, f) \<in> set (by_message_id st)" by auto
  with assms(1) have "for_envelope h f = for_envelope h e" by (auto simp: merge_sound_def)
  with f Some show ?thesis
    unfolding candidates_set [OF assms(2)]
    by (intro bexI [of _ "(i, Some f)"]) (force simp: entry_class_def)+
qed

lemma candidates_unique:
  assumes "merge_sound h R st" "permutes_entries shuffle"
    and "x \<in> set (merge_candidates shuffle st)" "y \<in> set (merge_candidates shuffle st)"
    and "entry_class h x = entry_class h y" "snd x \<noteq> None"
  shows "x = y"
proof -
  from assms(5,6) have "snd y \<noteq> None" by (cases "snd y") (auto simp: entry_class_def)
  with assms(1,2,3,4,6) obtain k i e l j f
    where x: "(k, i, e) \<in> set (by_message_id st)" "x = (i, Some e)"
      and y: "(l, j, f) \<in> set (by_message_id st)" "y = (j, Some f)"
    by (auto simp: candidates_set merge_sound_def)
  then have "k = for_envelope h e" "l = for_envelope h f"
    using merge_sound_key [OF assms(1)] by blast+
  with x(2) y(2) assms(5) have "k = l" by (simp add: entry_class_def)
  with x(1) y(1) have "(i, e) = (j, f)"
    using assms(1) eq_key_imp_eq_value [of "by_message_id st" k "(i, e)" "(j, f)"]
    by (simp add: merge_sound_def)
  with x(2) y(2) show ?thesis by simp
qed

lemma candidates_distinct:
  assumes "merge_sound h R st" "permutes_entries shuffle"
  shows "distinct (filter (\<lambda>x. snd x \<noteq> None) (merge_candidates shuffle st))"
proof -
  let ?xs = "map (\<lambda>(k, i, e). (i, Some e)) (by_message_id st)"
  have inj: "inj_on (\<lambda>(k, i, e). (i, Some e)) (set (by_message_id st))"
    by (rule inj_onI) (auto dest!: merge_sound_key [OF assms(1)])
  have "distinct (by_message_id st)"
    using assms(1) by (auto simp: merge_sound_def distinct_map)
  with inj have "distinct ?xs" by (simp add: distinct_map)
  moreover have "mset (shuffle ?xs) = mset ?xs" using assms(2) by (simp add: permutes_entries_def)
  ultimately have "distinct (shuffle ?xs)" by (metis mset_eq_imp_distinct_iff)
  moreover have "filter (\<lambda>x. snd x \<noteq> None) (orphans st) = []"
    using assms(1) by (auto simp: merge_sound_def filter_empty_conv)
  ultimately show ?thesis by (simp add: merge_candidates_def)
qed

lemma last_device_candidate:
  assumes "permutes_entries shuffle" "dm \<noteq> []"
  shows "last dm \<in> set (merge_candidates shuffle (merge_all h reader dm um))"
proof -
  have dm: "dm = butlast dm @ [last dm]" using assms(2) by simp
  have "\<exists>st. merge_all h reader dm um = merge_device h (last dm) st"
    unfolding merge_all_def by (subst (1) dm, subst fold_append) auto
  then obtain st where st: "merge_all h reader dm um = merge_device h (last dm) st" ..
  obtain i o' where x: "last dm = (i, o')" by (cases "last dm")
  show ?thesis
  proof (cases o')
    case None
    with x st show ?thesis by (simp add: candidates_set [OF assms(1)] merge_device_def)
  next
    case (Some e)
    have "map_of (AList.update (for_envelope h e) (i, e) (by_message_id st)) (for_envelope h e)
        = Some (i, e)" by (simp add: update_conv')
    then have "(for_envelope h e, i, e) \<in> set (by_message_id (merge_all h reader dm um))"
      unfolding st merge_device_def x Some by (auto dest: map_of_SomeD)
    with x Some show ?thesis unfolding candidates_set [OF assms(1)] by force
  qed
qed

end
