(* ===== verification/Mailbox_Paging.thy ===== *)
theory Mailbox_Paging
  imports Mailbox
begin

text \<open>
  What one page of the merged mailbox guarantees. A snapshot is a device stream and a user
  stream with increasing Redis ids; a page reads up to \<open>n\<close> entries of each after the reader's
  two positions and merges them. Each page has a bound: entries up to it are delivered or
  represented by an entry still ahead, entries past it wait.
\<close>

definition stream_ok :: "entry list \<Rightarrow> bool" where
  "stream_ok es \<longleftrightarrow> (\<forall>x \<in> set es. redis_id (fst x)) \<and>
     sorted_wrt (\<lambda>x y. pos (fst x) < pos (fst y)) es"

definition after :: "nat \<times> nat \<Rightarrow> entry list \<Rightarrow> entry list" where
  "after p es = filter (\<lambda>x. p < pos (fst x)) es"

definition page_read :: "nat \<Rightarrow> nat \<times> nat \<Rightarrow> entry list \<Rightarrow> entry list" where
  "page_read n p es = take n (after p es)"

text \<open>
  Ids of the two streams are drawn independently; the snapshot has no two different deliveries
  of the reader under one id.
\<close>

definition clash_free ::
    "(bytes \<Rightarrow> string) \<Rightarrow> string \<Rightarrow> entry list \<Rightarrow> entry list \<Rightarrow> bool" where
  "clash_free h reader D U \<longleftrightarrow>
     (\<forall>x \<in> set D. \<forall>y \<in> set U. pos (fst x) = pos (fst y) \<longrightarrow>
        siblings reader y \<or> entry_class h x = entry_class h y)"

definition live ::
    "string \<Rightarrow> entry list \<Rightarrow> entry list \<Rightarrow> nat \<times> nat \<Rightarrow> nat \<times> nat \<Rightarrow> entry \<Rightarrow> bool" where
  "live reader D U d u x \<longleftrightarrow>
     x \<in> set D \<and> d < pos (fst x) \<or> x \<in> set U \<and> \<not> siblings reader x \<and> u < pos (fst x)"

definition beyond :: "(nat \<times> nat) option \<Rightarrow> entry \<Rightarrow> bool" where
  "beyond P x = (case P of None \<Rightarrow> False | Some p \<Rightarrow> p < pos (fst x))"

definition page_kept ::
    "(bytes \<Rightarrow> string) \<Rightarrow> (entry list \<Rightarrow> entry list) \<Rightarrow> entry list \<Rightarrow> entry list \<Rightarrow> nat
     \<Rightarrow> string \<Rightarrow> entry list" where
  "page_kept h shuffle dm um n reader =
     filter (\<lambda>x. \<not> past_horizon (merge_horizon n dm um) (fst x))
       (sort_by by_watermark (merge_candidates shuffle (merge_all h reader dm um)))"

definition page_bound ::
    "(bytes \<Rightarrow> string) \<Rightarrow> (entry list \<Rightarrow> entry list) \<Rightarrow> entry list \<Rightarrow> entry list \<Rightarrow> nat \<Rightarrow> nat
     \<Rightarrow> string \<Rightarrow> (nat \<times> nat) option" where
  "page_bound h shuffle dm um limit n reader =
     (let kept = page_kept h shuffle dm um n reader
      in if limit < length kept then Some (pos (fst (last (take limit kept))))
         else map_option pos (merge_horizon n dm um))"

text \<open>A read cursor as Redis understands it, and the position it denotes.\<close>

definition cursor_ok :: "string option \<Rightarrow> bool" where
  "cursor_ok c \<longleftrightarrow> (case c of None \<Rightarrow> True | Some i \<Rightarrow> redis_id i)"

definition cursor_pos :: "string option \<Rightarrow> nat \<times> nat" where
  "cursor_pos c = (case c of None \<Rightarrow> (0, 0) | Some i \<Rightarrow> pos i)"

lemma cursor_simps [simp]:
  "cursor_ok None" "cursor_ok (Some i) = redis_id i"
  "cursor_pos None = (0, 0)" "cursor_pos (Some i) = pos i"
  by (simp_all add: cursor_ok_def cursor_pos_def)

section \<open>Reads\<close>

lemma stream_ok_after: "stream_ok es \<Longrightarrow> stream_ok (after p es)"
  by (auto simp: stream_ok_def after_def sorted_wrt_filter)

lemma stream_ok_read: "stream_ok es \<Longrightarrow> stream_ok (page_read n p es)"
  unfolding page_read_def
  using stream_ok_after [of es p] by (auto simp: stream_ok_def sorted_wrt_take dest: in_set_takeD)

lemma page_read_after: "x \<in> set (page_read n p es) \<Longrightarrow> x \<in> set es \<and> p < pos (fst x)"
  by (auto simp: page_read_def after_def dest: in_set_takeD)

lemma stream_ok_id: "stream_ok es \<Longrightarrow> x \<in> set es \<Longrightarrow> redis_id (fst x)"
  by (simp add: stream_ok_def)

lemma stream_ok_last:
  assumes "stream_ok es" "x \<in> set es"
  shows "pos (fst x) \<le> pos (fst (last es))"
proof -
  from assms(2) obtain ys z where es: "es = ys @ [z]" by (cases es rule: rev_cases) auto
  with assms show ?thesis by (auto simp: stream_ok_def sorted_wrt_append intro: less_imp_le)
qed

lemma stream_ok_unique:
  assumes "stream_ok es" "x \<in> set es" "y \<in> set es" "pos (fst x) = pos (fst y)"
  shows "x = y"
  using assms(2,3,4) assms(1) [unfolded stream_ok_def, THEN conjunct2]
  by (induction es) auto

lemma unread_past_end:
  assumes "stream_ok es" "x \<in> set es" "p < pos (fst x)" "x \<notin> set (page_read n p es)" "0 < n"
  shows "\<exists>i. read_end n (page_read n p es) = Some i \<and> pos i < pos (fst x)"
proof -
  let ?r = "take n (after p es)" and ?s = "drop n (after p es)"
  have split: "after p es = ?r @ ?s" by simp
  have "x \<in> set (after p es)" using assms(2,3) by (simp add: after_def)
  with assms(4) have xs: "x \<in> set ?s" unfolding page_read_def by (metis Un_iff set_append split)
  then have "n < length (after p es)" by (metis drop_all empty_iff list.set(1) not_less)
  then have len: "n \<le> length ?r" and ne: "?r \<noteq> []" using assms(5) by auto
  have "sorted_wrt (\<lambda>x y. pos (fst x) < pos (fst y)) (?r @ ?s)"
    using stream_ok_after [OF assms(1), of p] by (simp add: stream_ok_def)
  with xs ne have "pos (fst (last ?r)) < pos (fst x)"
    unfolding sorted_wrt_append by auto
  with len ne show ?thesis by (simp add: read_end_def page_read_def)
qed

section \<open>The horizon\<close>

lemma merge_horizon_eq:
  "merge_horizon n dm um =
     (case (read_end n dm, read_end n um) of
        (None, b) \<Rightarrow> b | (Some a, None) \<Rightarrow> Some a
      | (Some a, Some b) \<Rightarrow> Some (if compare_stream_id_watermarks a b = Greater then b else a))"
  by (auto simp: merge_horizon_def List.map_filter_def split: option.splits)

lemma read_end_id: "stream_ok r \<Longrightarrow> read_end n r = Some i \<Longrightarrow> redis_id i"
  by (auto simp: read_end_def stream_ok_def split: if_splits)

lemma horizon_id:
  assumes "stream_ok dm" "stream_ok um" "merge_horizon n dm um = Some z"
  shows "redis_id z"
  using assms read_end_id by (auto simp: merge_horizon_eq split: option.splits if_splits)

lemma horizon_below:
  assumes "stream_ok dm" "stream_ok um"
    and "read_end n dm = Some i \<or> read_end n um = Some i"
  shows "\<exists>z. merge_horizon n dm um = Some z \<and> pos z \<le> pos i"
  using assms read_end_id [of dm n] read_end_id [of um n]
  by (auto simp: merge_horizon_eq compare_watermarks_pos not_less split: option.splits)

lemma past_horizon_pos:
  "stream_ok dm \<Longrightarrow> stream_ok um \<Longrightarrow> redis_id i \<Longrightarrow>
     past_horizon (merge_horizon n dm um) i
     \<longleftrightarrow> (\<exists>z. merge_horizon n dm um = Some z \<and> pos z < pos i)"
  using horizon_id [of dm um n]
  by (auto simp: past_horizon_def compare_watermarks_pos split: option.splits)

section \<open>One page\<close>

lemma page_entries:
  "entries (merge_mailbox_pages h shuffle dm um limit n reader)
     = take limit (page_kept h shuffle dm um n reader)"
  by (simp add: merge_mailbox_pages_def page_kept_def Let_def)

lemma page_has_more:
  "has_more (merge_mailbox_pages h shuffle dm um limit n reader)
     \<longleftrightarrow> page_bound h shuffle dm um limit n reader \<noteq> None"
  by (cases "merge_horizon n dm um")
    (simp_all add: merge_mailbox_pages_def page_kept_def page_bound_def Let_def)

definition reads_ok :: "string \<Rightarrow> (entry list \<Rightarrow> entry list) \<Rightarrow> entry list \<Rightarrow> entry list \<Rightarrow> bool" where
  "reads_ok reader shuffle dm um \<longleftrightarrow> stream_ok dm \<and> stream_ok um \<and> permutes_entries shuffle"

lemma kept_mem:
  "x \<in> set (page_kept h shuffle dm um n reader) \<longleftrightarrow>
     x \<in> set (merge_candidates shuffle (merge_all h reader dm um)) \<and>
     \<not> past_horizon (merge_horizon n dm um) (fst x)"
  by (auto simp: page_kept_def)

lemma kept_readers:
  assumes "reads_ok reader shuffle dm um" "x \<in> set (page_kept h shuffle dm um n reader)"
  shows "x \<in> readers_entries reader dm um"
  using assms candidates_sound [OF merge_all_sound] unfolding kept_mem reads_ok_def by blast

lemma readers_id:
  assumes "reads_ok reader shuffle dm um" "x \<in> readers_entries reader dm um"
  shows "redis_id (fst x)"
  using assms by (auto simp: reads_ok_def readers_entries_def stream_ok_def)

lemma kept_sorted:
  assumes "reads_ok reader shuffle dm um"
  shows "sorted_wrt (\<lambda>x y. pos (fst x) \<le> pos (fst y)) (page_kept h shuffle dm um n reader)"
proof -
  have "redis_id (fst x)"
    if "x \<in> set (merge_candidates shuffle (merge_all h reader dm um))" for x
    using that assms candidates_sound [OF merge_all_sound] readers_id
    by (metis reads_ok_def)
  then show ?thesis
    unfolding page_kept_def
    by (intro sorted_wrt_filter sort_by_sorted) (simp add: by_watermark_def compare_watermarks_pos)
qed

lemma kept_bound:
  assumes ok: "reads_ok reader shuffle dm um"
    and x: "x \<in> set (take limit (page_kept h shuffle dm um n reader))" (is "x \<in> set (take _ ?kept)")
  shows "\<not> beyond (page_bound h shuffle dm um limit n reader) x"
proof (cases "limit < length ?kept")
  case True
  have "sorted_wrt (\<lambda>x y. pos (fst x) \<le> pos (fst y)) (take limit ?kept)"
    using kept_sorted [OF ok] by (rule sorted_wrt_take)
  with x have "pos (fst x) \<le> pos (fst (last (take limit ?kept)))"
    by (cases "take limit ?kept" rule: rev_cases) (auto simp: sorted_wrt_append)
  with True show ?thesis by (simp add: page_bound_def beyond_def not_less)
next
  case False
  from x have xk: "x \<in> set ?kept" by (rule in_set_takeD)
  then have "\<not> past_horizon (merge_horizon n dm um) (fst x)" by (simp add: kept_mem)
  moreover have "redis_id (fst x)" using kept_readers [OF ok xk] readers_id [OF ok] by blast
  ultimately show ?thesis using False ok
    by (auto simp: page_bound_def beyond_def reads_ok_def past_horizon_pos split: option.splits)
qed

lemma bound_below_horizon:
  assumes ok: "reads_ok reader shuffle dm um" and "0 < limit"
    and hz: "merge_horizon n dm um = Some z"
  shows "\<exists>p. page_bound h shuffle dm um limit n reader = Some p \<and> p \<le> pos z"
proof (cases "limit < length (page_kept h shuffle dm um n reader)")
  case True
  let ?kept = "page_kept h shuffle dm um n reader"
  from True \<open>0 < limit\<close> have "take limit ?kept \<noteq> []" by auto
  then have "last (take limit ?kept) \<in> set ?kept" by (metis in_set_takeD last_in_set)
  moreover from this have "redis_id (fst (last (take limit ?kept)))"
    using kept_readers [OF ok] readers_id [OF ok] by blast
  ultimately have "pos (fst (last (take limit ?kept))) \<le> pos z"
    using ok hz past_horizon_pos unfolding kept_mem reads_ok_def by (metis not_less)
  with True show ?thesis by (simp add: page_bound_def Let_def)
qed (use hz in \<open>simp add: page_bound_def\<close>)

lemma past_horizon_beyond:
  assumes "reads_ok reader shuffle dm um" "0 < limit"
    and "merge_horizon n dm um = Some z" "pos z < pos (fst x)"
  shows "beyond (page_bound h shuffle dm um limit n reader) x"
  using bound_below_horizon [OF assms(1-3), of h] assms(4) by (auto simp: beyond_def)

lemma readers_same_pos:
  assumes ok: "reads_ok reader shuffle dm um" and clash: "clash_free h reader dm um"
    and "x \<in> readers_entries reader dm um" "y \<in> readers_entries reader dm um"
    and eq: "pos (fst x) = pos (fst y)"
  shows "entry_class h x = entry_class h y"
proof -
  from assms(3,4) consider
      "x \<in> set dm" "y \<in> set dm" | "x \<in> set um" "y \<in> set um"
    | "x \<in> set dm" "y \<in> set um" "\<not> siblings reader y"
    | "x \<in> set um" "\<not> siblings reader x" "y \<in> set dm"
    unfolding readers_entries_def by blast
  then show ?thesis
    using ok clash eq stream_ok_unique unfolding reads_ok_def clash_free_def by cases metis+
qed

lemma kept_distinct:
  assumes "permutes_entries shuffle"
  shows "distinct (filter (\<lambda>x. snd x \<noteq> None) (page_kept h shuffle dm um n reader))"
proof -
  let ?C = "merge_candidates shuffle (merge_all h reader dm um)"
  have "mset (filter (\<lambda>x. snd x \<noteq> None) (sort_by by_watermark ?C))
      = mset (filter (\<lambda>x. snd x \<noteq> None) ?C)" by simp
  then have "distinct (filter (\<lambda>x. snd x \<noteq> None) (sort_by by_watermark ?C))"
    using candidates_distinct [OF merge_all_sound assms] mset_eq_imp_distinct_iff by metis
  then have "distinct (filter (\<lambda>x. \<not> past_horizon (merge_horizon n dm um) (fst x))
      (filter (\<lambda>x. snd x \<noteq> None) (sort_by by_watermark ?C)))" by (rule distinct_filter)
  then show ?thesis by (simp add: page_kept_def conj_commute)
qed

lemma cut_drop_beyond:
  assumes ok: "reads_ok reader shuffle dm um" and clash: "clash_free h reader dm um"
    and "0 < limit" and x: "x \<in> set (drop limit (page_kept h shuffle dm um n reader))"
    and some: "snd x \<noteq> None"
  shows "beyond (page_bound h shuffle dm um limit n reader) x"
proof -
  let ?kept = "page_kept h shuffle dm um n reader"
  let ?st = "merge_all h reader dm um"
  let ?y = "last (take limit ?kept)"
  from x have cut: "limit < length ?kept" by (metis drop_all empty_iff list.set(1) not_less)
  with \<open>0 < limit\<close> have ne: "take limit ?kept \<noteq> []" by auto
  then have y: "?y \<in> set (take limit ?kept)" by simp
  have sorted: "sorted_wrt (\<lambda>x y. pos (fst x) \<le> pos (fst y)) (take limit ?kept @ drop limit ?kept)"
    using kept_sorted [OF ok] by simp
  then have le: "pos (fst ?y) \<le> pos (fst x)" using x y unfolding sorted_wrt_append by blast
  have perm: "permutes_entries shuffle" using ok by (simp add: reads_ok_def)
  have xk: "x \<in> set ?kept" and yk: "?y \<in> set ?kept" using x y by (auto dest: in_set_dropD in_set_takeD)
  have "pos (fst ?y) \<noteq> pos (fst x)"
  proof
    assume eq: "pos (fst ?y) = pos (fst x)"
    have r: "x \<in> readers_entries reader dm um" "?y \<in> readers_entries reader dm um"
      using kept_readers [OF ok] xk yk by blast+
    then have "entry_class h x = entry_class h ?y"
      using readers_same_pos [OF ok clash] eq by metis
    then have same: "x = ?y"
      using candidates_unique [OF merge_all_sound perm _ _ _ some, of h reader dm um ?y] xk yk
      by (auto simp: kept_mem)
    have "distinct (filter (\<lambda>x. snd x \<noteq> None) ?kept)"
      by (rule kept_distinct [OF perm])
    then have "distinct (filter (\<lambda>x. snd x \<noteq> None) (take limit ?kept @ drop limit ?kept))" by simp
    then show False using x y same some
      unfolding filter_append distinct_append set_filter by blast
  qed
  with le cut show ?thesis by (simp add: page_bound_def beyond_def)
qed

text \<open>
  The step of the argument: every entry ahead of the reader is delivered on this page, or
  stands for a delivery that is still ahead past the page's bound.
\<close>

lemma page_cover:
  assumes D: "stream_ok D" and U: "stream_ok U" and clash: "clash_free h reader D U"
    and perm: "permutes_entries shuffle" and "0 < n" "0 < limit"
    and x: "live reader D U d u x" and some: "snd x \<noteq> None"
    and dm: "dm = page_read n d D" and um: "um = page_read n u U"
  shows "\<exists>x'. entry_class h x' = entry_class h x \<and> snd x' \<noteq> None \<and>
    (x' \<in> set (entries (merge_mailbox_pages h shuffle dm um limit n reader)) \<or>
     live reader D U d u x' \<and> beyond (page_bound h shuffle dm um limit n reader) x')"
proof -
  let ?kept = "page_kept h shuffle dm um n reader"
  have ok: "reads_ok reader shuffle dm um"
    by (simp add: reads_ok_def dm um stream_ok_read D U perm)
  have ok': "stream_ok dm" "stream_ok um" using ok by (simp_all add: reads_ok_def)
  have clash': "clash_free h reader dm um"
    using clash page_read_after unfolding clash_free_def dm um by blast
  have unread: "beyond (page_bound h shuffle dm um limit n reader) x"
    if "read_end n dm = Some i \<or> read_end n um = Some i" "pos i < pos (fst x)" for i
    using horizon_below [OF ok' that(1)] past_horizon_beyond [OF ok \<open>0 < limit\<close>] that(2)
    by (meson order_le_less_trans)
  show ?thesis
  proof (cases "x \<in> readers_entries reader dm um")
    case False
    then have "(\<exists>i. (read_end n dm = Some i \<or> read_end n um = Some i) \<and> pos i < pos (fst x))"
      using x unread_past_end [OF D _ _ _ \<open>0 < n\<close>] unread_past_end [OF U _ _ _ \<open>0 < n\<close>]
      unfolding live_def readers_entries_def dm um by blast
    with unread x some show ?thesis by blast
  next
    case True
    obtain x' where x': "x' \<in> set (merge_candidates shuffle (merge_all h reader dm um))"
        "entry_class h x' = entry_class h x"
      using candidates_cover [OF merge_all_sound perm True] by blast
    have some': "snd x' \<noteq> None" using x'(2) some by (cases "snd x'") (auto simp: entry_class_def)
    have r: "x' \<in> readers_entries reader dm um"
      using candidates_sound [OF merge_all_sound perm x'(1)] .
    then have live': "live reader D U d u x'"
      using page_read_after unfolding readers_entries_def live_def dm um by blast
    have "x' \<in> set (take limit ?kept) \<or> beyond (page_bound h shuffle dm um limit n reader) x'"
    proof (cases "past_horizon (merge_horizon n dm um) (fst x')")
      case True
      then show ?thesis
        using past_horizon_pos [OF ok' readers_id [OF ok r]] past_horizon_beyond [OF ok \<open>0 < limit\<close>]
        by blast
    next
      case False
      with x'(1) have "x' \<in> set ?kept" by (simp add: kept_mem)
      then have "x' \<in> set (take limit ?kept) \<or> x' \<in> set (drop limit ?kept)"
        by (metis Un_iff append_take_drop_id set_append)
      then show ?thesis using cut_drop_beyond [OF ok clash' \<open>0 < limit\<close> _ some'] by blast
    qed
    with x'(2) some' live' show ?thesis unfolding page_entries by blast
  qed
qed

section \<open>Positions after a page\<close>

lemma examined_within:
  assumes ok: "reads_ok reader shuffle dm um"
    and E: "user_examined_through (merge_mailbox_pages h shuffle dm um limit n reader) = Some E"
  shows "redis_id E \<and> (\<forall>p. page_bound h shuffle dm um limit n reader = Some p \<longrightarrow> pos E \<le> p)"
proof -
  let ?hz = "merge_horizon n dm um" and ?l = "fst (last um)"
  have ok': "stream_ok dm" "stream_ok um" using ok by (simp_all add: reads_ok_def)
  from E have ncut: "\<not> limit < length (page_kept h shuffle dm um n reader)" and ne: "um \<noteq> []"
      and Eeq: "E = (if past_horizon ?hz ?l then (case ?hz of Some z \<Rightarrow> z | None \<Rightarrow> ?l) else ?l)"
    by (auto simp: merge_mailbox_pages_def page_kept_def Let_def split: if_splits)
  have idl: "redis_id ?l" using ok'(2) ne by (simp add: stream_ok_def)
  show ?thesis
  proof (cases "past_horizon ?hz ?l")
    case True
    then obtain z where "?hz = Some z" using past_horizon_pos [OF ok' idl] by blast
    with True Eeq ncut horizon_id [OF ok'] show ?thesis by (simp add: page_bound_def Let_def)
  next
    case False
    with Eeq ncut idl past_horizon_pos [OF ok' idl] show ?thesis
      by (auto simp: page_bound_def not_less)
  qed
qed

lemma entries_live:
  assumes "stream_ok D" "stream_ok U" "permutes_entries shuffle"
    and "dm = page_read n d D" "um = page_read n u U"
    and "x \<in> set (entries (merge_mailbox_pages h shuffle dm um limit n reader))"
  shows "live reader D U d u x \<and> redis_id (fst x)"
proof -
  have ok: "reads_ok reader shuffle dm um" using assms by (simp add: reads_ok_def stream_ok_read)
  have "x \<in> readers_entries reader dm um"
    using kept_readers [OF ok] assms(6) unfolding page_entries by (blast dest: in_set_takeD)
  with readers_id [OF ok this] page_read_after assms(4,5) show ?thesis
    unfolding readers_entries_def live_def by blast
qed

text \<open>
  A page that reports more moves a position over an entry of its stream: the reader's over one
  of the device stream, or the user position over one of the user stream.
\<close>

definition page_end :: "mailbox_page \<Rightarrow> (nat \<times> nat) option" where
  "page_end page = (if entries page = [] then None else Some (pos (fst (last (entries page)))))"

definition examined_end :: "mailbox_page \<Rightarrow> (nat \<times> nat) option" where
  "examined_end page = map_option pos (user_examined_through page)"

definition reaches :: "(nat \<times> nat) option \<Rightarrow> entry \<Rightarrow> bool" where
  "reaches e x = (case e of None \<Rightarrow> False | Some p \<Rightarrow> pos (fst x) \<le> p)"

lemma page_progress:
  assumes D: "stream_ok D" and U: "stream_ok U" and perm: "permutes_entries shuffle"
    and "0 < n" "0 < limit"
    and dm: "dm = page_read n d D" and um: "um = page_read n u U"
    and page: "page = merge_mailbox_pages h shuffle dm um limit n reader"
    and more: "has_more page"
  shows "(\<exists>w \<in> set D. d < pos (fst w) \<and> reaches (page_end page) w) \<or>
    (\<exists>w \<in> set U. u < pos (fst w) \<and> (reaches (page_end page) w \<or> reaches (examined_end page) w))"
proof -
  let ?kept = "page_kept h shuffle dm um n reader" and ?hz = "merge_horizon n dm um"
  have ok: "reads_ok reader shuffle dm um"
    by (simp add: reads_ok_def dm um stream_ok_read D U perm)
  have ok': "stream_ok dm" "stream_ok um" using ok by (simp_all add: reads_ok_def)
  show ?thesis
  proof (cases "limit < length ?kept")
    case True
    with \<open>0 < limit\<close> have ne: "entries page \<noteq> []" unfolding page page_entries by auto
    then have "last (entries page) \<in> set (entries page)" by simp
    then have "live reader D U d u (last (entries page))"
      using entries_live [OF D U perm dm um] unfolding page by blast
    with ne show ?thesis unfolding live_def page_end_def reaches_def by auto
  next
    case False
    then have pe: "entries page = ?kept" unfolding page page_entries by simp
    from more False obtain z where z: "?hz = Some z"
      unfolding page page_has_more by (auto simp: page_bound_def Let_def split: if_splits)
    then consider (dev) "read_end n dm = Some z" | (user) "read_end n um = Some z"
      by (auto simp: merge_horizon_eq split: option.splits if_splits)
    then show ?thesis
    proof cases
      case dev
      then have dne: "dm \<noteq> []" and zd: "z = fst (last dm)" by (auto simp: read_end_def split: if_splits)
      have "\<not> past_horizon ?hz (fst (last dm))"
        using past_horizon_pos [OF ok' horizon_id [OF ok' z], of n] z zd by auto
      with last_device_candidate [OF perm dne] have k: "last dm \<in> set ?kept" by (simp add: kept_mem)
      then have ne: "?kept \<noteq> []" by auto
      have "pos (fst (last dm)) \<le> pos (fst (last ?kept))"
        using kept_sorted [OF ok, of h n] k ne
        by (cases ?kept rule: rev_cases) (auto simp: sorted_wrt_append)
      moreover have "last dm \<in> set D \<and> d < pos (fst (last dm))"
        using page_read_after [of "last dm" n d D] dne unfolding dm by simp
      ultimately show ?thesis using ne by (auto simp: page_end_def reaches_def pe)
    next
      case user
      then have une: "um \<noteq> []" and zu: "z = fst (last um)" by (auto simp: read_end_def split: if_splits)
      have "\<not> past_horizon ?hz (fst (last um))"
        using past_horizon_pos [OF ok' horizon_id [OF ok' z], of n] z zu by auto
      then have "user_examined_through page = Some (fst (last um))"
        using une False by (simp add: page merge_mailbox_pages_def page_kept_def Let_def)
      moreover have "last um \<in> set U \<and> u < pos (fst (last um))"
        using page_read_after [of "last um" n u U] une unfolding um by simp
      ultimately show ?thesis by (auto simp: examined_end_def reaches_def)
    qed
  qed
qed

lemma after_shrinks:
  assumes "w \<in> set es" "p < pos (fst w)" "pos (fst w) \<le> q"
  shows "length (after q es) < length (after p es)"
proof -
  have sub: "after q es = filter (\<lambda>x. q < pos (fst x)) (after p es)"
    using assms(2,3) by (auto simp: after_def intro!: filter_cong)
  have "w \<in> set (after p es)" "\<not> q < pos (fst w)" using assms by (auto simp: after_def)
  then show ?thesis unfolding sub by (rule length_filter_less)
qed

lemma after_mono:
  assumes "p \<le> q" shows "length (after q es) \<le> length (after p es)"
proof -
  have "after q es = filter (\<lambda>x. q < pos (fst x)) (after p es)"
    using assms by (auto simp: after_def intro!: filter_cong)
  then show ?thesis by (metis length_filter_le)
qed

section \<open>Equal ids\<close>

lemma sample_digest_inj: "\<not> digest_collision sample_digest"
proof -
  have "b = c" if "(char_of (unat b) :: char) = char_of (unat (c :: 8 word))" for b c
  proof -
    from that have "unat b mod 256 = unat c mod 256"
      by (metis of_char_of [where 'a = nat])
    moreover have "unat b < 256" "unat c < 256"
      using unsigned_less [of b] unsigned_less [of c] by simp_all
    ultimately show ?thesis by (metis mod_less unsigned_word_eqI)
  qed
  then have "inj (\<lambda>b :: 8 word. char_of (unat b) :: char)" by (rule injI)
  then show ?thesis
    unfolding digest_collision_def sample_digest_def by (metis inj_map_eq_map)
qed


end
