(* ===== verification/Redis.thy ===== *)
theory Redis
  imports Prelude
begin

text \<open>
  Redis is a service outside the repository. This theory holds the vocabulary in which the
  components speak to it: the reply values of the \<open>redis\<close> crate that the code matches on.
\<close>

datatype redis_value =
    NilValue
  | IntValue int
  | BulkString string
  | SimpleString string
  | VerbatimString string
  | ArrayValue "redis_value list"
  | MapValue "(redis_value \<times> redis_value) list"
  | OtherValue

end
