(* ===== verification/Mailbox_Read.thy ===== *)
theory Mailbox_Read
  imports Mailbox_Paging Redis "HOL-Library.Sublist"
begin

text \<open>
  Reading a mailbox: \<open>xread_binary\<close> of \<open>crates/construct-redis/src/streams.rs\<close>, the
  stream readers of \<open>crates/construct-queue/src/delivery.rs\<close> and
  \<open>read_mailbox_messages\<close> of \<open>lib.rs\<close>.
\<close>

type_synonym raw_entry = "string \<times> (string \<rightharpoonup> redis_value)"
type_synonym binary_entry = "string \<times> (string \<rightharpoonup> string)"
type_synonym xread_reply = "(string, (string \<times> raw_entry list) list) result"

text \<open>
  The outside world of the mailbox: \<open>XREAD COUNT n STREAMS key id\<close> as the client library
  decodes it, MessagePack decoding of an envelope, the digest, the iteration order of hash maps,
  and the configured key prefix.
\<close>

record mail_world =
  xread :: "string \<Rightarrow> string \<Rightarrow> nat \<Rightarrow> xread_reply"
  from_slice :: "string \<Rightarrow> message_envelope option"
  digest :: "bytes \<Rightarrow> string"
  map_order :: "entry list \<Rightarrow> entry list"
  delivery_queue_prefix :: string

section \<open>The client library\<close>

definition value_bytes :: "redis_value \<Rightarrow> string option" where
  "value_bytes v =
     (case v of BulkString b \<Rightarrow> Some b | SimpleString s \<Rightarrow> Some s
      | IntValue i \<Rightarrow> Some (show_int i) | _ \<Rightarrow> None)"

definition entry_fields :: "(string \<rightharpoonup> redis_value) \<Rightarrow> (string \<rightharpoonup> string)" where
  "entry_fields m = (\<lambda>k. case m k of None \<Rightarrow> None | Some v \<Rightarrow> value_bytes v)"

definition xread_binary ::
    "mail_world \<Rightarrow> string \<Rightarrow> string \<Rightarrow> nat \<Rightarrow> (string, binary_entry list) result" where
  "xread_binary W key start n =
     (case xread W key start n of
        Err e \<Rightarrow> Err e
      | Ok reply \<Rightarrow>
          Ok (concat (map (\<lambda>(k, ids). map (\<lambda>(i, m). (i, entry_fields m)) ids) reply)))"

section \<open>Stream ids of requests\<close>

fun split_char :: "char \<Rightarrow> string \<Rightarrow> string list" where
  "split_char c [] = [[]]"
| "split_char c (x # xs) =
     (if x = c then [] # split_char c xs
      else case split_char c xs of [] \<Rightarrow> [[x]] | p # ps \<Rightarrow> (x # p) # ps)"

definition is_valid_stream_id :: "string \<Rightarrow> bool" where
  "is_valid_stream_id i \<longleftrightarrow> i = ''0'' \<or> i = ''$'' \<or> i = ''*'' \<or>
     (case split_char CHR ''-'' i of
        [a, b] \<Rightarrow> parse_unsigned 64 a \<noteq> None \<and> parse_unsigned 64 b \<noteq> None
      | _ \<Rightarrow> False)"

definition normalize_stream_id :: "string \<Rightarrow> string option" where
  "normalize_stream_id i =
     (if is_valid_stream_id i then Some i
      else if parse_unsigned 64 i \<noteq> None then Some (i @ ''-0'')
      else None)"

definition start_id :: "string option \<Rightarrow> string" where
  "start_id since =
     (case since of None \<Rightarrow> ''0''
      | Some i \<Rightarrow> (case normalize_stream_id i of Some n \<Rightarrow> n | None \<Rightarrow> ''0''))"

section \<open>Reading\<close>

definition read_stream_messages ::
    "mail_world \<Rightarrow> string \<Rightarrow> string option \<Rightarrow> nat \<Rightarrow> (string, binary_entry list) result" where
  "read_stream_messages W key since n =
     (case xread_binary W key (start_id since) n of
        Ok es \<Rightarrow> Ok es
      | Err e \<Rightarrow> if sublist ''no such key'' e \<or> sublist ''WRONGTYPE'' e then Ok []
                 else Err (''Failed to read stream: '' @ e))"

definition parse_stream_message ::
    "mail_world \<Rightarrow> (string \<rightharpoonup> string) \<Rightarrow> string \<Rightarrow> (string, message_envelope option) result" where
  "parse_stream_message W flds user =
     (case flds ''message_id'' of
        None \<Rightarrow> Err ''Missing message_id in stream message''
      | Some mid \<Rightarrow>
          (case from_utf8 mid of
             None \<Rightarrow> Err ''Invalid UTF-8 in message_id''
           | Some _ \<Rightarrow>
               (case flds ''payload'' of
                  None \<Rightarrow> Err ''Missing payload in stream message''
                | Some payload \<Rightarrow>
                    (case from_slice W payload of
                       None \<Rightarrow> Err ''Failed to deserialize MessageEnvelope from stream''
                     | Some e \<Rightarrow> Ok (if recipient_id e \<noteq> user then None else Some e)))))"

definition parse_entry :: "mail_world \<Rightarrow> string \<Rightarrow> binary_entry \<Rightarrow> entry" where
  "parse_entry W user x =
     (fst x, case parse_stream_message W (snd x) user of Ok r \<Rightarrow> r | Err _ \<Rightarrow> None)"

definition user_stream_key :: "mail_world \<Rightarrow> string \<Rightarrow> string" where
  "user_stream_key W user = delivery_queue_prefix W @ '':offline:'' @ user"

definition device_stream_key :: "mail_world \<Rightarrow> string \<Rightarrow> string \<Rightarrow> string" where
  "device_stream_key W user device =
     delivery_queue_prefix W @ '':offline:'' @ user @ '':'' @ device"

definition read_user_messages_from_stream ::
    "mail_world \<Rightarrow> string \<Rightarrow> string option \<Rightarrow> nat \<Rightarrow> (string, entry list) result" where
  "read_user_messages_from_stream W user since n =
     map_sum id (map (parse_entry W user))
       (read_stream_messages W (user_stream_key W user) since n)"

definition read_device_messages_from_stream ::
    "mail_world \<Rightarrow> string \<Rightarrow> string \<Rightarrow> string option \<Rightarrow> nat \<Rightarrow> (string, entry list) result" where
  "read_device_messages_from_stream W user device since n =
     map_sum id (map (parse_entry W user))
       (read_stream_messages W (device_stream_key W user device) since n)"

text \<open>\<open>usize\<close> is 64 bits wide; \<open>saturating_mul(2)\<close> stops at its maximum.\<close>

definition saturating_double :: "nat \<Rightarrow> nat" where
  "saturating_double n = min (2 * n) (2 ^ 64 - 1)"

definition read_mailbox_messages ::
    "mail_world \<Rightarrow> string \<Rightarrow> string option \<Rightarrow> string option \<Rightarrow> string option \<Rightarrow> nat
     \<Rightarrow> (string, mailbox_page) result" where
  "read_mailbox_messages W user device since user_since limit =
     (if device = None \<or> device = Some [] then
        (case read_user_messages_from_stream W user since limit of
           Err e \<Rightarrow> Err e
         | Ok es \<Rightarrow> Ok \<lparr> entries = es, user_only_ids = [], sibling_skipped = 0,
                       user_examined_through = None, has_more = (length es = limit) \<rparr>)
      else
        let reader = (case device of Some d \<Rightarrow> d | None \<Rightarrow> []);
            per_source = saturating_double limit
        in (case read_device_messages_from_stream W user reader since per_source of
              Err e \<Rightarrow> Err e
            | Ok device_msgs \<Rightarrow>
                (case read_user_messages_from_stream W user user_since per_source of
                   Err e \<Rightarrow> Err e
                 | Ok user_msgs \<Rightarrow>
                     Ok (merge_mailbox_pages (digest W) (map_order W) device_msgs user_msgs
                           limit per_source reader))))"

section \<open>What Redis documents of \<open>XREAD\<close>\<close>

text \<open>
  The stream under \<open>key\<close> holds the entries \<open>raws\<close>: a read after a position returns the first
  \<open>n\<close> entries with a larger id, in order, under the stream's key, and no stream at all when
  there is none.
\<close>

definition xread_serves :: "mail_world \<Rightarrow> string \<Rightarrow> raw_entry list \<Rightarrow> bool" where
  "xread_serves W key raws \<longleftrightarrow>
     (\<forall>i n. redis_id i \<longrightarrow> 0 < n \<longrightarrow>
        xread W key i n =
          Ok (let r = take n (filter (\<lambda>x. pos i < pos (fst x)) raws)
              in if r = [] then [] else [(key, r)]))"

definition stored_entry :: "mail_world \<Rightarrow> string \<Rightarrow> raw_entry \<Rightarrow> entry" where
  "stored_entry W user x = parse_entry W user (fst x, entry_fields (snd x))"

lemma split_char_none [simp]: "c \<notin> set l \<Longrightarrow> split_char c l = [l]"
  by (induction l) auto

lemma split_char_append [simp]:
  "c \<notin> set l \<Longrightarrow> c \<notin> set r \<Longrightarrow> split_char c (l @ c # r) = [l, r]"
  by (induction l) auto

lemma redis_id_valid: "redis_id i \<Longrightarrow> is_valid_stream_id i"
  by (auto simp: redis_id_def is_valid_stream_id_def show_stream_id_def codec_simps)

lemma start_id_cursor:
  assumes "cursor_ok c"
  shows "redis_id (start_id c) \<and> pos (start_id c) = cursor_pos c"
  using assms by (cases c) (auto simp: start_id_def normalize_stream_id_def redis_id_valid)

lemma fst_stored_entry [simp]: "fst (stored_entry W user x) = fst x"
  by (simp add: stored_entry_def parse_entry_def)

lemma stored_page:
  "map (stored_entry W user) (take n (filter (\<lambda>x. p < pos (fst x)) raws))
     = page_read n p (map (stored_entry W user) raws)"
  by (simp add: page_read_def after_def take_map filter_map comp_def)

lemma read_stream_page:
  assumes "xread_serves W key raws" "cursor_ok c" "0 < n"
  shows "\<exists>es. read_stream_messages W key c n = Ok es \<and>
    map (parse_entry W user) es = page_read n (cursor_pos c) (map (stored_entry W user) raws)"
proof -
  let ?r = "take n (filter (\<lambda>x. cursor_pos c < pos (fst x)) raws)"
  have "xread W key (start_id c) n = Ok (if ?r = [] then [] else [(key, ?r)])"
    using assms start_id_cursor [OF assms(2)] by (simp add: xread_serves_def Let_def)
  then have "xread_binary W key (start_id c) n = Ok (map (\<lambda>(i, m). (i, entry_fields m)) ?r)"
    by (auto simp: xread_binary_def)
  moreover have "map (parse_entry W user) (map (\<lambda>(i, m). (i, entry_fields m)) ?r)
      = map (stored_entry W user) ?r"
    by (auto simp: stored_entry_def)
  ultimately show ?thesis by (simp add: read_stream_messages_def stored_page)
qed

lemma read_user_page:
  assumes "xread_serves W (user_stream_key W user) raws" "cursor_ok c" "0 < n"
  shows "read_user_messages_from_stream W user c n
    = Ok (page_read n (cursor_pos c) (map (stored_entry W user) raws))"
  using read_stream_page [OF assms, of user] by (auto simp: read_user_messages_from_stream_def)

lemma read_device_page:
  assumes "xread_serves W (device_stream_key W user device) raws" "cursor_ok c" "0 < n"
  shows "read_device_messages_from_stream W user device c n
    = Ok (page_read n (cursor_pos c) (map (stored_entry W user) raws))"
  using read_stream_page [OF assms, of user] by (auto simp: read_device_messages_from_stream_def)

lemma read_mailbox_page:
  assumes "xread_serves W (device_stream_key W user reader) rawD"
    and "xread_serves W (user_stream_key W user) rawU"
    and "cursor_ok c" "cursor_ok c'" "0 < limit" "reader \<noteq> []"
  shows "read_mailbox_messages W user (Some reader) c c' limit =
    Ok (merge_mailbox_pages (digest W) (map_order W)
      (page_read (saturating_double limit) (cursor_pos c) (map (stored_entry W user) rawD))
      (page_read (saturating_double limit) (cursor_pos c') (map (stored_entry W user) rawU))
      limit (saturating_double limit) reader)"
proof -
  have "0 < saturating_double limit" using assms(5) by (simp add: saturating_double_def)
  then show ?thesis
    using assms by (simp add: read_mailbox_messages_def read_device_page read_user_page Let_def)
qed

end
