(* ===== verification/Message_Stream.thy ===== *)
theory Message_Stream
  imports Mailbox_Read
begin

text \<open>
  Offline catch-up of an open message stream (\<open>messaging-service/src/stream.rs\<close>): the resume
  cursor of a client, the two read positions of a connection, and \<open>poll_messages\<close>, which
  reads mailbox pages and pushes every entry to the client until nothing is left.

  The connection's sends are recorded as events. The world adds to that of the mailbox whether
  the client's channel is still open after the events so far, the answer of the revoked-device
  check at each page, and the JSON reader of receipts. Logging and metrics are left out.
\<close>

record stream_catchup_state =
  last_stream_id :: "string option"
  user_stream_id :: "string option"
  subscribe_with_cursor_seen :: bool
  initial_catchup_done :: bool

datatype poll_event =
    Sent stream_response
  | SentRemoved
  | ClearedPush string

record poll_world = mail_world +
  receipt_json :: json_reader
  is_device_revoked :: "nat \<Rightarrow> (string, bool) result"
  tx_open :: "poll_event list \<Rightarrow> bool"

section \<open>Cursors\<close>

definition is_valid_redis_stream_cursor :: "string \<Rightarrow> bool" where
  "is_valid_redis_stream_cursor c \<longleftrightarrow>
     (if c = ''0'' \<or> c = ''$'' then True
      else case split_once CHR ''-'' c of
             Some (ts, sq) \<Rightarrow> parse_unsigned 64 ts \<noteq> None \<and> parse_unsigned 64 sq \<noteq> None
           | None \<Rightarrow> parse_unsigned 64 c \<noteq> None)"

definition compare_stream_ids :: "string \<Rightarrow> string \<Rightarrow> ordering" where
  "compare_stream_ids a b =
     (case (parse_stream_id a, parse_stream_id b) of
        (Some x, Some y) \<Rightarrow> cmp_of x y
      | _ \<Rightarrow> Less)"

definition apply_since_cursor :: "string \<Rightarrow> string option \<Rightarrow> bool \<times> string option" where
  "apply_since_cursor c held =
     (let advance = (case held of None \<Rightarrow> True
                     | Some current \<Rightarrow> compare_stream_ids c current = Greater)
      in (advance, if advance then Some c else held))"

definition user_read_position :: "string option \<Rightarrow> string option \<Rightarrow> string option" where
  "user_read_position user_pos reader_pos =
     (case (user_pos, reader_pos) of
        (Some u, Some d) \<Rightarrow> if compare_stream_ids u d = Greater then Some u else Some d
      | (Some u, None) \<Rightarrow> Some u
      | (None, d) \<Rightarrow> d)"

definition empty_poll_is_a_finding :: "nat \<Rightarrow> bool \<Rightarrow> bool" where
  "empty_poll_is_a_finding msg_count is_resume_catchup \<longleftrightarrow> msg_count = 0 \<and> is_resume_catchup"

definition STREAM_MAILBOX_PAGE :: nat where
  "STREAM_MAILBOX_PAGE = 50"

section \<open>Delivering a page\<close>

datatype outgoing = Respond stream_response | Skip | Fail string

definition outgoing_of :: "json_reader \<Rightarrow> message_envelope \<Rightarrow> outgoing" where
  "outgoing_of json e =
     (if message_type e = Receipt then
        (case build_receipt_response json e of Ok r \<Rightarrow> Respond r | Err _ \<Rightarrow> Skip)
      else
        (case convert_envelope_to_proto e of
           Ok p \<Rightarrow> Respond \<lparr>response = PMessage p, stream_cursor = None\<rparr>
         | Err x \<Rightarrow> Fail x))"

type_synonym poll_state = "stream_catchup_state \<times> poll_event list"

fun deliver_entries ::
    "poll_world \<Rightarrow> entry list \<Rightarrow> poll_state \<Rightarrow> poll_state \<times> (string, unit) result" where
  "deliver_entries W [] st = (st, Ok ())"
| "deliver_entries W ((i, None) # es) (c, tr) =
     deliver_entries W es (c\<lparr>last_stream_id := Some i\<rparr>, tr)"
| "deliver_entries W ((i, Some e) # es) (c, tr) =
     (case outgoing_of (receipt_json W) e of
        Skip \<Rightarrow> deliver_entries W es (c\<lparr>last_stream_id := Some i\<rparr>, tr)
      | Fail x \<Rightarrow> ((c, tr), Err x)
      | Respond r \<Rightarrow>
          if tx_open W tr then
            deliver_entries W es
              (c\<lparr>last_stream_id := Some i\<rparr>, tr @ [Sent (r\<lparr>stream_cursor := Some i\<rparr>)])
          else ((c, tr), Err ''channel closed''))"

section \<open>The poll\<close>

definition named_device :: "string option \<Rightarrow> string option" where
  "named_device device = (if device = Some [] then None else device)"

definition poll_refused :: "poll_world \<Rightarrow> string option \<Rightarrow> nat \<Rightarrow> bool" where
  "poll_refused W device pages \<longleftrightarrow>
     named_device device \<noteq> None \<and> is_device_revoked W pages = Ok True"

definition clear_push :: "string option \<Rightarrow> mailbox_page \<Rightarrow> poll_event list" where
  "clear_push device page =
     (case named_device device of
        Some d \<Rightarrow> if entries page \<noteq> [] then [ClearedPush d] else []
      | None \<Rightarrow> [])"

definition poll_page ::
    "poll_world \<Rightarrow> string \<Rightarrow> string option \<Rightarrow> nat \<Rightarrow> poll_state
     \<Rightarrow> poll_state \<times> (string, bool) result" where
  "poll_page W user device pages st =
     (let (c, tr) = st in
      if \<not> tx_open W tr then (st, Err ''message stream closed during catch-up'')
      else if poll_refused W device pages then
        ((c, tr @ [SentRemoved]), Err ''device removed while its stream was open'')
      else
        (case read_mailbox_messages (mail_world.truncate W) user device (last_stream_id c)
                (user_read_position (user_stream_id c) (last_stream_id c)) STREAM_MAILBOX_PAGE of
           Err x \<Rightarrow> (st, Err x)
         | Ok page \<Rightarrow>
             (case deliver_entries W (entries page) (c, tr @ clear_push device page) of
                (st', Err x) \<Rightarrow> (st', Err x)
              | ((c', tr'), Ok _) \<Rightarrow>
                  let c'' = (if user_examined_through page \<noteq> None
                             then c'\<lparr>user_stream_id := user_examined_through page\<rparr> else c')
                  in ((c'', tr'),
                      Ok (has_more page \<and>
                          \<not> (last_stream_id c'' = last_stream_id c \<and>
                             user_stream_id c'' = user_stream_id c))))))"

partial_function (option) poll_loop ::
    "poll_world \<Rightarrow> string \<Rightarrow> string option \<Rightarrow> nat \<Rightarrow> poll_state
     \<Rightarrow> (poll_state \<times> (string, unit) result) option" where
  "poll_loop W user device pages st =
     (case poll_page W user device pages st of
        (st', Err x) \<Rightarrow> Some (st', Err x)
      | (st', Ok go_on) \<Rightarrow> if go_on then poll_loop W user device (pages + 1) st'
                          else Some (st', Ok ()))"

definition poll_messages ::
    "poll_world \<Rightarrow> string \<Rightarrow> string option \<Rightarrow> poll_state
     \<Rightarrow> (poll_state \<times> (string, unit) result) option" where
  "poll_messages W user device st = poll_loop W user device 1 st"

section \<open>Lemmas\<close>

lemma compare_stream_ids_pos:
  "redis_id a \<Longrightarrow> redis_id b \<Longrightarrow> compare_stream_ids a b = cmp_of (pos a) (pos b)"
  by (simp add: compare_stream_ids_def redis_id_parses)

lemma user_read_position_max:
  assumes "cursor_ok u" "cursor_ok d"
  shows "cursor_ok (user_read_position u d) \<and>
    cursor_pos (user_read_position u d) = max (cursor_pos u) (cursor_pos d)"
  using assms
  by (cases u; cases d)
    (auto simp: user_read_position_def compare_stream_ids_pos max_def not_less intro: antisym)

text \<open>
  The snapshot a catch-up reads: the two streams as Redis serves them, their ids increasing, no
  two different deliveries of the reader under one id, and a hash map that iterates in some
  order.
\<close>

definition mailbox_snapshot ::
    "mail_world \<Rightarrow> string \<Rightarrow> string \<Rightarrow> raw_entry list \<Rightarrow> raw_entry list \<Rightarrow> bool" where
  "mailbox_snapshot W user reader rawD rawU \<longleftrightarrow>
     xread_serves W (device_stream_key W user reader) rawD \<and>
     xread_serves W (user_stream_key W user) rawU \<and>
     stream_ok (map (stored_entry W user) rawD) \<and> stream_ok (map (stored_entry W user) rawU) \<and>
     clash_free (digest W) reader (map (stored_entry W user) rawD)
       (map (stored_entry W user) rawU) \<and>
     permutes_entries (map_order W)"

text \<open>The client stays connected and its device is not removed during the poll.\<close>

definition undisturbed :: "poll_world \<Rightarrow> bool" where
  "undisturbed W \<longleftrightarrow> (\<forall>n. is_device_revoked W n \<noteq> Ok True) \<and> (\<forall>tr. tx_open W tr)"

text \<open>
  An entry is handled when its response was sent with the entry's id as cursor; a receipt whose
  payload cannot be read has no response.
\<close>

definition handled :: "json_reader \<Rightarrow> poll_event list \<Rightarrow> entry \<Rightarrow> bool" where
  "handled json tr x =
     (case snd x of None \<Rightarrow> True
      | Some e \<Rightarrow>
          (case outgoing_of json e of
             Respond r \<Rightarrow> Sent (r\<lparr>stream_cursor := Some (fst x)\<rparr>) \<in> set tr
           | Skip \<Rightarrow> True
           | Fail _ \<Rightarrow> False))"

lemma outgoing_not_fail [simp]: "outgoing_of json e \<noteq> Fail x"
  by (auto simp: outgoing_of_def convert_envelope_to_proto_def split: sum.splits)

lemma handled_mono: "handled json tr x \<Longrightarrow> set tr \<subseteq> set tr' \<Longrightarrow> handled json tr' x"
  by (auto simp: handled_def split: option.splits outgoing.splits)

definition last_delivered :: "entry list \<Rightarrow> string option \<Rightarrow> string option" where
  "last_delivered es held = (if es = [] then held else Some (fst (last es)))"

lemma deliver_all:
  assumes "\<forall>tr. tx_open W tr"
  shows "\<exists>tr'. deliver_entries W es (c, tr)
      = ((c\<lparr>last_stream_id := last_delivered es (last_stream_id c)\<rparr>, tr @ tr'), Ok ()) \<and>
    (\<forall>x \<in> set es. handled (receipt_json W) tr' x)"
proof (induction es arbitrary: c tr)
  case (Cons x es)
  obtain i o' where x: "x = (i, o')" by (cases x)
  let ?c = "c\<lparr>last_stream_id := Some i\<rparr>"
  have step: "last_delivered (x # es) (last_stream_id c) = last_delivered es (last_stream_id ?c)"
    by (simp add: last_delivered_def x)
  show ?case
  proof (cases "o' = None \<or> (\<exists>e. o' = Some e \<and> outgoing_of (receipt_json W) e = Skip)")
    case True
    then have "deliver_entries W (x # es) (c, tr) = deliver_entries W es (?c, tr)"
        and "handled (receipt_json W) tr' x" for tr'
      by (auto simp: x handled_def)
    with Cons.IH [of ?c tr] step show ?thesis by auto
  next
    case False
    then obtain e r where er: "o' = Some e" "outgoing_of (receipt_json W) e = Respond r"
      by (cases o') (auto, metis outgoing.exhaust outgoing_not_fail)
    let ?ev = "Sent (r\<lparr>stream_cursor := Some i\<rparr>)"
    have eq: "deliver_entries W (x # es) (c, tr) = deliver_entries W es (?c, tr @ [?ev])"
      using assms by (simp add: x er)
    obtain tr' where tr': "deliver_entries W es (?c, tr @ [?ev])
          = ((?c\<lparr>last_stream_id := last_delivered es (last_stream_id ?c)\<rparr>, (tr @ [?ev]) @ tr'), Ok ())"
        "\<forall>x \<in> set es. handled (receipt_json W) tr' x"
      using Cons.IH [of ?c "tr @ [?ev]"] by blast
    have "handled (receipt_json W) (?ev # tr') x" by (simp add: handled_def x er)
    moreover have "\<forall>x \<in> set es. handled (receipt_json W) (?ev # tr') x"
      using tr'(2) by (auto intro: handled_mono)
    ultimately show ?thesis using eq tr'(1) step by (intro exI [of _ "?ev # tr'"]) simp
  qed
qed (simp add: last_delivered_def)

section \<open>Completeness of a poll\<close>

definition device_pos :: "stream_catchup_state \<Rightarrow> nat \<times> nat" where
  "device_pos c = cursor_pos (last_stream_id c)"

definition user_pos :: "stream_catchup_state \<Rightarrow> nat \<times> nat" where
  "user_pos c = max (cursor_pos (user_stream_id c)) (cursor_pos (last_stream_id c))"

definition catchup_ok :: "stream_catchup_state \<Rightarrow> bool" where
  "catchup_ok c \<longleftrightarrow> cursor_ok (last_stream_id c) \<and> cursor_ok (user_stream_id c)"

definition poll_read ::
    "poll_world \<Rightarrow> string \<Rightarrow> entry list \<Rightarrow> entry list \<Rightarrow> stream_catchup_state \<Rightarrow> mailbox_page" where
  "poll_read W reader D U c =
     merge_mailbox_pages (digest W) (map_order W) (page_read 100 (device_pos c) D)
       (page_read 100 (user_pos c) U) 50 100 reader"

definition moved :: "mailbox_page \<Rightarrow> stream_catchup_state \<Rightarrow> stream_catchup_state" where
  "moved page c =
     c\<lparr> last_stream_id := last_delivered (entries page) (last_stream_id c),
        user_stream_id := (if user_examined_through page \<noteq> None then user_examined_through page
                           else user_stream_id c) \<rparr>"

lemma poll_page_undisturbed:
  assumes snap: "mailbox_snapshot (mail_world.truncate W) user reader rawD rawU"
    and und: "undisturbed W" and c: "catchup_ok c" and reader: "reader \<noteq> []"
    and D: "D = map (stored_entry (mail_world.truncate W) user) rawD"
    and U: "U = map (stored_entry (mail_world.truncate W) user) rawU"
  shows "\<exists>tr'. poll_page W user (Some reader) pages (c, tr)
      = ((moved (poll_read W reader D U c) c, tr @ tr'),
         Ok (has_more (poll_read W reader D U c) \<and>
             (last_stream_id (moved (poll_read W reader D U c) c) \<noteq> last_stream_id c \<or>
              user_stream_id (moved (poll_read W reader D U c) c) \<noteq> user_stream_id c))) \<and>
    (\<forall>x \<in> set (entries (poll_read W reader D U c)). handled (receipt_json W) tr' x)"
proof -
  let ?W = "mail_world.truncate W"
  let ?page = "poll_read W reader D U c"
  let ?cl = "clear_push (Some reader) ?page"
  have urp: "cursor_ok (user_read_position (user_stream_id c) (last_stream_id c))"
      "cursor_pos (user_read_position (user_stream_id c) (last_stream_id c)) = user_pos c"
    using user_read_position_max [of "user_stream_id c" "last_stream_id c"] c
    by (simp_all add: catchup_ok_def user_pos_def)
  have read: "read_mailbox_messages ?W user (Some reader) (last_stream_id c)
      (user_read_position (user_stream_id c) (last_stream_id c)) STREAM_MAILBOX_PAGE = Ok ?page"
    using snap c reader urp
      read_mailbox_page [of ?W user reader rawD rawU "last_stream_id c"
        "user_read_position (user_stream_id c) (last_stream_id c)" STREAM_MAILBOX_PAGE]
    by (simp add: mailbox_snapshot_def catchup_ok_def STREAM_MAILBOX_PAGE_def saturating_double_def
        poll_read_def device_pos_def D U mail_world.defs)
  obtain tr' where tr': "deliver_entries W (entries ?page) (c, tr @ ?cl)
      = ((c\<lparr>last_stream_id := last_delivered (entries ?page) (last_stream_id c)\<rparr>,
          (tr @ ?cl) @ tr'), Ok ())"
      "\<forall>x \<in> set (entries ?page). handled (receipt_json W) tr' x"
    using deliver_all [of W "entries ?page" c "tr @ ?cl"] und by (auto simp: undisturbed_def)
  have h: "\<forall>x \<in> set (entries ?page). handled (receipt_json W) (?cl @ tr') x"
    using tr'(2) by (auto intro: handled_mono)
  have go: "tx_open W tr" "\<not> poll_refused W (Some reader) pages"
    using und by (auto simp: undisturbed_def poll_refused_def)
  show ?thesis
    by (intro exI [of _ "?cl @ tr'"] conjI h)
      (simp add: poll_page_def go read tr'(1) moved_def Let_def)
qed

text \<open>
  What holds of the two streams and the hash map in a snapshot, without the commands that read
  them.
\<close>

definition streams_ok ::
    "poll_world \<Rightarrow> string \<Rightarrow> entry list \<Rightarrow> entry list \<Rightarrow> bool" where
  "streams_ok W reader D U \<longleftrightarrow> stream_ok D \<and> stream_ok U \<and> clash_free (digest W) reader D U \<and>
     permutes_entries (map_order W)"

lemma user_pos_ge: "device_pos c \<le> user_pos c" "cursor_pos (user_stream_id c) \<le> user_pos c"
  by (simp_all add: device_pos_def user_pos_def)

lemma cursor_last_delivered:
  "cursor_pos (last_delivered (entries page) held)
     = (case page_end page of None \<Rightarrow> cursor_pos held | Some p \<Rightarrow> p)"
  by (simp add: last_delivered_def page_end_def)

lemma moved_ok:
  assumes "streams_ok W reader D U" "catchup_ok c"
  shows "catchup_ok (moved (poll_read W reader D U c) c) \<and>
    device_pos c \<le> device_pos (moved (poll_read W reader D U c) c)"
proof -
  let ?page = "poll_read W reader D U c"
  let ?dm = "page_read 100 (device_pos c) D" and ?um = "page_read 100 (user_pos c) U"
  have ok: "reads_ok reader (map_order W) ?dm ?um"
    using assms(1) by (simp add: streams_ok_def reads_ok_def stream_ok_read)
  have E: "redis_id E" if "user_examined_through ?page = Some E" for E
    using examined_within [OF ok] that unfolding poll_read_def by blast
  have L: "redis_id (fst x) \<and> device_pos c \<le> pos (fst x)" if "x \<in> set (entries ?page)" for x
    using entries_live [of D U "map_order W" _ 100 "device_pos c" _ "user_pos c"] that assms(1)
      user_pos_ge(1) [of c]
    unfolding poll_read_def streams_ok_def live_def by (meson less_imp_le order_trans)
  have "cursor_ok (last_delivered (entries ?page) (last_stream_id c))"
    using L assms(2) by (auto simp: last_delivered_def catchup_ok_def)
  moreover have "device_pos c \<le> cursor_pos (last_delivered (entries ?page) (last_stream_id c))"
    using L by (auto simp: last_delivered_def device_pos_def)
  ultimately show ?thesis
    using E assms(2) by (auto simp: moved_def catchup_ok_def device_pos_def)
qed

lemma poll_step_cover:
  assumes "streams_ok W reader D U" "catchup_ok c"
    and x: "live reader D U (device_pos c) (user_pos c) x" "snd x \<noteq> None"
  shows "\<exists>x'. entry_class (digest W) x' = entry_class (digest W) x \<and> snd x' \<noteq> None \<and>
    (x' \<in> set (entries (poll_read W reader D U c)) \<or>
     has_more (poll_read W reader D U c) \<and>
     live reader D U (device_pos (moved (poll_read W reader D U c) c))
       (user_pos (moved (poll_read W reader D U c) c)) x')"
proof -
  let ?page = "poll_read W reader D U c"
  let ?dm = "page_read 100 (device_pos c) D" and ?um = "page_read 100 (user_pos c) U"
  let ?P = "page_bound (digest W) (map_order W) ?dm ?um 50 100 reader"
  have ok: "reads_ok reader (map_order W) ?dm ?um"
    using assms(1) by (simp add: streams_ok_def reads_ok_def stream_ok_read)
  obtain x' where x': "entry_class (digest W) x' = entry_class (digest W) x" "snd x' \<noteq> None"
      "x' \<in> set (entries ?page) \<or> live reader D U (device_pos c) (user_pos c) x' \<and> beyond ?P x'"
    using page_cover [OF _ _ _ _ _ _ x refl refl, of "digest W" "map_order W" 100 50] assms(1)
    unfolding poll_read_def streams_ok_def by auto
  show ?thesis
  proof (cases "x' \<in> set (entries ?page)")
    case False
    with x'(3) have lv: "live reader D U (device_pos c) (user_pos c) x'" and bd: "beyond ?P x'"
      by simp_all
    then obtain p where p: "?P = Some p" "p < pos (fst x')" by (auto simp: beyond_def split: option.splits)
    have "\<not> beyond ?P y" if "y \<in> set (entries ?page)" for y
      using kept_bound [OF ok] that unfolding poll_read_def page_entries by blast
    then have L: "pos (fst y) \<le> p" if "y \<in> set (entries ?page)" for y
      using that p(1) by (simp add: beyond_def not_less)
    have E: "pos E \<le> p" if "user_examined_through ?page = Some E" for E
      using examined_within [OF ok] that p(1) unfolding poll_read_def by blast
    have d': "device_pos (moved ?page c) \<le> max (device_pos c) p"
      using L by (auto simp: device_pos_def moved_def last_delivered_def le_max_iff_disj)
    have "cursor_pos (user_stream_id (moved ?page c)) \<le> max (user_pos c) p"
      using E user_pos_ge(2) [of c] by (auto simp: moved_def le_max_iff_disj)
    moreover have "device_pos (moved ?page c) \<le> max (user_pos c) p"
      using d' user_pos_ge(1) [of c] by (meson max.mono order_refl order_trans)
    ultimately have u': "user_pos (moved ?page c) \<le> max (user_pos c) p"
      by (simp add: user_pos_def device_pos_def)
    have "live reader D U (device_pos (moved ?page c)) (user_pos (moved ?page c)) x'"
      using lv d' u' p(2) unfolding live_def by (meson max_less_iff_conj order_le_less_trans)
    moreover have "has_more ?page" unfolding poll_read_def page_has_more using p(1) by simp
    ultimately show ?thesis using x' by blast
  qed (use x' in blast)
qed

lemma poll_step_progress:
  assumes ok: "streams_ok W reader D U" and c: "catchup_ok c"
    and more: "has_more (poll_read W reader D U c)"
  defines "c' \<equiv> moved (poll_read W reader D U c) c"
  shows "(last_stream_id c' \<noteq> last_stream_id c \<or> user_stream_id c' \<noteq> user_stream_id c) \<and>
    (c', c) \<in> measures [\<lambda>c. length (after (device_pos c) D), \<lambda>c. length (after (user_pos c) U)]"
proof -
  let ?page = "poll_read W reader D U c"
  have le: "device_pos c \<le> device_pos c'" using moved_ok [OF ok c] by (simp add: c'_def)
  have reach: "pos (fst w) \<le> device_pos c'" if "reaches (page_end ?page) w" for w
    using that by (auto simp: c'_def moved_def device_pos_def cursor_last_delivered reaches_def
        split: option.splits)
  have reachE: "pos (fst w) \<le> cursor_pos (user_stream_id c')" if "reaches (examined_end ?page) w" for w
    using that by (auto simp: c'_def moved_def examined_end_def reaches_def split: option.splits)
  have pr: "(\<exists>w \<in> set D. device_pos c < pos (fst w) \<and> reaches (page_end ?page) w) \<or>
      (\<exists>w \<in> set U. user_pos c < pos (fst w) \<and>
         (reaches (page_end ?page) w \<or> reaches (examined_end ?page) w))"
    using page_progress [OF _ _ _ _ _ refl refl, of D U "map_order W" 100 50 ?page "digest W"
        "device_pos c" "user_pos c" reader] ok more
    by (simp add: poll_read_def streams_ok_def)
  consider (dev) w where "w \<in> set D" "device_pos c < pos (fst w)" "pos (fst w) \<le> device_pos c'"
    | (user) w where "w \<in> set U" "user_pos c < pos (fst w)" "pos (fst w) \<le> user_pos c'"
        "pos (fst w) \<le> device_pos c' \<or> pos (fst w) \<le> cursor_pos (user_stream_id c')"
    using pr reach reachE user_pos_ge [of c'] by (meson order_trans)
  then show ?thesis
  proof cases
    case dev
    then have "length (after (device_pos c') D) < length (after (device_pos c) D)"
      by (rule after_shrinks)
    moreover have "last_stream_id c' \<noteq> last_stream_id c"
      using dev(2,3) by (auto simp: device_pos_def)
    ultimately show ?thesis by simp
  next
    case user
    then have "length (after (user_pos c') U) < length (after (user_pos c) U)"
      by (intro after_shrinks)
    moreover have "length (after (device_pos c') D) \<le> length (after (device_pos c) D)"
      using le by (rule after_mono)
    moreover have "last_stream_id c' \<noteq> last_stream_id c \<or> user_stream_id c' \<noteq> user_stream_id c"
      using user(2,4) user_pos_ge [of c] by (auto simp: device_pos_def)
    ultimately show ?thesis by auto
  qed
qed

lemma poll_loop_complete:
  assumes snap: "mailbox_snapshot (mail_world.truncate W) user reader rawD rawU"
    and und: "undisturbed W" and reader: "reader \<noteq> []"
    and D: "D = map (stored_entry (mail_world.truncate W) user) rawD"
    and U: "U = map (stored_entry (mail_world.truncate W) user) rawU"
    and c: "catchup_ok c"
  shows "\<exists>c' tr'. poll_loop W user (Some reader) pages (c, tr) = Some ((c', tr @ tr'), Ok ()) \<and>
    (\<forall>x. live reader D U (device_pos c) (user_pos c) x \<and> snd x \<noteq> None \<longrightarrow>
       (\<exists>x'. entry_class (digest W) x' = entry_class (digest W) x \<and> snd x' \<noteq> None \<and>
             handled (receipt_json W) tr' x'))"
  using c
proof (induction c arbitrary: pages tr rule:
    wf_induct_rule [OF wf_measures [of "[\<lambda>c. length (after (device_pos c) D),
      \<lambda>c. length (after (user_pos c) U)]"]])
  case (1 c)
  let ?page = "poll_read W reader D U c"
  let ?c = "moved ?page c"
  have ok: "streams_ok W reader D U"
    using snap by (simp add: streams_ok_def mailbox_snapshot_def D U mail_world.defs)
  obtain t1 where t1: "poll_page W user (Some reader) pages (c, tr)
      = ((?c, tr @ t1), Ok (has_more ?page \<and>
          (last_stream_id ?c \<noteq> last_stream_id c \<or> user_stream_id ?c \<noteq> user_stream_id c)))"
      "\<forall>x \<in> set (entries ?page). handled (receipt_json W) t1 x"
    using poll_page_undisturbed [OF snap und 1(2) reader D U] by blast
  show ?case
  proof (cases "has_more ?page")
    case False
    with t1(1) have "poll_loop W user (Some reader) pages (c, tr) = Some ((?c, tr @ t1), Ok ())"
      by (subst poll_loop.simps) simp
    with poll_step_cover [OF ok 1(2)] False t1(2) show ?thesis by blast
  next
    case True
    note pr = poll_step_progress [OF ok 1(2) True]
    with t1(1) True have eq: "poll_loop W user (Some reader) pages (c, tr)
        = poll_loop W user (Some reader) (pages + 1) (?c, tr @ t1)"
      by (subst poll_loop.simps) simp
    obtain c' t2 where t2: "poll_loop W user (Some reader) (pages + 1) (?c, tr @ t1)
          = Some ((c', (tr @ t1) @ t2), Ok ())"
      and cov: "\<And>x. live reader D U (device_pos ?c) (user_pos ?c) x \<Longrightarrow> snd x \<noteq> None \<Longrightarrow>
         \<exists>x'. entry_class (digest W) x' = entry_class (digest W) x \<and> snd x' \<noteq> None \<and>
              handled (receipt_json W) t2 x'"
      using "1.IH" [OF pr [THEN conjunct2], of "pages + 1" "tr @ t1"] moved_ok [OF ok 1(2)] by blast
    have hm: "handled (receipt_json W) (t1 @ t2) x"
      if "handled (receipt_json W) t1 x \<or> handled (receipt_json W) t2 x" for x
      using that by (auto intro: handled_mono)
    have "\<exists>x'. entry_class (digest W) x' = entry_class (digest W) x \<and> snd x' \<noteq> None \<and>
        handled (receipt_json W) (t1 @ t2) x'"
      if "live reader D U (device_pos c) (user_pos c) x" "snd x \<noteq> None" for x
      using poll_step_cover [OF ok 1(2) that] t1(2) cov hm by metis
    with eq t2 show ?thesis by (intro exI [of _ c'] exI [of _ "t1 @ t2"]) simp
  qed
qed


section \<open>A sample mailbox\<close>

text \<open>
  Account \<open>bob\<close> with devices \<open>a\<close> and \<open>b\<close>: the device stream of \<open>a\<close> holds one message
  named to it; the user stream holds its twin, one entry for \<open>b\<close>, and an unnamed message the
  device stream lacks.
\<close>

definition sample_payload :: "string \<Rightarrow> message_envelope option" where
  "sample_payload p =
     (if p = ''own'' then Some (sample_envelope\<lparr>message_id := ''own'', recipient_device := Some ''a''\<rparr>)
      else if p = ''sib'' then Some (sample_envelope\<lparr>message_id := ''sib'', recipient_device := Some ''b''\<rparr>)
      else if p = ''all'' then Some (sample_envelope\<lparr>message_id := ''all''\<rparr>)
      else None)"

definition sample_raw :: "string \<Rightarrow> string \<Rightarrow> raw_entry" where
  "sample_raw i p = (i, [''message_id'' \<mapsto> BulkString p, ''payload'' \<mapsto> BulkString p])"

definition serve_stream :: "string \<Rightarrow> raw_entry list \<Rightarrow> string \<Rightarrow> nat \<Rightarrow> xread_reply" where
  "serve_stream key raws i n =
     Ok (let r = take n (filter (\<lambda>x. pos i < pos (fst x)) raws)
         in if r = [] then [] else [(key, r)])"

definition sample_device_stream :: "raw_entry list" where
  "sample_device_stream = [sample_raw (show_stream_id (10, 1)) ''own'']"

definition sample_user_stream :: "raw_entry list" where
  "sample_user_stream =
     [sample_raw (show_stream_id (10, 0)) ''sib'', sample_raw (show_stream_id (10, 1)) ''own'',
      sample_raw (show_stream_id (12, 0)) ''all'']"

definition sample_mail_world :: mail_world where
  "sample_mail_world =
     \<lparr> xread = (\<lambda>key i n. if key = ''q:offline:bob:a'' then serve_stream key sample_device_stream i n
                            else serve_stream key sample_user_stream i n),
       from_slice = sample_payload, digest = sample_digest, map_order = id,
       delivery_queue_prefix = ''q'' \<rparr>"

definition sample_poll_world :: poll_world where
  "sample_poll_world =
     mail_world.extend sample_mail_world
       \<lparr> receipt_json = (\<lambda>_. Err []), is_device_revoked = (\<lambda>_. Ok False), tx_open = (\<lambda>_. True) \<rparr>"

definition sample_catchup :: stream_catchup_state where
  "sample_catchup = \<lparr> last_stream_id = None, user_stream_id = None,
     subscribe_with_cursor_seen = False, initial_catchup_done = False \<rparr>"

lemma sample_truncate: "mail_world.truncate sample_poll_world = sample_mail_world"
  by (simp add: sample_poll_world_def mail_world.defs)

lemma sample_stored [simp]:
  "stored_entry sample_mail_world ''bob'' (sample_raw i ''own'')
     = (i, Some (sample_envelope\<lparr>message_id := ''own'', recipient_device := Some ''a''\<rparr>))"
  "stored_entry sample_mail_world ''bob'' (sample_raw i ''sib'')
     = (i, Some (sample_envelope\<lparr>message_id := ''sib'', recipient_device := Some ''b''\<rparr>))"
  "stored_entry sample_mail_world ''bob'' (sample_raw i ''all'')
     = (i, Some (sample_envelope\<lparr>message_id := ''all''\<rparr>))"
  by (simp_all add: stored_entry_def parse_entry_def parse_stream_message_def sample_raw_def
      entry_fields_def value_bytes_def sample_mail_world_def sample_payload_def from_utf8_def
      sample_envelope_def)

lemma sample_snapshot:
  "mailbox_snapshot sample_mail_world ''bob'' ''a'' sample_device_stream sample_user_stream"
proof -
  have keys: "device_stream_key sample_mail_world ''bob'' ''a'' = ''q:offline:bob:a''"
      "user_stream_key sample_mail_world ''bob'' = ''q:offline:bob''"
    by (simp_all add: device_stream_key_def user_stream_key_def sample_mail_world_def)
  have "xread_serves sample_mail_world ''q:offline:bob:a'' sample_device_stream"
      "xread_serves sample_mail_world ''q:offline:bob'' sample_user_stream"
    by (simp_all add: xread_serves_def sample_mail_world_def serve_stream_def)
  moreover have "stream_ok (map (stored_entry sample_mail_world ''bob'') sample_device_stream)"
      "stream_ok (map (stored_entry sample_mail_world ''bob'') sample_user_stream)"
    by (simp_all add: stream_ok_def sample_device_stream_def sample_user_stream_def)
  moreover have "clash_free (digest sample_mail_world) ''a''
      (map (stored_entry sample_mail_world ''bob'') sample_device_stream)
      (map (stored_entry sample_mail_world ''bob'') sample_user_stream)"
    by (simp add: clash_free_def sample_device_stream_def sample_user_stream_def siblings_def
        named_to_sibling_def)
  moreover have "permutes_entries (map_order sample_mail_world)"
    by (simp add: permutes_entries_def sample_mail_world_def)
  ultimately show ?thesis by (simp add: mailbox_snapshot_def keys)
qed


end
