(* ===== verification/Mailbox_Gap.thy ===== *)
theory Mailbox_Gap
  imports Mailbox Redis
begin

text \<open>
  Whether a mailbox lost entries a reader never saw (\<open>crates/construct-queue/src/gap.rs\<close>): the
  rule on what \<open>XINFO STREAM\<close> says, the readers of that reply, and the operations that remove
  entries from a mailbox stream, as steps: \<open>XADD\<close> with \<open>MAXLEN ~\<close>, the age sweep with its
  recorded mark (\<open>trim_streams_by_age\<close>, \<open>record_deleted\<close>) and \<open>XDEL\<close>.
\<close>

record mailbox_gap_report =
  after_cursor :: string
  resumes_at :: string

record stream_info =
  max_deleted :: "string option"
  first_entry :: "string option"
  last_generated :: "string option"
  stream_length :: nat
  entries_added :: nat

definition stream_id :: "string \<Rightarrow> (nat \<times> nat) option" where
  "stream_id i =
     (let (ms, sq) = (case split_once CHR ''-'' i of Some p \<Rightarrow> p | None \<Rightarrow> (i, ''0''))
      in case (parse_unsigned 64 ms, parse_unsigned 64 sq) of
           (Some m, Some s) \<Rightarrow> Some (m, s) | _ \<Rightarrow> None)"

text \<open>\<open>cap.saturating_mul(9) / 10\<close> on \<open>u64\<close>.\<close>

definition nine_tenths :: "nat \<Rightarrow> nat" where
  "nine_tenths cap = min (cap * 9) (2 ^ 64 - 1) div 10"

definition opt_id :: "string option \<Rightarrow> (nat \<times> nat) option" where
  "opt_id o' = (case o' of None \<Rightarrow> None | Some i \<Rightarrow> stream_id i)"

definition mailbox_gap :: "string \<Rightarrow> stream_info \<Rightarrow> nat \<Rightarrow> mailbox_gap_report option" where
  "mailbox_gap after_id s cap =
     (case stream_id after_id of
        None \<Rightarrow> None
      | Some a \<Rightarrow>
          let gap = \<lparr> after_cursor = after_id,
                      resumes_at = (case first_entry s of None \<Rightarrow> [] | Some f \<Rightarrow> f) \<rparr>;
              deleted_after = (case opt_id (max_deleted s) of
                                 None \<Rightarrow> False | Some d \<Rightarrow> d \<noteq> (0, 0) \<and> a < d);
              lost_some = stream_length s < entries_added s;
              at_cap = 0 < cap \<and> nine_tenths cap \<le> stream_length s;
              before_all = (case opt_id (first_entry s) of None \<Rightarrow> True | Some f \<Rightarrow> a < f)
          in if deleted_after then Some gap
             else if lost_some \<and> at_cap \<and> before_all then Some gap else None)"

section \<open>Reading the reply\<close>

definition text_value :: "redis_value \<Rightarrow> string option" where
  "text_value v =
     (case v of BulkString b \<Rightarrow> from_utf8 b | SimpleString s \<Rightarrow> Some s
      | VerbatimString s \<Rightarrow> Some s | _ \<Rightarrow> None)"

definition int_value :: "redis_value \<Rightarrow> nat" where
  "int_value v =
     (case v of IntValue n \<Rightarrow> nat (max n 0)
      | _ \<Rightarrow> (case text_value v of
                None \<Rightarrow> 0
              | Some s \<Rightarrow> (case parse_unsigned 64 s of Some n \<Rightarrow> n | None \<Rightarrow> 0)))"

fun chunk_pairs :: "'a list \<Rightarrow> ('a \<times> 'a) list" where
  "chunk_pairs (a # b # xs) = (a, b) # chunk_pairs xs"
| "chunk_pairs _ = []"

definition reply_pairs :: "redis_value \<Rightarrow> (redis_value \<times> redis_value) list" where
  "reply_pairs r = (case r of ArrayValue xs \<Rightarrow> chunk_pairs xs | MapValue ps \<Rightarrow> ps | _ \<Rightarrow> [])"

definition first_text :: "redis_value list \<Rightarrow> string option" where
  "first_text xs = (case xs of [] \<Rightarrow> None | x # _ \<Rightarrow> text_value x)"

definition info_field :: "redis_value \<times> redis_value \<Rightarrow> stream_info \<Rightarrow> stream_info" where
  "info_field kv s =
     (let (k, v) = kv; name = text_value k in
      if name = Some ''max-deleted-entry-id'' then s\<lparr>max_deleted := text_value v\<rparr>
      else if name = Some ''last-generated-id'' then s\<lparr>last_generated := text_value v\<rparr>
      else if name = Some ''length'' then s\<lparr>stream_length := int_value v\<rparr>
      else if name = Some ''entries-added'' then s\<lparr>entries_added := int_value v\<rparr>
      else if name = Some ''first-entry'' then
        (case v of ArrayValue xs \<Rightarrow> s\<lparr>first_entry := first_text xs\<rparr> | _ \<Rightarrow> s)
      else s)"

definition parse_xinfo_stream :: "redis_value \<Rightarrow> stream_info" where
  "parse_xinfo_stream r =
     fold info_field (reply_pairs r)
       \<lparr>max_deleted = None, first_entry = None, last_generated = None, stream_length = 0,
        entries_added = 0\<rparr>"

definition first_entry_id :: "redis_value \<Rightarrow> string option" where
  "first_entry_id r =
     (case r of ArrayValue (ArrayValue e # _) \<Rightarrow> first_text e | _ \<Rightarrow> None)"

section \<open>What removes entries\<close>

text \<open>
  A stream as Redis keeps it: the ids it holds in order, the last id it gave out, the largest id
  recorded as deleted, and how many entries were ever added. \<open>lost\<close> is the history: every id
  that was removed.
\<close>

record mail_stream =
  held :: "(nat \<times> nat) list"
  last_id :: "nat \<times> nat"
  deleted_mark :: "nat \<times> nat"
  added :: nat
  lost :: "(nat \<times> nat) set"

definition empty_stream :: mail_stream where
  "empty_stream = \<lparr>held = [], last_id = (0, 0), deleted_mark = (0, 0), added = 0, lost = {}\<rparr>"

text \<open>
  \<open>XADD key MAXLEN ~ cap *\<close> appends under a larger id and may drop oldest entries, never going
  below the cap. \<open>XTRIM MINID\<close> drops what is older than the given id and leaves the mark alone;
  the sweep then raises the mark to the newest id it dropped. \<open>XDEL\<close> removes ids and raises the
  mark itself.
\<close>

definition raise_mark :: "(nat \<times> nat) list \<Rightarrow> nat \<times> nat \<Rightarrow> nat \<times> nat" where
  "raise_mark ids m = fold max ids m"

definition mark_removed :: "(nat \<times> nat) list \<Rightarrow> mail_stream \<Rightarrow> mail_stream" where
  "mark_removed removed s =
     (if removed = [] then s
      else if last removed \<le> deleted_mark s then s else s\<lparr>deleted_mark := last removed\<rparr>)"

definition xtrim_minid :: "nat \<times> nat \<Rightarrow> mail_stream \<Rightarrow> mail_stream" where
  "xtrim_minid m s =
     s\<lparr> held := filter (\<lambda>i. m \<le> i) (held s),
        lost := lost s \<union> {i \<in> set (held s). i < m} \<rparr>"

definition age_sweep :: "nat \<times> nat \<Rightarrow> mail_stream \<Rightarrow> mail_stream" where
  "age_sweep m s = mark_removed (filter (\<lambda>i. i < m) (held s)) (xtrim_minid m s)"

inductive mail_step :: "nat \<Rightarrow> mail_stream \<Rightarrow> mail_stream \<Rightarrow> bool" for cap where
  add: "last_id s < i \<Longrightarrow> fst i < 2 ^ 64 \<Longrightarrow> snd i < 2 ^ 64 \<Longrightarrow> k = 0 \<or> cap \<le> length (held s) + 1 - k \<Longrightarrow> k \<le> length (held s) \<Longrightarrow>
    mail_step cap s (s\<lparr> held := drop k (held s @ [i]), last_id := i, added := added s + 1,
                        lost := lost s \<union> set (take k (held s)) \<rparr>)"
| sweep: "mail_step cap s (age_sweep m s)"
| del: "mail_step cap s (s\<lparr> held := filter (\<lambda>i. i \<notin> set ids) (held s),
      deleted_mark := raise_mark (filter (\<lambda>i. i \<in> set ids) (held s)) (deleted_mark s),
      lost := lost s \<union> {i \<in> set (held s). i \<in> set ids} \<rparr>)"

inductive mail_reachable :: "nat \<Rightarrow> mail_stream \<Rightarrow> bool" for cap where
  start: "mail_reachable cap empty_stream"
| step: "mail_reachable cap s \<Longrightarrow> mail_step cap s s' \<Longrightarrow> mail_reachable cap s'"

text \<open>\<open>XINFO STREAM\<close> of such a stream.\<close>

definition xinfo_of :: "mail_stream \<Rightarrow> stream_info" where
  "xinfo_of s =
     \<lparr> max_deleted = Some (show_stream_id (deleted_mark s)),
       first_entry = (case held s of [] \<Rightarrow> None | i # _ \<Rightarrow> Some (show_stream_id i)),
       last_generated = Some (show_stream_id (last_id s)),
       stream_length = length (held s), entries_added = added s \<rparr>"

section \<open>Nothing is lost unseen\<close>

lemma stream_id_parse: "parse_stream_id i = Some p \<Longrightarrow> stream_id i = Some p"
proof -
  have zero: "parse_unsigned 64 ''0'' = Some 0" by (simp add: parse_unsigned_def digit_val_def)
  show "parse_stream_id i = Some p \<Longrightarrow> stream_id i = Some p"
    by (cases "split_once CHR ''-'' i")
      (auto simp: stream_id_def parse_stream_id_def zero split: option.splits)
qed

lemma stream_id_show [simp]:
  "fst p < 2 ^ 64 \<Longrightarrow> snd p < 2 ^ 64 \<Longrightarrow> stream_id (show_stream_id p) = Some p"
  by (intro stream_id_parse) simp

definition in_range :: "nat \<times> nat \<Rightarrow> bool" where
  "in_range p \<longleftrightarrow> fst p < 2 ^ 64 \<and> snd p < 2 ^ 64"

text \<open>
  The invariant: every removed id is at or below the recorded mark, or lies below everything
  held while the stream is at its cap.
\<close>

definition ids_ok :: "mail_stream \<Rightarrow> bool" where
  "ids_ok s \<longleftrightarrow> sorted_wrt (<) (held s) \<and>
     (\<forall>i \<in> set (held s) \<union> lost s. i \<le> last_id s \<and> in_range i \<and> (0, 0) < i) \<and>
     (deleted_mark s = (0, 0) \<or> deleted_mark s \<in> lost s)"

definition counts_ok :: "mail_stream \<Rightarrow> bool" where
  "counts_ok s \<longleftrightarrow>
     (if lost s = {} then added s = length (held s) else length (held s) < added s)"

definition losses_seen :: "nat \<Rightarrow> mail_stream \<Rightarrow> bool" where
  "losses_seen cap s \<longleftrightarrow>
     (\<forall>x \<in> lost s. x \<le> deleted_mark s \<or> (\<forall>i \<in> set (held s). x < i) \<and> cap \<le> length (held s))"

lemma raise_mark_max:
  "raise_mark ids m = m \<and> (\<forall>i \<in> set ids. i \<le> m) \<or>
     raise_mark ids m \<in> set ids \<and> m \<le> raise_mark ids m \<and> (\<forall>i \<in> set ids. i \<le> raise_mark ids m)"
  unfolding raise_mark_def
proof (induction ids arbitrary: m)
  case (Cons i ids)
  from Cons.IH [of "max i m"] show ?case
    by (cases "i \<le> m") (auto simp: max_absorb1 max_absorb2 not_le)
qed simp

lemma mark_removed_cases:
  assumes "removed \<noteq> []"
  shows "deleted_mark (mark_removed removed s) = max (deleted_mark s) (last removed) \<and>
    held (mark_removed removed s) = held s \<and> lost (mark_removed removed s) = lost s \<and>
    last_id (mark_removed removed s) = last_id s \<and> added (mark_removed removed s) = added s"
  using assms by (simp add: mark_removed_def max_def not_le less_imp_le)

lemma mark_removed_nil [simp]: "mark_removed [] s = s"
  by (simp add: mark_removed_def)

lemma sorted_last_max:
  assumes "sorted_wrt (<) xs" "x \<in> set xs"
  shows "x \<le> last (xs :: 'a :: linorder list)"
  using assms by (cases xs rule: rev_cases) (auto simp: sorted_wrt_append intro: less_imp_le)

lemma last_filter_max:
  assumes "sorted_wrt (<) (xs :: (nat \<times> nat) list)" "x \<in> set xs" "P x"
  shows "x \<le> last (filter P xs)" "last (filter P xs) \<in> set xs" "P (last (filter P xs))"
proof -
  have ne: "filter P xs \<noteq> []" using assms(2,3) by (auto simp: filter_empty_conv)
  then have "last (filter P xs) \<in> set (filter P xs)" by (rule last_in_set)
  then show "last (filter P xs) \<in> set xs" "P (last (filter P xs))" by simp_all
  have "sorted_wrt (<) (filter P xs)" using assms(1) by (rule sorted_wrt_filter)
  moreover have "x \<in> set (filter P xs)" using assms(2,3) by simp
  ultimately show "x \<le> last (filter P xs)" by (rule sorted_last_max)
qed

definition sweep_spec :: "((nat \<times> nat) \<Rightarrow> bool) \<Rightarrow> mail_stream \<Rightarrow> mail_stream \<Rightarrow> bool" where
  "sweep_spec P s s' \<longleftrightarrow>
     held s' = filter (\<lambda>i. \<not> P i) (held s) \<and> lost s' = lost s \<union> {i \<in> set (held s). P i} \<and>
     last_id s' = last_id s \<and> added s' = added s \<and>
     (if \<exists>i \<in> set (held s). P i
      then (\<forall>i \<in> set (held s). P i \<longrightarrow> i \<le> deleted_mark s') \<and> deleted_mark s \<le> deleted_mark s' \<and>
        (deleted_mark s' = deleted_mark s \<or> deleted_mark s' \<in> {i \<in> set (held s). P i})
      else deleted_mark s' = deleted_mark s)"

lemma age_sweep_spec:
  assumes "sorted_wrt (<) (held s)"
  shows "sweep_spec (\<lambda>i. i < m) s (age_sweep m s)"
proof (cases "\<exists>i \<in> set (held s). i < m")
  case True
  then have ne: "filter (\<lambda>i. i < m) (held s) \<noteq> []" by (simp add: filter_empty_conv)
  let ?l = "last (filter (\<lambda>i. i < m) (held s))"
  note lf = last_filter_max [OF assms, where P = "\<lambda>i. i < m"]
  from True obtain r where r: "r \<in> set (held s)" "r < m" by blast
  have l: "?l \<in> {i \<in> set (held s). i < m}" "\<And>i. i \<in> set (held s) \<Longrightarrow> i < m \<Longrightarrow> i \<le> ?l"
    using lf(2,3) [OF r] lf(1) by simp_all
  let ?s = "age_sweep m s"
  have eqs: "held ?s = filter (\<lambda>i. \<not> i < m) (held s)" "lost ?s = lost s \<union> {i \<in> set (held s). i < m}"
      "last_id ?s = last_id s" "added ?s = added s" "deleted_mark ?s = max (deleted_mark s) ?l"
    using mark_removed_cases [OF ne, of "xtrim_minid m s"]
    by (simp_all add: age_sweep_def xtrim_minid_def not_less)
  have "\<forall>i \<in> set (held s). i < m \<longrightarrow> i \<le> max (deleted_mark s) ?l"
    using l(2) by (meson max.coboundedI2)
  moreover have "max (deleted_mark s) ?l = deleted_mark s \<or>
      max (deleted_mark s) ?l \<in> {i \<in> set (held s). i < m}"
    using l(1) unfolding max_def by presburger
  ultimately show ?thesis
    unfolding sweep_spec_def eqs if_P [OF True] by (intro conjI refl max.cobounded1)
next
  case False
  then have "filter (\<lambda>i. i < m) (held s) = []" by (simp add: filter_empty_conv)
  with False show ?thesis by (auto simp: sweep_spec_def age_sweep_def xtrim_minid_def not_less)
qed

lemma xdel_spec:
  "sweep_spec (\<lambda>i. i \<in> set ids) s
     (s\<lparr> held := filter (\<lambda>i. i \<notin> set ids) (held s),
         deleted_mark := raise_mark (filter (\<lambda>i. i \<in> set ids) (held s)) (deleted_mark s),
         lost := lost s \<union> {i \<in> set (held s). i \<in> set ids} \<rparr>)"
proof (cases "\<exists>i \<in> set (held s). i \<in> set ids")
  case True
  with raise_mark_max [of "filter (\<lambda>i. i \<in> set ids) (held s)" "deleted_mark s"] show ?thesis
    by (auto simp: sweep_spec_def)
next
  case False
  then have "filter (\<lambda>i. i \<in> set ids) (held s) = []" by (simp add: filter_empty_conv)
  with False show ?thesis by (simp add: sweep_spec_def raise_mark_def)
qed

definition stream_inv :: "nat \<Rightarrow> mail_stream \<Rightarrow> bool" where
  "stream_inv cap s \<longleftrightarrow> ids_ok s \<and> counts_ok s \<and> losses_seen cap s"

lemma sweep_inv:
  assumes inv: "stream_inv cap s" and sp: "sweep_spec P s s'"
  shows "stream_inv cap s'"
proof (cases "\<exists>i \<in> set (held s). P i")
  case False
  then have "filter (\<lambda>i. \<not> P i) (held s) = held s" by (auto simp: filter_id_conv)
  with False sp inv show ?thesis
    by (auto simp: sweep_spec_def stream_inv_def ids_ok_def counts_ok_def losses_seen_def)
next
  case True
  then obtain r where r: "r \<in> set (held s)" "P r" by blast
  have ids: "ids_ok s'"
    using inv sp True unfolding stream_inv_def ids_ok_def sweep_spec_def
    by (auto simp: sorted_wrt_filter)
  have "length (filter (\<lambda>i. \<not> P i) (held s)) < length (held s)"
    using r by (intro length_filter_less) auto
  moreover have "length (held s) \<le> added s"
    using inv by (simp add: stream_inv_def counts_ok_def split: if_splits)
  moreover have "lost s' \<noteq> {}" using sp r unfolding sweep_spec_def by blast
  ultimately have cnt: "counts_ok s'"
    using sp by (simp add: counts_ok_def sweep_spec_def)
  have "x \<le> deleted_mark s'" if "x \<in> lost s'" for x
  proof (cases "x \<in> lost s")
    case False
    with that sp True show ?thesis by (auto simp: sweep_spec_def)
  next
    case True
    then have "x \<le> deleted_mark s \<or> x < r"
      using inv r(1) by (auto simp: stream_inv_def losses_seen_def)
    moreover have "deleted_mark s \<le> deleted_mark s'" "r \<le> deleted_mark s'"
      using sp r by (auto simp: sweep_spec_def split: if_splits)
    ultimately show ?thesis by auto
  qed
  with ids cnt show ?thesis by (simp add: stream_inv_def losses_seen_def)
qed

lemma add_inv:
  assumes inv: "stream_inv cap s" and i: "last_id s < i" "fst i < 2 ^ 64" "snd i < 2 ^ 64"
    and k: "k = 0 \<or> cap \<le> length (held s) + 1 - k" "k \<le> length (held s)"
  shows "stream_inv cap (s\<lparr> held := drop k (held s @ [i]), last_id := i, added := added s + 1,
    lost := lost s \<union> set (take k (held s)) \<rparr>)"
proof -
  let ?h = "held s"
  from k(2) have dr: "drop k (?h @ [i]) = drop k ?h @ [i]" by simp
  have srt: "sorted_wrt (<) ?h" and bd: "\<And>j. j \<in> set ?h \<union> lost s \<Longrightarrow> j < i"
    using inv i(1) unfolding stream_inv_def ids_ok_def by (blast intro: order_le_less_trans)+
  have sub: "set (take k ?h) \<subseteq> set ?h" "set (drop k ?h) \<subseteq> set ?h"
    by (rule set_take_subset, rule set_drop_subset)
  have cross: "\<forall>x \<in> set (take k ?h). \<forall>j \<in> set (drop k ?h). x < j"
    using srt sorted_wrt_append [of "(<)" "take k ?h" "drop k ?h"] by simp
  have "sorted_wrt (<) (drop k ?h @ [i])"
    using bd sub(2) sorted_wrt_drop [OF srt] by (auto simp: sorted_wrt_append)
  moreover have "in_range i" "(0, 0) < i"
    using i order_le_less_trans [OF zero_pos_le i(1)] by (simp_all add: in_range_def)
  ultimately have ids: "ids_ok (s\<lparr> held := drop k ?h @ [i], last_id := i, added := added s + 1,
      lost := lost s \<union> set (take k ?h) \<rparr>)"
    using inv bd sub unfolding stream_inv_def ids_ok_def by simp (blast intro: less_imp_le)
  have cnt: "counts_ok (s\<lparr> held := drop k ?h @ [i], last_id := i, added := added s + 1,
      lost := lost s \<union> set (take k ?h) \<rparr>)"
  proof (cases "lost s = {}")
    case True
    with inv k(2) show ?thesis by (cases "k = 0") (auto simp: stream_inv_def counts_ok_def)
  next
    case False
    with inv k(2) show ?thesis by (auto simp: stream_inv_def counts_ok_def)
  qed
  have len: "cap \<le> length (drop k ?h @ [i])" if "cap \<le> length ?h \<or> 0 < k"
    using that k by auto
  have "x \<le> deleted_mark s \<or> (\<forall>j \<in> set (drop k ?h @ [i]). x < j) \<and> cap \<le> length (drop k ?h @ [i])"
    if "x \<in> lost s \<union> set (take k ?h)" for x
  proof (cases "x \<in> set (take k ?h)")
    case True
    then have "0 < k" by (cases k) auto
    moreover have "x < i" using bd True sub(1) by blast
    ultimately show ?thesis using True cross len by simp
  next
    case False
    with that have "x \<in> lost s" by simp
    with inv have "x \<le> deleted_mark s \<or> (\<forall>j \<in> set ?h. x < j) \<and> cap \<le> length ?h"
      by (simp add: stream_inv_def losses_seen_def)
    moreover have "x < i" using bd \<open>x \<in> lost s\<close> by blast
    ultimately show ?thesis using sub(2) len by auto
  qed
  with ids cnt show ?thesis unfolding stream_inv_def losses_seen_def dr by simp
qed

lemma step_inv:
  assumes "mail_step cap s s'" "stream_inv cap s"
  shows "stream_inv cap s'"
  using assms(1)
proof cases
  case (add i k)
  show ?thesis unfolding add(1) by (rule add_inv [OF assms(2) add(2-)])
next
  case (sweep m)
  have "sorted_wrt (<) (held s)" using assms(2) by (simp add: stream_inv_def ids_ok_def)
  from age_sweep_spec [OF this] show ?thesis
    unfolding sweep by (rule sweep_inv [OF assms(2)])
next
  case (del ids)
  show ?thesis unfolding del by (rule sweep_inv [OF assms(2) xdel_spec])
qed

lemma reachable_inv: "mail_reachable cap s \<Longrightarrow> stream_inv cap s"
proof (induction rule: mail_reachable.induct)
  case start
  show ?case by (simp add: empty_stream_def stream_inv_def ids_ok_def counts_ok_def losses_seen_def)
qed (rule step_inv)

lemma nine_tenths_le: "nine_tenths cap \<le> cap"
proof -
  have "min (cap * 9) (2 ^ 64 - 1) div 10 \<le> cap * 9 div 10" by (intro div_le_mono) simp
  also have "\<dots> \<le> cap" by simp
  finally show ?thesis by (simp add: nine_tenths_def)
qed

lemma reported_deleted:
  assumes "stream_id after_id = Some a" "in_range (deleted_mark s)" "a < deleted_mark s"
  shows "mailbox_gap after_id (xinfo_of s) cap \<noteq> None"
proof -
  have "opt_id (max_deleted (xinfo_of s)) = Some (deleted_mark s)"
    using assms(2) by (simp add: xinfo_of_def opt_id_def in_range_def)
  moreover have "deleted_mark s \<noteq> (0, 0)"
    using assms(3) by (metis leD zero_pos_le)
  ultimately show ?thesis using assms(1,3) by (simp add: mailbox_gap_def Let_def)
qed

lemma reported_trimmed:
  assumes "stream_id after_id = Some a" "0 < cap" "cap \<le> length (held s)"
    and "length (held s) < added s" "\<forall>i \<in> set (held s). a < i \<and> in_range i"
  shows "mailbox_gap after_id (xinfo_of s) cap \<noteq> None"
proof -
  have cap: "nine_tenths cap \<le> stream_length (xinfo_of s)"
    using nine_tenths_le [of cap] assms(3) by (simp add: xinfo_of_def)
  have lost: "stream_length (xinfo_of s) < entries_added (xinfo_of s)"
    using assms(4) by (simp add: xinfo_of_def)
  have "case opt_id (first_entry (xinfo_of s)) of None \<Rightarrow> True | Some f \<Rightarrow> a < f"
    using assms(5) by (cases "held s") (auto simp: xinfo_of_def opt_id_def in_range_def)
  with assms(1,2) cap lost show ?thesis by (simp add: mailbox_gap_def Let_def)
qed


definition sample_swept :: mail_stream where
  "sample_swept = age_sweep (6, 0)
     (empty_stream\<lparr>held := [(5, 0), (6, 0)], last_id := (6, 0), added := Suc 1\<rparr>)"

lemma sample_swept_reachable: "mail_reachable 100 sample_swept"
proof -
  let ?s1 = "empty_stream\<lparr>held := [(5, 0)], last_id := (5, 0), added := 1\<rparr>"
  let ?s2 = "empty_stream\<lparr>held := [(5, 0), (6, 0)], last_id := (6, 0), added := Suc 1\<rparr>"
  have "mail_step 100 empty_stream ?s1"
    using mail_step.add [of empty_stream "(5, 0)" 0 100] by (simp add: empty_stream_def)
  moreover have "mail_step 100 ?s1 ?s2"
    using mail_step.add [of ?s1 "(6, 0)" 0 100] by (simp add: empty_stream_def)
  ultimately show ?thesis
    unfolding sample_swept_def by (meson mail_reachable.intros mail_step.sweep)
qed


end
