(* ===== verification/Pending_Messages.thy ===== *)
theory Pending_Messages
  imports Message_Stream Mailbox_Gap
begin

text \<open>
  \<open>GetPendingMessages\<close> (\<open>messaging-service/src/grpc.rs\<close>): one page of the mailbox per call,
  one cursor for both streams, and the gap report (\<open>MessageQueue::mailbox_gap\<close> of
  \<open>crates/construct-queue/src/lib.rs\<close>). A client that follows \<open>next_cursor\<close> while
  \<open>has_more\<close> is set receives everything after where it started.

  Authentication and the push marker are left out; \<open>xinfo\<close> is the answer of
  \<open>XINFO STREAM\<close>.
\<close>

record pending_message =
  pm_message_id :: string
  pm_sender_id :: string
  pm_encrypted_payload :: string
  pm_timestamp :: int
  pm_content_type :: int
  pm_sealed_inner_data :: string

record pending_response =
  pr_messages :: "pending_message list"
  next_cursor :: string
  pr_has_more :: bool
  pr_gap :: "mailbox_gap_report option"

record pending_world =
  mailbox :: mail_world
  xinfo :: "string \<Rightarrow> (string, redis_value) result"
  maxlen_standard :: int

section \<open>The gap check\<close>

definition missing_stream :: "string \<Rightarrow> bool" where
  "missing_stream err \<longleftrightarrow> sublist ''no such key'' (map ascii_lower err)"

fun gap_in_streams ::
    "pending_world \<Rightarrow> string \<Rightarrow> string list \<Rightarrow> (string, mailbox_gap_report option) result" where
  "gap_in_streams V since [] = Ok None"
| "gap_in_streams V since (k # ks) =
     (case xinfo V k of
        Ok info \<Rightarrow>
          (case mailbox_gap since (parse_xinfo_stream info) (nat (max (maxlen_standard V) 1)) of
             Some found \<Rightarrow> Ok (Some found)
           | None \<Rightarrow> gap_in_streams V since ks)
      | Err e \<Rightarrow> if missing_stream e then gap_in_streams V since ks
                 else Err ''XINFO STREAM failed'')"

definition queue_mailbox_gap ::
    "pending_world \<Rightarrow> string \<Rightarrow> string option \<Rightarrow> string
     \<Rightarrow> (string, mailbox_gap_report option) result" where
  "queue_mailbox_gap V user device since =
     gap_in_streams V since
       ((case named_device device of None \<Rightarrow> []
         | Some d \<Rightarrow> [device_stream_key (mailbox V) user d]) @
        [user_stream_key (mailbox V) user])"

section \<open>The handler\<close>

definition pending_limit :: "nat option \<Rightarrow> nat" where
  "pending_limit l = min (case l of None \<Rightarrow> 50 | Some n \<Rightarrow> n) 100"

definition pending_since :: "string option \<Rightarrow> string option" where
  "pending_since c =
     (case c of None \<Rightarrow> None
      | Some i \<Rightarrow> if i \<noteq> [] \<and> is_valid_redis_stream_cursor i then Some i else None)"

definition pending_of :: "message_envelope \<Rightarrow> pending_message option" where
  "pending_of e =
     (if message_type e = Receipt then None
      else Some \<lparr> pm_message_id = message_id e,
             pm_sender_id = (if is_sealed_sender e then [] else sender_id e),
             pm_encrypted_payload = (if is_sealed_sender e then [] else egress_payload e),
             pm_timestamp = timestamp e,
             pm_content_type = egress_content_type e,
             pm_sealed_inner_data =
               (if is_sealed_sender e then (case sealed_inner e of None \<Rightarrow> [] | Some b \<Rightarrow> b)
                else []) \<rparr>)"

definition pending_entry :: "entry \<Rightarrow> pending_message option" where
  "pending_entry x = (case snd x of None \<Rightarrow> None | Some e \<Rightarrow> pending_of e)"

definition get_pending_messages ::
    "pending_world \<Rightarrow> string \<Rightarrow> string option \<Rightarrow> string option \<Rightarrow> nat option
     \<Rightarrow> (string, pending_response) result" where
  "get_pending_messages V user device cursor lim =
     (let since = pending_since cursor in
      case read_mailbox_messages (mailbox V) user device since since (pending_limit lim) of
        Err e \<Rightarrow> Err (''Failed to read messages: '' @ e)
      | Ok page \<Rightarrow>
          Ok \<lparr> pr_messages = List.map_filter pending_entry (entries page),
               next_cursor = (case resume_after page since of None \<Rightarrow> ''0-0'' | Some i \<Rightarrow> i),
               pr_has_more = has_more page,
               pr_gap = (case since of None \<Rightarrow> None
                 | Some i \<Rightarrow> (case queue_mailbox_gap V user device i of
                               Ok g \<Rightarrow> g | Err _ \<Rightarrow> None)) \<rparr>)"

text \<open>A client that asks again from \<open>next_cursor\<close> while there is more.\<close>

partial_function (option) pending_all ::
    "pending_world \<Rightarrow> string \<Rightarrow> string option \<Rightarrow> nat option \<Rightarrow> string option
     \<Rightarrow> (string, pending_message list) result option" where
  "pending_all V user device lim cursor =
     (case get_pending_messages V user device cursor lim of
        Err e \<Rightarrow> Some (Err e)
      | Ok r \<Rightarrow>
          if pr_has_more r then
            Option.bind (pending_all V user device lim (Some (next_cursor r)))
              (\<lambda>rest. Some (map_sum id (\<lambda>ms. pr_messages r @ ms) rest))
          else Some (Ok (pr_messages r)))"

section \<open>The resume cursor\<close>

lemma max_by_pos:
  assumes "\<forall>x \<in> set xs. redis_id x" "max_by compare_stream_id_watermarks xs = Some m"
  shows "m \<in> set xs \<and> (\<forall>x \<in> set xs. pos x \<le> pos m)"
proof -
  let ?f = "\<lambda>m y. if compare_stream_id_watermarks m y = Greater then m else y"
  have "foldl ?f a ys \<in> insert a (set ys) \<and> (\<forall>x \<in> insert a (set ys). pos x \<le> pos (foldl ?f a ys))"
    if "redis_id a" "\<forall>y \<in> set ys. redis_id y" for a ys
    using that
  proof (induction ys arbitrary: a)
    case (Cons y ys)
    let ?b = "?f a y"
    have b: "redis_id ?b" "?b \<in> {a, y}" "pos a \<le> pos ?b" "pos y \<le> pos ?b"
      using Cons.prems by (auto simp: compare_watermarks_pos)
    from Cons.IH [of ?b] Cons.prems b(1) have
        "foldl ?f ?b ys \<in> insert ?b (set ys)" "\<forall>x \<in> insert ?b (set ys). pos x \<le> pos (foldl ?f ?b ys)"
      by simp_all
    with b(2-4) show ?case by (auto split del: if_split intro: order_trans)
  qed simp
  moreover obtain a ys where "xs = a # ys" using assms(2) by (cases xs) auto
  ultimately show ?thesis using assms by auto
qed

lemma redis_id_zero_zero: "redis_id ''0-0''" "pos ''0-0'' = (0, 0)"
proof -
  have "show_nat 0 = ''0''" by code_simp
  then have "''0-0'' = show_stream_id (0, 0)" by (simp add: show_stream_id_def)
  then show "redis_id ''0-0''" "pos ''0-0'' = (0, 0)" by simp_all
qed

definition next_of :: "mailbox_page \<Rightarrow> string option \<Rightarrow> string" where
  "next_of page since = (case resume_after page since of None \<Rightarrow> ''0-0'' | Some i \<Rightarrow> i)"

definition resume_points :: "mailbox_page \<Rightarrow> string option \<Rightarrow> string set" where
  "resume_points page since =
     {i. entries page \<noteq> [] \<and> i = fst (last (entries page))} \<union>
     {i. user_examined_through page = Some i} \<union> {i. since = Some i}"

lemma resume_after_pos:
  assumes "\<forall>x \<in> set (entries page). redis_id (fst x)" "cursor_ok (user_examined_through page)"
    and "cursor_ok since"
  shows "redis_id (next_of page since) \<and>
    (\<forall>i \<in> resume_points page since. pos i \<le> pos (next_of page since)) \<and>
    (next_of page since \<in> resume_points page since \<or>
       next_of page since = ''0-0'' \<and> resume_points page since = {})"
proof -
  define xs where "xs = List.map_filter id
    [if entries page = [] then None else Some (fst (last (entries page))),
     user_examined_through page, since]"
  have set: "set xs = resume_points page since"
    by (auto simp: resume_points_def List.map_filter_def xs_def)
  have ids: "\<forall>x \<in> set xs. redis_id x"
    using assms unfolding set by (auto simp: resume_points_def)
  have res: "resume_after page since = max_by compare_stream_id_watermarks xs"
    by (simp only: resume_after_def xs_def)
  show ?thesis
  proof (cases "max_by compare_stream_id_watermarks xs")
    case None
    then have "xs = []" by (cases xs) auto
    with set have "resume_points page since = {}" by simp
    with None show ?thesis by (simp add: next_of_def res redis_id_zero_zero)
  next
    case (Some m)
    from max_by_pos [OF ids Some] ids Some show ?thesis
      by (simp add: next_of_def res set [symmetric])
  qed
qed

lemma reaches_point:
  assumes "reaches (page_end page) w \<or> reaches (examined_end page) w"
  shows "\<exists>i \<in> resume_points page since. pos (fst w) \<le> pos i"
  using assms
proof
  assume "reaches (page_end page) w"
  then have "entries page \<noteq> []" "pos (fst w) \<le> pos (fst (last (entries page)))"
    by (simp_all add: reaches_def page_end_def split: if_splits)
  then show ?thesis by (auto simp: resume_points_def simp del: split_paired_Ex)
next
  assume "reaches (examined_end page) w"
  then show ?thesis
    by (cases "user_examined_through page") (auto simp: reaches_def examined_end_def resume_points_def)
qed

section \<open>Paging with one cursor\<close>

definition pending_read ::
    "pending_world \<Rightarrow> string \<Rightarrow> nat option \<Rightarrow> entry list \<Rightarrow> entry list \<Rightarrow> string option \<Rightarrow> mailbox_page"
  where
  "pending_read V reader lim D U since =
     merge_mailbox_pages (digest (mailbox V)) (map_order (mailbox V))
       (page_read (saturating_double (pending_limit lim)) (cursor_pos since) D)
       (page_read (saturating_double (pending_limit lim)) (cursor_pos since) U)
       (pending_limit lim) (saturating_double (pending_limit lim)) reader"

definition pending_streams_ok :: "pending_world \<Rightarrow> string \<Rightarrow> entry list \<Rightarrow> entry list \<Rightarrow> bool" where
  "pending_streams_ok V reader D U \<longleftrightarrow> stream_ok D \<and> stream_ok U \<and>
     clash_free (digest (mailbox V)) reader D U \<and> permutes_entries (map_order (mailbox V))"

lemma pending_since_ok: "cursor_ok c \<Longrightarrow> pending_since c = c"
  by (cases c) (auto simp: pending_since_def is_valid_redis_stream_cursor_def redis_id_def
      show_stream_id_def codec_simps)

lemma pending_step:
  assumes ok: "pending_streams_ok V reader D U" and c: "cursor_ok since"
    and lim: "0 < pending_limit lim"
  defines "page \<equiv> pending_read V reader lim D U since"
  shows "redis_id (next_of page since) \<and>
    (\<forall>x. live reader D U (cursor_pos since) (cursor_pos since) x \<and> snd x \<noteq> None \<longrightarrow>
       (\<exists>x'. entry_class (digest (mailbox V)) x' = entry_class (digest (mailbox V)) x \<and> snd x' \<noteq> None \<and>
          (x' \<in> set (entries page) \<or> has_more page \<and>
           live reader D U (pos (next_of page since)) (pos (next_of page since)) x'))) \<and>
    (has_more page \<longrightarrow>
       length (after (pos (next_of page since)) D) + length (after (pos (next_of page since)) U)
         < length (after (cursor_pos since) D) + length (after (cursor_pos since) U))"
proof -
  let ?n = "saturating_double (pending_limit lim)" and ?l = "pending_limit lim"
  let ?c = "cursor_pos since" and ?h = "digest (mailbox V)" and ?sh = "map_order (mailbox V)"
  let ?dm = "page_read ?n ?c D" and ?um = "page_read ?n ?c U"
  let ?P = "page_bound ?h ?sh ?dm ?um ?l ?n reader"
  have n: "0 < ?n" using lim by (simp add: saturating_double_def)
  have str: "stream_ok D" "stream_ok U" "clash_free ?h reader D U" "permutes_entries ?sh"
    using ok by (simp_all add: pending_streams_ok_def)
  have page: "page = merge_mailbox_pages ?h ?sh ?dm ?um ?l ?n reader"
    by (simp add: page_def pending_read_def)
  have rok: "reads_ok reader ?sh ?dm ?um" using str by (simp add: reads_ok_def stream_ok_read)
  have E: "redis_id i \<and> (\<forall>p. ?P = Some p \<longrightarrow> pos i \<le> p)" if "user_examined_through page = Some i" for i
    using examined_within [OF rok] that unfolding page by blast
  have L: "redis_id (fst x)" "\<not> beyond ?P x" if "x \<in> set (entries page)" for x
    using entries_live [OF str(1,2,4) refl refl] kept_bound [OF rok] that
    unfolding page page_entries by blast+
  have res: "redis_id (next_of page since)" "\<And>i. i \<in> resume_points page since \<Longrightarrow> pos i \<le> pos (next_of page since)"
      "next_of page since \<in> resume_points page since \<or>
       next_of page since = ''0-0'' \<and> resume_points page since = {}"
    using resume_after_pos [of page since] L(1) E c by (auto simp: cursor_ok_def split: option.split)
  have ge: "?c \<le> pos (next_of page since)"
    using res(2) by (cases since) (auto simp: resume_points_def)
  have le: "pos (next_of page since) \<le> max ?c p" if P: "?P = Some p" for p
  proof -
    have "pos (fst (last (entries page))) \<le> p" if "entries page \<noteq> []"
      using L(2) [of "last (entries page)"] that P by (simp add: beyond_def not_less)
    then have "pos i \<le> max ?c p" if "i \<in> resume_points page since" for i
      using that E P by (auto simp: resume_points_def le_max_iff_disj)
    with res(3) show ?thesis by (auto simp: redis_id_zero_zero)
  qed
  have cover: "\<exists>x'. entry_class ?h x' = entry_class ?h x \<and> snd x' \<noteq> None \<and>
      (x' \<in> set (entries page) \<or> has_more page \<and>
       live reader D U (pos (next_of page since)) (pos (next_of page since)) x')"
    if x: "live reader D U ?c ?c x" "snd x \<noteq> None" for x
  proof -
    obtain x' where x': "entry_class ?h x' = entry_class ?h x" "snd x' \<noteq> None"
        "x' \<in> set (entries page) \<or> live reader D U ?c ?c x' \<and> beyond ?P x'"
      using page_cover [OF str n lim x refl refl] unfolding page by blast
    have "has_more page \<and> live reader D U (pos (next_of page since)) (pos (next_of page since)) x'"
      if lv: "live reader D U ?c ?c x'" "beyond ?P x'"
    proof -
      from lv(2) obtain p where p: "?P = Some p" "p < pos (fst x')"
        by (auto simp: beyond_def split: option.splits)
      have "?c < pos (fst x')" using lv(1) by (auto simp: live_def)
      with le [OF p(1)] p(2) have "pos (next_of page since) < pos (fst x')"
        by (meson max_less_iff_conj order_le_less_trans)
      with lv(1) show ?thesis unfolding page page_has_more using p(1) by (auto simp: live_def)
    qed
    with x' show ?thesis by blast
  qed
  have "length (after (pos (next_of page since)) D) + length (after (pos (next_of page since)) U)
      < length (after ?c D) + length (after ?c U)" if more: "has_more page"
  proof -
    obtain w where w: "w \<in> set D \<or> w \<in> set U" "?c < pos (fst w)"
        "reaches (page_end page) w \<or> reaches (examined_end page) w"
      using page_progress [OF str(1,2,4) n lim refl refl page more] by blast
    from reaches_point [OF w(3)] obtain i where "i \<in> resume_points page since" "pos (fst w) \<le> pos i"
      by blast
    with res(2) have "pos (fst w) \<le> pos (next_of page since)" by (meson order_trans)
    with w after_shrinks [of w D ?c] after_shrinks [of w U ?c] after_mono [OF ge, of D]
      after_mono [OF ge, of U] show ?thesis by (meson add_le_less_mono add_less_le_mono)
  qed
  with res(1) cover show ?thesis by blast
qed

lemma get_pending_page:
  assumes "mailbox_snapshot (mailbox V) user reader rawD rawU" "cursor_ok since"
    and "0 < pending_limit lim" "reader \<noteq> []"
  defines "page \<equiv> pending_read V reader lim (map (stored_entry (mailbox V) user) rawD)
    (map (stored_entry (mailbox V) user) rawU) since"
  shows "\<exists>r. get_pending_messages V user (Some reader) since lim = Ok r \<and>
    pr_messages r = List.map_filter pending_entry (entries page) \<and>
    next_cursor r = next_of page since \<and> pr_has_more r = has_more page"
  using assms read_mailbox_page [of "mailbox V" user reader rawD rawU since since "pending_limit lim"]
  by (simp add: get_pending_messages_def pending_since_ok mailbox_snapshot_def pending_read_def
      next_of_def)

lemma pending_all_complete:
  assumes snap: "mailbox_snapshot (mailbox V) user reader rawD rawU"
    and lim: "0 < pending_limit lim" and reader: "reader \<noteq> []" and c: "cursor_ok since"
    and D: "D = map (stored_entry (mailbox V) user) rawD"
    and U: "U = map (stored_entry (mailbox V) user) rawU"
  shows "\<exists>ms. pending_all V user (Some reader) lim since = Some (Ok ms) \<and>
    (\<forall>x. live reader D U (cursor_pos since) (cursor_pos since) x \<and> snd x \<noteq> None \<longrightarrow>
       (\<exists>x'. entry_class (digest (mailbox V)) x' = entry_class (digest (mailbox V)) x \<and> snd x' \<noteq> None \<and>
          (pending_entry x' = None \<or> pending_entry x' \<in> Some ` set ms)))"
  using c
proof (induction "length (after (cursor_pos since) D) + length (after (cursor_pos since) U)"
    arbitrary: since rule: less_induct)
  case less
  let ?page = "pending_read V reader lim D U since" and ?h = "digest (mailbox V)"
  let ?next = "next_of ?page since"
  have ok: "pending_streams_ok V reader D U"
    using snap by (simp add: pending_streams_ok_def mailbox_snapshot_def D U)
  note st = pending_step [OF ok less.prems lim]
  obtain r where r: "get_pending_messages V user (Some reader) since lim = Ok r"
      "pr_messages r = List.map_filter pending_entry (entries ?page)"
      "next_cursor r = ?next" "pr_has_more r = has_more ?page"
    using get_pending_page [OF snap less.prems lim reader] unfolding D U by blast
  have here: "pending_entry x = None \<or> pending_entry x \<in> Some ` set (pr_messages r)"
    if "x \<in> set (entries ?page)" for x
    using that unfolding r(2) by (cases "pending_entry x") (force simp: List.map_filter_def)+
  show ?case
  proof (cases "has_more ?page")
    case False
    then have "pending_all V user (Some reader) lim since = Some (Ok (pr_messages r))"
      using r by (subst pending_all.simps) simp
    moreover have "\<forall>x. live reader D U (cursor_pos since) (cursor_pos since) x \<and> snd x \<noteq> None \<longrightarrow>
       (\<exists>x'. entry_class ?h x' = entry_class ?h x \<and> snd x' \<noteq> None \<and> x' \<in> set (entries ?page))"
      using st False by blast
    ultimately show ?thesis using here by blast
  next
    case True
    with st have "cursor_ok (Some ?next)" and smaller:
        "length (after (cursor_pos (Some ?next)) D) + length (after (cursor_pos (Some ?next)) U)
          < length (after (cursor_pos since) D) + length (after (cursor_pos since) U)"
      by simp_all
    then obtain ms where ms: "pending_all V user (Some reader) lim (Some ?next) = Some (Ok ms)"
      and cov: "\<And>x. live reader D U (pos ?next) (pos ?next) x \<Longrightarrow> snd x \<noteq> None \<Longrightarrow>
         \<exists>x'. entry_class ?h x' = entry_class ?h x \<and> snd x' \<noteq> None \<and>
          (pending_entry x' = None \<or> pending_entry x' \<in> Some ` set ms)"
      using less.hyps [OF smaller] by auto
    have "pending_all V user (Some reader) lim since = Some (Ok (pr_messages r @ ms))"
      using r True ms by (subst pending_all.simps) simp
    moreover have "\<exists>x'. entry_class ?h x' = entry_class ?h x \<and> snd x' \<noteq> None \<and>
          (pending_entry x' = None \<or> pending_entry x' \<in> Some ` set (pr_messages r @ ms))"
      if lv: "live reader D U (cursor_pos since) (cursor_pos since) x" "snd x \<noteq> None" for x
    proof -
      obtain x' where x': "entry_class ?h x' = entry_class ?h x" "snd x' \<noteq> None"
          "x' \<in> set (entries ?page) \<or> live reader D U (pos ?next) (pos ?next) x'"
        using st lv by blast
      show ?thesis
      proof (cases "x' \<in> set (entries ?page)")
        case True
        with here x' show ?thesis unfolding set_append image_Un by blast
      next
        case False
        with x' cov [of x'] show ?thesis unfolding set_append image_Un by auto
      qed
    qed
    ultimately show ?thesis by blast
  qed
qed


definition sample_pending_world :: pending_world where
  "sample_pending_world =
     \<lparr> mailbox = sample_mail_world, xinfo = (\<lambda>_. Err ''ERR no such key''), maxlen_standard = 10000 \<rparr>"


end
