(* ===== verification/Mailbox_Sweep.thy ===== *)
theory Mailbox_Sweep
  imports Mailbox_Gap
begin

text \<open>
  The age sweep of \<open>crates/construct-queue/src/delivery.rs\<close> as the code runs it:
  \<open>trim_streams_by_age\<close> scans the mailbox keys, trims each stream and records the newest id it
  removed with \<open>record_deleted\<close>. The stream commands of Redis are operations on an abstract
  server state; the refinement shows that one key's sweep is the step \<open>age_sweep\<close> of
  \<open>Mailbox_Gap\<close>.
\<close>

record 's stream_server =
  xinfo_stream :: "'s \<Rightarrow> string \<Rightarrow> (string, redis_value) result"
  xrevrange_one :: "'s \<Rightarrow> string \<Rightarrow> string \<Rightarrow> (string, redis_value) result"
  xtrim :: "'s \<Rightarrow> string \<Rightarrow> string \<Rightarrow> 's \<times> (string, nat) result"
  xsetid :: "'s \<Rightarrow> string \<Rightarrow> string \<Rightarrow> string \<Rightarrow> 's \<times> (string, unit) result"
  scan :: "'s \<Rightarrow> nat \<Rightarrow> string \<Rightarrow> (string, nat \<times> string list) result"

text \<open>\<open>Option\<close> is ordered with \<open>None\<close> first.\<close>

definition opt_ge :: "('a::linorder) option \<Rightarrow> 'a option \<Rightarrow> bool" where
  "opt_ge a b = (case b of None \<Rightarrow> True
                 | Some y \<Rightarrow> (case a of None \<Rightarrow> False | Some x \<Rightarrow> y \<le> x))"

fun record_deleted_tries ::
    "nat \<Rightarrow> 's stream_server \<Rightarrow> string \<Rightarrow> string \<Rightarrow> 's \<Rightarrow> 's \<times> (string, unit) result" where
  "record_deleted_tries 0 S key removed s = (s, Err ''XSETID did not take'')"
| "record_deleted_tries (Suc n) S key removed s =
     (case xinfo_stream S s key of
        Err e \<Rightarrow> (s, Err ''XINFO STREAM failed'')
      | Ok reply \<Rightarrow>
          let stream = parse_xinfo_stream reply in
          (case last_generated stream of
             None \<Rightarrow> (s, Ok ())
           | Some last_gen \<Rightarrow>
               if opt_ge (opt_id (max_deleted stream)) (stream_id removed) then (s, Ok ())
               else (case xsetid S s key last_gen removed of
                       (s', Ok _) \<Rightarrow> (s', Ok ())
                     | (s', Err _) \<Rightarrow> record_deleted_tries n S key removed s')))"

definition record_deleted ::
    "'s stream_server \<Rightarrow> string \<Rightarrow> string \<Rightarrow> 's \<Rightarrow> 's \<times> (string, unit) result" where
  "record_deleted S key removed s = record_deleted_tries 2 S key removed s"

definition sweep_key :: "'s stream_server \<Rightarrow> string \<Rightarrow> string \<Rightarrow> 's \<Rightarrow> 's \<times> nat" where
  "sweep_key S minid key s =
     (let newest_removed = (case xrevrange_one S s key (CHR ''('' # minid) of
                              Ok v \<Rightarrow> first_entry_id v | Err _ \<Rightarrow> None);
          (s1, r) = xtrim S s key minid;
          trimmed = (case r of Ok n \<Rightarrow> n | Err _ \<Rightarrow> 0)
      in case newest_removed of
           Some removed \<Rightarrow>
             if 0 < trimmed then (fst (record_deleted S key removed s1), trimmed)
             else (s1, trimmed)
         | None \<Rightarrow> (s1, trimmed))"

fun sweep_keys :: "'s stream_server \<Rightarrow> string \<Rightarrow> string list \<Rightarrow> 's \<Rightarrow> nat \<Rightarrow> 's \<times> nat" where
  "sweep_keys S minid [] s acc = (s, acc)"
| "sweep_keys S minid (k # ks) s acc =
     (let (s', n) = sweep_key S minid k s in sweep_keys S minid ks s' (acc + n))"

partial_function (option) sweep_scan ::
    "'s stream_server \<Rightarrow> string \<Rightarrow> string \<Rightarrow> nat \<Rightarrow> 's \<Rightarrow> nat \<Rightarrow> ('s \<times> (string, nat) result) option"
  where
  "sweep_scan S pattern minid cursor s acc =
     (case scan S s cursor pattern of
        Err e \<Rightarrow> Some (s, Err ''SCAN failed'')
      | Ok p \<Rightarrow>
          let (s', acc') = sweep_keys S minid (snd p) s acc in
          if fst p = 0 then Some (s', Ok acc')
          else sweep_scan S pattern minid (fst p) s' acc')"

definition sweep_minid :: "nat \<Rightarrow> nat \<Rightarrow> string" where
  "sweep_minid now_ms max_age_seconds = show_stream_id (now_ms - max_age_seconds * 1000, 0)"

definition trim_streams_by_age ::
    "'s stream_server \<Rightarrow> string \<Rightarrow> nat \<Rightarrow> nat \<Rightarrow> 's \<Rightarrow> ('s \<times> (string, nat) result) option" where
  "trim_streams_by_age S prefix now_ms max_age_seconds s =
     sweep_scan S (prefix @ '':offline:*'') (sweep_minid now_ms max_age_seconds) 0 s 0"

section \<open>What Redis documents\<close>

type_synonym keyspace = "string \<rightharpoonup> mail_stream"

definition newest_before :: "nat \<times> nat \<Rightarrow> mail_stream \<Rightarrow> string option" where
  "newest_before p m =
     (let old = filter (\<lambda>i. i < p) (held m)
      in if old = [] then None else Some (show_stream_id (last old)))"

text \<open>
  For every key that holds a stream: \<open>XINFO STREAM\<close> describes it; \<open>XREVRANGE key (id -
  COUNT 1\<close> answers the newest entry before the id; \<open>XTRIM MINID\<close> removes the older entries
  and counts them; \<open>XSETID key last MAXDELETEDID id\<close> sets the mark when \<open>last\<close> is the
  stream's last id.
\<close>

definition stream_server_ok :: "'s stream_server \<Rightarrow> ('s \<Rightarrow> keyspace) \<Rightarrow> bool" where
  "stream_server_ok S view \<longleftrightarrow>
     (\<forall>s key m. view s key = Some m \<longrightarrow>
        (\<exists>r. xinfo_stream S s key = Ok r \<and> parse_xinfo_stream r = xinfo_of m) \<and>
        (\<forall>p. in_range p \<longrightarrow>
           (\<exists>r. xrevrange_one S s key (CHR ''('' # show_stream_id p) = Ok r \<and>
                first_entry_id r = newest_before p m) \<and>
           (\<exists>s'. xtrim S s key (show_stream_id p)
                  = (s', Ok (length (filter (\<lambda>i. i < p) (held m)))) \<and>
                view s' = (view s)(key \<mapsto> xtrim_minid p m)) \<and>
           (\<exists>s'. xsetid S s key (show_stream_id (last_id m)) (show_stream_id p) = (s', Ok ()) \<and>
                view s' = (view s)(key \<mapsto> m\<lparr>deleted_mark := p\<rparr>))))"

section \<open>The sweep refines its specification\<close>

lemma record_deleted_raises:
  assumes S: "stream_server_ok S view" and m: "view s key = Some m"
    and p: "in_range p" and mark: "in_range (deleted_mark m)"
  shows "\<exists>s'. record_deleted S key (show_stream_id p) s = (s', Ok ()) \<and>
    view s' = (view s)(key \<mapsto> (if p \<le> deleted_mark m then m else m\<lparr>deleted_mark := p\<rparr>))"
proof -
  obtain r where r: "xinfo_stream S s key = Ok r" "parse_xinfo_stream r = xinfo_of m"
    using S m unfolding stream_server_ok_def by blast
  obtain s' where s': "xsetid S s key (show_stream_id (last_id m)) (show_stream_id p) = (s', Ok ())"
      "view s' = (view s)(key \<mapsto> m\<lparr>deleted_mark := p\<rparr>)"
    using S m p unfolding stream_server_ok_def by blast
  have ge: "opt_ge (opt_id (max_deleted (xinfo_of m))) (stream_id (show_stream_id p))
      \<longleftrightarrow> p \<le> deleted_mark m"
    using p mark by (simp add: xinfo_of_def opt_id_def opt_ge_def in_range_def)
  have lastg: "last_generated (xinfo_of m) = Some (show_stream_id (last_id m))"
    by (simp add: xinfo_of_def)
  show ?thesis
  proof (cases "p \<le> deleted_mark m")
    case True
    then have "record_deleted S key (show_stream_id p) s = (s, Ok ())"
      by (simp add: record_deleted_def numeral_2_eq_2 r ge lastg)
    with True m show ?thesis by (simp add: map_upd_triv)
  next
    case False
    then have "record_deleted S key (show_stream_id p) s = (s', Ok ())"
      by (simp add: record_deleted_def numeral_2_eq_2 r ge lastg s')
    with False s' show ?thesis by simp
  qed
qed


section \<open>A server that behaves as documented\<close>

definition info_reply :: "stream_info \<Rightarrow> redis_value" where
  "info_reply i =
     MapValue
       [(SimpleString ''length'', IntValue (int (stream_length i))),
        (SimpleString ''entries-added'', IntValue (int (entries_added i))),
        (SimpleString ''last-generated-id'',
           (case last_generated i of None \<Rightarrow> NilValue | Some x \<Rightarrow> SimpleString x)),
        (SimpleString ''max-deleted-entry-id'',
           (case max_deleted i of None \<Rightarrow> NilValue | Some x \<Rightarrow> SimpleString x)),
        (SimpleString ''first-entry'',
           (case first_entry i of None \<Rightarrow> NilValue | Some x \<Rightarrow> ArrayValue [SimpleString x]))]"

definition on_stream :: "keyspace \<Rightarrow> string \<Rightarrow> (mail_stream \<Rightarrow> (string, 'a) result) \<Rightarrow> (string, 'a) result" where
  "on_stream ks key f = (case ks key of None \<Rightarrow> Err ''ERR no such key'' | Some m \<Rightarrow> f m)"

definition id_arg :: "string \<Rightarrow> nat \<times> nat" where
  "id_arg i = (case stream_id i of Some p \<Rightarrow> p | None \<Rightarrow> (0, 0))"

definition sample_server :: "keyspace stream_server" where
  "sample_server =
     \<lparr> xinfo_stream = (\<lambda>ks key. on_stream ks key (\<lambda>m. Ok (info_reply (xinfo_of m)))),
       xrevrange_one = (\<lambda>ks key bound. on_stream ks key (\<lambda>m. Ok
         (case newest_before (id_arg (tl bound)) m of
            None \<Rightarrow> ArrayValue [] | Some i \<Rightarrow> ArrayValue [ArrayValue [SimpleString i]]))),
       xtrim = (\<lambda>ks key i.
         case ks key of None \<Rightarrow> (ks, Ok 0)
         | Some m \<Rightarrow> (ks(key \<mapsto> xtrim_minid (id_arg i) m),
                      Ok (length (filter (\<lambda>x. x < id_arg i) (held m))))),
       xsetid = (\<lambda>ks key last_gen d.
         case ks key of None \<Rightarrow> (ks, Err ''ERR no such key'')
         | Some m \<Rightarrow> (ks(key \<mapsto> m\<lparr>deleted_mark := id_arg d\<rparr>), Ok ())),
       scan = (\<lambda>ks cursor pattern. Ok (0, [])) \<rparr>"

lemma parse_info_reply:
  "parse_xinfo_stream (info_reply (xinfo_of m)) = xinfo_of m"
  by (simp add: parse_xinfo_stream_def info_reply_def reply_pairs_def info_field_def text_value_def
      int_value_def first_text_def xinfo_of_def split: list.split)

lemma sample_server_ok: "stream_server_ok sample_server (\<lambda>ks. ks)"
  unfolding stream_server_ok_def
  by (auto simp: sample_server_def on_stream_def parse_info_reply id_arg_def in_range_def
      first_entry_id_def first_text_def text_value_def split: option.split)


end
