(* ===== verification/Dispatch.thy ===== *)
theory Dispatch
  imports Mailbox_Read
begin

text \<open>
  Writing a message: \<open>dispatch_envelope\<close> of \<open>messaging-service/src/core.rs\<close> and the mailbox
  fan-out \<open>write_message_to_device_streams\<close> of \<open>crates/construct-queue/src/lib.rs\<close> with the
  stream writers, the presence read and the deduplication marks of \<open>delivery.rs\<close>.

  Redis is an abstract state with the commands the code sends; Postgres is asked for blocks and
  for the devices of an account; \<open>uuid\<close> parsing and MessagePack encoding are parameters.
  Logging and metrics are left out; a wake push is returned as a request to push.
\<close>

record 's mail_server =
  xadd :: "'s \<Rightarrow> string \<Rightarrow> int \<Rightarrow> (string \<times> string) list \<Rightarrow> 's \<times> (string, string) result"
  publish :: "'s \<Rightarrow> string \<Rightarrow> string \<Rightarrow> 's"
  key_exists :: "'s \<Rightarrow> string \<Rightarrow> (string, bool) result"
  set_ex :: "'s \<Rightarrow> string \<Rightarrow> string \<Rightarrow> nat \<Rightarrow> 's \<times> (string, unit) result"
  get_string :: "'s \<Rightarrow> string \<Rightarrow> (string, string option) result"

record dispatch_world =
  mail_keys :: mail_world
  to_vec_named :: "message_envelope \<Rightarrow> string option"
  parse_uuid :: "string \<Rightarrow> string option"
  is_blocked_by :: "string \<Rightarrow> string \<Rightarrow> (string, bool) result"
  devices_by_user :: "string \<Rightarrow> (string, string list) result"
  mailbox_user_write :: bool
  queue_maxlen_standard :: int
  user_key_prefix :: string

section \<open>Stream writes\<close>

definition mailbox_maxlen :: "dispatch_world \<Rightarrow> int" where
  "mailbox_maxlen V = max (queue_maxlen_standard V) 1"

definition write_message ::
    "'s mail_server \<Rightarrow> dispatch_world \<Rightarrow> string \<Rightarrow> message_envelope \<Rightarrow> 's
     \<Rightarrow> 's \<times> (string, string) result" where
  "write_message S V key e s =
     (case to_vec_named V e of
        None \<Rightarrow> (s, Err ''Failed to serialize MessageEnvelope to MessagePack'')
      | Some payload \<Rightarrow>
          xadd S s key (mailbox_maxlen V)
            [(''message_id'', message_id e), (''payload'', payload)])"

definition write_message_to_user_stream ::
    "'s mail_server \<Rightarrow> dispatch_world \<Rightarrow> string \<Rightarrow> message_envelope \<Rightarrow> 's
     \<Rightarrow> 's \<times> (string, string) result" where
  "write_message_to_user_stream S V user e s =
     write_message S V (user_stream_key (mail_keys V) user) e s"

definition write_message_to_device_stream ::
    "'s mail_server \<Rightarrow> dispatch_world \<Rightarrow> string \<Rightarrow> string \<Rightarrow> message_envelope \<Rightarrow> 's
     \<Rightarrow> 's \<times> (string, unit) result" where
  "write_message_to_device_stream S V user device e s =
     (case write_message S V (device_stream_key (mail_keys V) user device) e s of
        (s', Ok _) \<Rightarrow> (s', Ok ()) | (s', Err x) \<Rightarrow> (s', Err x))"

definition publish_inbox_wakeup :: "'s mail_server \<Rightarrow> string \<Rightarrow> 's \<Rightarrow> 's" where
  "publish_inbox_wakeup S user s = publish S s (''inbox:wakeup:'' @ user) ''1''"

fun write_devices ::
    "'s mail_server \<Rightarrow> dispatch_world \<Rightarrow> string \<Rightarrow> message_envelope \<Rightarrow> string list \<Rightarrow> nat \<Rightarrow> 's
     \<Rightarrow> 's \<times> nat" where
  "write_devices S V user e [] writes_ok s = (s, writes_ok)"
| "write_devices S V user e (d # ds) writes_ok s =
     (case write_message_to_device_stream S V user d e s of
        (s', Ok _) \<Rightarrow> write_devices S V user e ds (writes_ok + 1) s'
      | (s', Err _) \<Rightarrow> write_devices S V user e ds writes_ok s')"

definition write_message_to_device_streams ::
    "'s mail_server \<Rightarrow> dispatch_world \<Rightarrow> string \<Rightarrow> string list \<Rightarrow> message_envelope \<Rightarrow> 's
     \<Rightarrow> 's \<times> (string, unit) result" where
  "write_message_to_device_streams S V user devices e s =
     (let (s1, user_copy) =
            (if mailbox_user_write V then write_message_to_user_stream S V user e s
             else (s, Ok []))
      in case user_copy of
           Err x \<Rightarrow> (s1, Err x)
         | Ok _ \<Rightarrow>
             let (s2, writes_ok) = write_devices S V user e devices 0 s1 in
             if \<not> mailbox_user_write V \<and> writes_ok = 0
             then (s2, Err ''No mailbox to write'')
             else (publish_inbox_wakeup S user s2, Ok ()))"

section \<open>Dispatch\<close>

definition fetch_recipient_device_ids :: "dispatch_world \<Rightarrow> string \<Rightarrow> string list" where
  "fetch_recipient_device_ids V recipient =
     (case parse_uuid V recipient of
        None \<Rightarrow> []
      | Some uid \<Rightarrow> (case devices_by_user V uid of Ok ds \<Rightarrow> ds | Err _ \<Rightarrow> []))"

definition is_user_message :: "message_envelope \<Rightarrow> bool" where
  "is_user_message e \<longleftrightarrow> message_type e \<in> {DirectMessage, MLSMessage, SenderSync}"

definition is_message_duplicate :: "'s mail_server \<Rightarrow> string \<Rightarrow> 's \<Rightarrow> (string, bool) result" where
  "is_message_duplicate S key s = key_exists S s key"

definition mark_message_dispatched ::
    "'s mail_server \<Rightarrow> string \<Rightarrow> 's \<Rightarrow> 's \<times> (string, unit) result" where
  "mark_message_dispatched S key s = set_ex S s key ''1'' (24 * 60 * 60)"

definition get_user_server_instance ::
    "'s mail_server \<Rightarrow> dispatch_world \<Rightarrow> string \<Rightarrow> 's \<Rightarrow> (string, string option) result" where
  "get_user_server_instance S V user s =
     get_string S s (user_key_prefix V @ user @ '':server_instance_id'')"

definition blocked :: "dispatch_world \<Rightarrow> message_envelope \<Rightarrow> bool" where
  "blocked V e =
     (case (parse_uuid V (sender_id e), parse_uuid V (recipient_id e)) of
        (Some su, Some ru) \<Rightarrow> is_blocked_by V ru su = Ok True
      | _ \<Rightarrow> False)"

record wake_push =
  push_user :: string
  push_announce :: bool

definition dispatch_key :: "dispatch_world \<Rightarrow> message_envelope \<Rightarrow> string" where
  "dispatch_key V e =
     dedup_key_new (digest (mail_keys V)) (sender_id e) (recipient_id e) (recipient_device e)
       (message_id e)"

definition wake_for ::
    "'s mail_server \<Rightarrow> dispatch_world \<Rightarrow> bool \<Rightarrow> message_envelope \<Rightarrow> 's \<Rightarrow> wake_push option" where
  "wake_for S V notify e s =
     (let online = (case get_user_server_instance S V (recipient_id e) s of
                      Ok (Some _) \<Rightarrow> True | _ \<Rightarrow> False)
      in if notify \<and> should_send_wake_push online then
           (case parse_uuid V (recipient_id e) of
              None \<Rightarrow> None
            | Some uid \<Rightarrow> Some \<lparr> push_user = uid,
                push_announce = push_announces (sender_id e) (recipient_id e) \<rparr>)
         else None)"

definition dispatch_envelope ::
    "'s mail_server \<Rightarrow> dispatch_world \<Rightarrow> bool \<Rightarrow> message_envelope \<Rightarrow> 's
     \<Rightarrow> 's \<times> (string, unit) result \<times> wake_push option" where
  "dispatch_envelope S V notify e s =
     (if is_user_message e \<and> is_message_duplicate S (dispatch_key V e) s = Ok True
      then (s, Ok (), None)
      else if is_user_message e \<and> blocked V e then (s, Ok (), None)
      else
        let active = fetch_recipient_device_ids V (recipient_id e);
            (targets, routing) = select_target_devices active (recipient_device e)
        in case write_message_to_device_streams S V (recipient_id e) targets e s of
             (s1, Err x) \<Rightarrow> (s1, Err (''Failed to deliver message: '' @ x), None)
           | (s1, Ok _) \<Rightarrow>
               let s2 = (if is_user_message e
                         then fst (mark_message_dispatched S (dispatch_key V e) s1) else s1)
               in (s2, Ok (), wake_for S V notify e s2))"

section \<open>What Redis documents\<close>

text \<open>
  Two observations of the state: the entries of a stream, and whether a key exists. A command
  that answers an error may or may not have taken effect. \<open>XADD\<close> appends an entry with the
  given fields (its trimming drops older ones) and leaves other streams and the marks alone;
  \<open>PUBLISH\<close> changes neither; \<open>SETEX\<close> makes its key exist and changes no stream and no other
  key.
\<close>

definition xadd_effect ::
    "('s \<Rightarrow> string \<Rightarrow> binary_entry list) \<Rightarrow> ('s \<Rightarrow> string \<Rightarrow> bool) \<Rightarrow> 's \<Rightarrow> string
     \<Rightarrow> (string \<times> string) list \<Rightarrow> 's \<Rightarrow> (string, string) result \<Rightarrow> bool" where
  "xadd_effect streams marks s key fs s' r \<longleftrightarrow>
     (\<forall>k. k \<noteq> key \<longrightarrow> streams s' k = streams s k) \<and>
     (\<forall>k. k \<noteq> key \<longrightarrow> marks s' k = marks s k) \<and>
     (case r of
        Ok i \<Rightarrow> (\<exists>k. streams s' key = drop k (streams s key) @ [(i, map_of fs)])
      | Err _ \<Rightarrow> streams s' key = streams s key \<or>
          (\<exists>i k. streams s' key = drop k (streams s key) @ [(i, map_of fs)]))"

definition set_ex_effect ::
    "('s \<Rightarrow> string \<Rightarrow> binary_entry list) \<Rightarrow> ('s \<Rightarrow> string \<Rightarrow> bool) \<Rightarrow> 's \<Rightarrow> string \<Rightarrow> 's
     \<Rightarrow> (string, unit) result \<Rightarrow> bool" where
  "set_ex_effect streams marks s key s' r \<longleftrightarrow>
     streams s' = streams s \<and> (\<forall>k. k \<noteq> key \<longrightarrow> marks s' k = marks s k) \<and>
     (case r of Ok _ \<Rightarrow> marks s' key | Err _ \<Rightarrow> marks s key \<longrightarrow> marks s' key)"

definition mail_server_ok ::
    "'s mail_server \<Rightarrow> ('s \<Rightarrow> string \<Rightarrow> binary_entry list) \<Rightarrow> ('s \<Rightarrow> string \<Rightarrow> bool) \<Rightarrow> bool" where
  "mail_server_ok S streams marks \<longleftrightarrow>
     (\<forall>s key n fs s' r. xadd S s key n fs = (s', r) \<longrightarrow> xadd_effect streams marks s key fs s' r) \<and>
     (\<forall>s c m. streams (publish S s c m) = streams s \<and> marks (publish S s c m) = marks s) \<and>
     (\<forall>s key b. key_exists S s key = Ok b \<longrightarrow> b = marks s key) \<and>
     (\<forall>s key v n s' r. set_ex S s key v n = (s', r) \<longrightarrow> set_ex_effect streams marks s key s' r)"

text \<open>What is encoded is decoded to the same envelope (MessagePack with named fields).\<close>

definition encodes :: "dispatch_world \<Rightarrow> message_envelope \<Rightarrow> bool" where
  "encodes V e \<longleftrightarrow> from_utf8 (message_id e) = Some (message_id e) \<and>
     (\<forall>p. to_vec_named V e = Some p \<longrightarrow> from_slice (mail_keys V) p = Some e)"

definition holds_envelope ::
    "('s \<Rightarrow> string \<Rightarrow> binary_entry list) \<Rightarrow> dispatch_world \<Rightarrow> 's \<Rightarrow> string \<Rightarrow> message_envelope \<Rightarrow> bool" where
  "holds_envelope streams V s key e \<longleftrightarrow>
     (\<exists>x \<in> set (streams s key). parse_entry (mail_keys V) (recipient_id e) x = (fst x, Some e))"

section \<open>Writes land\<close>

lemma parse_written:
  assumes "encodes V e" "to_vec_named V e = Some p"
  shows "parse_entry (mail_keys V) (recipient_id e)
    (i, map_of [(''message_id'', message_id e), (''payload'', p)]) = (i, Some e)"
  using assms by (simp add: parse_entry_def parse_stream_message_def encodes_def)

lemma write_message_effect:
  assumes S: "mail_server_ok S streams marks" and e: "encodes V e"
    and w: "write_message S V key e s = (s', r)"
  shows "(\<forall>k. k \<noteq> key \<longrightarrow> streams s' k = streams s k \<and> marks s' k = marks s k) \<and>
    (holds_envelope streams V s key e \<or> (\<exists>i. r = Ok i) \<longrightarrow> holds_envelope streams V s' key e)"
proof (cases "to_vec_named V e")
  case None
  with w show ?thesis by (auto simp: write_message_def)
next
  case (Some p)
  let ?fs = "[(''message_id'', message_id e), (''payload'', p)]"
  from w Some have x: "xadd S s key (mailbox_maxlen V) ?fs = (s', r)" by (simp add: write_message_def)
  have law: "(\<forall>k. k \<noteq> key \<longrightarrow> streams s' k = streams s k) \<and> (\<forall>k. k \<noteq> key \<longrightarrow> marks s' k = marks s k) \<and>
      (case r of
         Ok i \<Rightarrow> (\<exists>k. streams s' key = drop k (streams s key) @ [(i, map_of ?fs)])
       | Err _ \<Rightarrow> streams s' key = streams s key \<or>
           (\<exists>i k. streams s' key = drop k (streams s key) @ [(i, map_of ?fs)]))"
    using S x unfolding mail_server_ok_def xadd_effect_def [symmetric] by blast
  have new: "holds_envelope streams V s' key e"
    if "streams s' key = drop k (streams s key) @ [(i, map_of ?fs)]" for k i
    unfolding holds_envelope_def that using parse_written [OF e Some, of i] by auto
  have "holds_envelope streams V s' key e" if "holds_envelope streams V s key e \<or> (\<exists>i. r = Ok i)"
  proof (cases "streams s' key = streams s key")
    case True
    with that law new show ?thesis
      by (cases r) (auto simp: holds_envelope_def)
  qed (use law new in \<open>auto split: sum.splits\<close>)
  with law show ?thesis by blast
qed

lemma device_key_inj [simp]:
  "device_stream_key W u d = device_stream_key W u d' \<longleftrightarrow> d = d'"
  by (simp add: device_stream_key_def)

lemma user_key_not_device [simp]: "user_stream_key W u \<noteq> device_stream_key W u d"
  by (simp add: user_stream_key_def device_stream_key_def)

definition mailbox_keys :: "dispatch_world \<Rightarrow> string \<Rightarrow> string set" where
  "mailbox_keys V u =
     insert (user_stream_key (mail_keys V) u) (range (device_stream_key (mail_keys V) u))"

lemma write_device_effect:
  assumes S: "mail_server_ok S streams marks" and e: "encodes V e"
    and w: "write_message_to_device_stream S V u d e s = (s', r)"
  shows "(\<forall>k. k \<notin> mailbox_keys V u \<longrightarrow> marks s' k = marks s k) \<and>
    (\<forall>k. holds_envelope streams V s k e \<longrightarrow> holds_envelope streams V s' k e) \<and>
    (r = Ok () \<longrightarrow> holds_envelope streams V s' (device_stream_key (mail_keys V) u d) e)"
proof -
  let ?k = "device_stream_key (mail_keys V) u d"
  obtain r' where r': "write_message S V ?k e s = (s', r')" "r = Ok () \<longrightarrow> (\<exists>i. r' = Ok i)"
    using w by (auto simp: write_message_to_device_stream_def split: prod.splits sum.splits)
  note eff = write_message_effect [OF S e r'(1)]
  have "holds_envelope streams V s' k e" if "holds_envelope streams V s k e" for k
    using eff that by (cases "k = ?k") (auto simp: holds_envelope_def)
  with eff r'(2) show ?thesis by (auto simp: mailbox_keys_def)
qed

lemma write_devices_effect:
  assumes S: "mail_server_ok S streams marks" and e: "encodes V e"
    and w: "write_devices S V u e ds n s = (s', n')"
  shows "(\<forall>k. k \<notin> mailbox_keys V u \<longrightarrow> marks s' k = marks s k) \<and>
    (\<forall>k. holds_envelope streams V s k e \<longrightarrow> holds_envelope streams V s' k e) \<and>
    n \<le> n' \<and> n' \<le> n + length ds \<and>
    (n < n' \<longrightarrow> (\<exists>d \<in> set ds. holds_envelope streams V s' (device_stream_key (mail_keys V) u d) e)) \<and>
    (n' = n + length ds \<longrightarrow>
       (\<forall>d \<in> set ds. holds_envelope streams V s' (device_stream_key (mail_keys V) u d) e))"
  using w
proof (induction ds arbitrary: n s)
  case (Cons d ds)
  obtain s1 r where s1: "write_message_to_device_stream S V u d e s = (s1, r)" by fastforce
  note eff = write_device_effect [OF S e s1]
  show ?case
  proof (cases r)
    case (Inl x)
    with Cons.prems s1 have "write_devices S V u e ds n s1 = (s', n')" by simp
    note ih = Cons.IH [OF this]
    then have "n' \<noteq> n + length (d # ds)" by auto
    with ih eff show ?thesis by auto
  next
    case (Inr y)
    with Cons.prems s1 have "write_devices S V u e ds (n + 1) s1 = (s', n')" by simp
    note ih = Cons.IH [OF this]
    moreover have "holds_envelope streams V s1 (device_stream_key (mail_keys V) u d) e"
      using eff Inr by simp
    ultimately show ?thesis using eff by auto
  qed
qed auto

lemma fanout_effect:
  assumes S: "mail_server_ok S streams marks" and e: "encodes V e"
    and w: "write_message_to_device_streams S V u ds e s = (s', r)"
  shows "(\<forall>k. k \<notin> mailbox_keys V u \<longrightarrow> marks s' k = marks s k) \<and>
    (r = Ok () \<longrightarrow>
       (mailbox_user_write V \<longrightarrow> holds_envelope streams V s' (user_stream_key (mail_keys V) u) e) \<and>
       (\<not> mailbox_user_write V \<longrightarrow>
          (\<exists>d \<in> set ds. holds_envelope streams V s' (device_stream_key (mail_keys V) u d) e)))"
proof -
  let ?uk = "user_stream_key (mail_keys V) u"
  have pub: "streams (publish_inbox_wakeup S u x) = streams x"
      "marks (publish_inbox_wakeup S u x) = marks x" for x
    using S by (simp_all add: publish_inbox_wakeup_def mail_server_ok_def)
  obtain s1 c where s1: "(if mailbox_user_write V then write_message_to_user_stream S V u e s
      else (s, Ok [])) = (s1, c)" by fastforce
  obtain s2 n where s2: "write_devices S V u e ds 0 s1 = (s2, n)" by fastforce
  have u: "(\<forall>k. k \<notin> mailbox_keys V u \<longrightarrow> marks s1 k = marks s k) \<and>
      (mailbox_user_write V \<and> (\<exists>i. c = Ok i) \<longrightarrow> holds_envelope streams V s1 ?uk e)"
  proof (cases "mailbox_user_write V")
    case True
    with s1 have "write_message S V ?uk e s = (s1, c)" by (simp add: write_message_to_user_stream_def)
    from write_message_effect [OF S e this] show ?thesis by (auto simp: mailbox_keys_def)
  qed (use s1 in simp)
  note d = write_devices_effect [OF S e s2]
  show ?thesis
  proof (cases c)
    case (Inl x)
    with w s1 have "s' = s1" "r = Err x" by (auto simp: write_message_to_device_streams_def)
    with u show ?thesis by simp
  next
    case (Inr y)
    then have eq: "(s', r) = (if \<not> mailbox_user_write V \<and> n = 0 then (s2, Err ''No mailbox to write'')
        else (publish_inbox_wakeup S u s2, Ok ()))"
      using w s1 s2 by (simp add: write_message_to_device_streams_def)
    have mk: "\<forall>k. k \<notin> mailbox_keys V u \<longrightarrow> marks s2 k = marks s k" using u d by simp
    show ?thesis
    proof (cases "\<not> mailbox_user_write V \<and> n = 0")
      case False
      with eq have "s' = publish_inbox_wakeup S u s2" "r = Ok ()" by simp_all
      then show ?thesis using u d mk Inr False by (auto simp: holds_envelope_def pub)
    qed (use eq mk in simp)
  qed
qed

text \<open>
  C5. An accepted message is stored. When a dispatch answers success, the message had already been
  dispatched, or its sender is blocked by the recipient, or it is now in a stream of the recipient
  from which a reader decodes the same envelope: in the account's stream while those are written,
  otherwise in the stream of one of the selected devices. When it answers an error, the mark that
  would turn a retry into a silent success is not set.
\<close>

theorem dispatch_accepted_is_stored:
  assumes "mail_server_ok S streams marks" and "encodes V e"
    and "dispatch_key V e \<notin> mailbox_keys V (recipient_id e)"
    and "dispatch_envelope S V notify e s = (s', r, push)"
  shows "case r of
      Ok _ \<Rightarrow>
        is_user_message e \<and> marks s (dispatch_key V e) \<or> is_user_message e \<and> blocked V e \<or>
        (mailbox_user_write V \<and>
           holds_envelope streams V s' (user_stream_key (mail_keys V) (recipient_id e)) e) \<or>
        (\<exists>d \<in> set (fst (select_target_devices (fetch_recipient_device_ids V (recipient_id e))
                        (recipient_device e))).
           holds_envelope streams V s' (device_stream_key (mail_keys V) (recipient_id e) d) e)
    | Err _ \<Rightarrow> marks s' (dispatch_key V e) = marks s (dispatch_key V e)"
proof -
  let ?u = "recipient_id e" and ?k = "dispatch_key V e"
  let ?ds = "fst (select_target_devices (fetch_recipient_device_ids V ?u) (recipient_device e))"
  have dup: "marks s ?k" if "is_message_duplicate S ?k s = Ok True"
    using assms(1) that by (simp add: mail_server_ok_def is_message_duplicate_def)
  have mark: "streams (fst (mark_message_dispatched S ?k x)) = streams x" for x
  proof -
    obtain y q where "set_ex S x ?k ''1'' (24 * 60 * 60) = (y, q)" by fastforce
    moreover from this have "set_ex_effect streams marks x ?k y q"
      using assms(1) unfolding mail_server_ok_def by blast
    ultimately show ?thesis by (simp add: mark_message_dispatched_def set_ex_effect_def)
  qed
  show ?thesis
  proof (cases "is_user_message e \<and> (is_message_duplicate S ?k s = Ok True \<or> blocked V e)")
    case True
    then have "r = Ok ()" using assms(4) by (auto simp: dispatch_envelope_def split: if_splits)
    with True dup show ?thesis by auto
  next
    case False
    obtain s1 q where s1: "write_message_to_device_streams S V ?u ?ds e s = (s1, q)" by fastforce
    note eff = fanout_effect [OF assms(1,2) s1]
    show ?thesis
    proof (cases q)
      case (Inl x)
      with False s1 assms(4) have "s' = s1" "r = Err (''Failed to deliver message: '' @ x)"
        by (auto simp: dispatch_envelope_def Let_def split: prod.splits if_splits)
      with eff assms(3) show ?thesis by simp
    next
      case (Inr y)
      with False s1 assms(4) have "r = Ok ()" "streams s' = streams s1"
        using mark by (auto simp: dispatch_envelope_def Let_def split: prod.splits if_splits)
      with eff Inr show ?thesis by (auto simp: holds_envelope_def)
    qed
  qed
qed

section \<open>A sample dispatch\<close>

type_synonym sample_store = "(string \<Rightarrow> binary_entry list) \<times> string set"

definition sample_mail_server :: "sample_store mail_server" where
  "sample_mail_server =
     \<lparr> xadd = (\<lambda>(st, ks) key n fs. ((st(key := st key @ [(''1-0'', map_of fs)]), ks), Ok ''1-0'')),
       publish = (\<lambda>s c m. s),
       key_exists = (\<lambda>(st, ks) key. Ok (key \<in> ks)),
       set_ex = (\<lambda>(st, ks) key v n. ((st, insert key ks), Ok ())),
       get_string = (\<lambda>s key. Ok None) \<rparr>"

definition sample_dispatch_world :: dispatch_world where
  "sample_dispatch_world =
     \<lparr> mail_keys = \<lparr> xread = (\<lambda>_ _ _. Ok []), from_slice = (\<lambda>_. Some sample_envelope),
                    digest = sample_digest, map_order = id, delivery_queue_prefix = ''q'' \<rparr>,
       to_vec_named = (\<lambda>_. Some ''x''), parse_uuid = Some,
       is_blocked_by = (\<lambda>_ _. Ok False), devices_by_user = (\<lambda>_. Ok [''a'', ''b'']),
       mailbox_user_write = False, queue_maxlen_standard = 10000, user_key_prefix = ''user:'' \<rparr>"

lemma sample_mail_server_ok:
  "mail_server_ok sample_mail_server fst (\<lambda>s k. k \<in> snd s)"
proof -
  have "xadd_effect fst (\<lambda>s k. k \<in> snd s) s key fs s' r"
    if x: "xadd sample_mail_server s key n fs = (s', r)" for s key n fs s' r
  proof -
    obtain st ks where "s = (st, ks)" by (cases s)
    with x have "s' = (st(key := st key @ [(''1-0'', map_of fs)]), ks)" "r = Ok ''1-0''"
      by (auto simp: sample_mail_server_def)
    with \<open>s = (st, ks)\<close> show ?thesis
      by (simp add: xadd_effect_def) (metis drop0)
  qed
  moreover have "set_ex_effect fst (\<lambda>s k. k \<in> snd s) s key s' r"
    if "set_ex sample_mail_server s key v n = (s', r)" for s key v n s' r
    using that by (cases s) (auto simp: sample_mail_server_def set_ex_effect_def)
  ultimately show ?thesis
    unfolding mail_server_ok_def by (auto simp: sample_mail_server_def)
qed

theorem dispatch_accepted_is_stored_witness:
  "\<exists>s' push. dispatch_envelope sample_mail_server sample_dispatch_world True sample_envelope
       (\<lambda>_. [], {}) = (s', Ok (), push) \<and>
     (\<exists>d \<in> {''a'', ''b''}. holds_envelope fst sample_dispatch_world s'
        (device_stream_key (mail_keys sample_dispatch_world) ''bob'' d) sample_envelope)"
proof -
  have enc: "encodes sample_dispatch_world sample_envelope"
    by (simp add: encodes_def sample_dispatch_world_def sample_envelope_def from_utf8_def)
  have key: "dispatch_key sample_dispatch_world sample_envelope
      \<notin> mailbox_keys sample_dispatch_world (recipient_id sample_envelope)"
    by (auto simp: dispatch_key_def dedup_key_new_def mailbox_keys_def user_stream_key_def
        device_stream_key_def sample_dispatch_world_def)
  obtain s' r push where run: "dispatch_envelope sample_mail_server sample_dispatch_world True
      sample_envelope (\<lambda>_. [], {}) = (s', r, push)" by (metis prod_cases3)
  then have ok: "r = Ok ()"
    by (auto simp: dispatch_envelope_def is_user_message_def sample_envelope_def blocked_def
        sample_dispatch_world_def is_message_duplicate_def sample_mail_server_def
        fetch_recipient_device_ids_def select_target_devices_def
        write_message_to_device_streams_def write_message_to_device_stream_def write_message_def
        Let_def)
  have targets: "set (fst (select_target_devices
      (fetch_recipient_device_ids sample_dispatch_world (recipient_id sample_envelope))
      (recipient_device sample_envelope))) = {''a'', ''b''}"
    by (auto simp: select_target_devices_def fetch_recipient_device_ids_def sample_envelope_def
        sample_dispatch_world_def)
  have "\<not> blocked sample_dispatch_world sample_envelope" "\<not> mailbox_user_write sample_dispatch_world"
      "recipient_id sample_envelope = ''bob''"
    by (simp_all add: blocked_def sample_dispatch_world_def sample_envelope_def)
  with dispatch_accepted_is_stored [OF sample_mail_server_ok enc key run] ok targets
  have "\<exists>d \<in> {''a'', ''b''}. holds_envelope fst sample_dispatch_world s'
      (device_stream_key (mail_keys sample_dispatch_world) ''bob'' d) sample_envelope"
    by simp
  with run ok show ?thesis by blast
qed

end
