(* ===== verification/Degraded.thy ===== *)
theory Degraded
  imports Prelude "HOL-Library.AList" "HOL-Library.Multiset"
begin

text \<open>
  The degraded limiter of \<open>crates/construct-rate-limit/src/degraded.rs\<close>: a circuit breaker
  over consecutive Redis failures, and a bounded table of per-window counters used while the
  breaker is open. Every method is one step on the limiter's state (the atomics and the shard
  locks make each call atomic on the shard it touches). Counters keep their machine width:
  the failure streak is a 32-bit word, the number of tracked keys a 64-bit word, an entry's
  count saturates at the maximum of \<open>u32\<close>.
\<close>

unbundle bit_operations_syntax

definition TRIP_THRESHOLD :: u32 where "TRIP_THRESHOLD = 5"
definition COOLDOWN_MS :: int where "COOLDOWN_MS = 5000"
definition SHARDS :: nat where "SHARDS = 16"
definition MAX_TRACKED_KEYS :: nat where "MAX_TRACKED_KEYS = 50000"

datatype breaker_state = Closed | Open | HalfOpen

record degraded_outcome =
  allowed :: bool
  tracked_event :: bool

record window_entry =
  window_start :: int
  hits :: nat

type_synonym shard = "(u64 \<times> window_entry) list"

record degraded_limiter =
  consecutive_failures :: u32
  open_until_ms :: int
  shards :: "shard list"
  tracked :: u64

definition limiter_new :: degraded_limiter where
  "limiter_new = \<lparr> consecutive_failures = 0, open_until_ms = 0, shards = replicate SHARDS [],
     tracked = 0 \<rparr>"

section \<open>The breaker\<close>

definition limiter_state :: "degraded_limiter \<Rightarrow> int \<Rightarrow> breaker_state" where
  "limiter_state l now_ms =
     (if open_until_ms l = 0 then Closed
      else if now_ms < open_until_ms l then Open
      else HalfOpen)"

definition should_skip_redis :: "degraded_limiter \<Rightarrow> int \<Rightarrow> bool" where
  "should_skip_redis l now_ms \<longleftrightarrow> limiter_state l now_ms = Open"

definition record_success :: "degraded_limiter \<Rightarrow> degraded_limiter" where
  "record_success l = l\<lparr>consecutive_failures := 0, open_until_ms := 0\<rparr>"

definition record_failure :: "degraded_limiter \<Rightarrow> int \<Rightarrow> degraded_limiter \<times> bool" where
  "record_failure l now_ms =
     (let failures = consecutive_failures l + 1;
          l1 = l\<lparr>consecutive_failures := failures\<rparr>
      in if failures < TRIP_THRESHOLD then (l1, False)
         else (l1\<lparr>open_until_ms := now_ms + COOLDOWN_MS\<rparr>, open_until_ms l = 0))"

section \<open>The table\<close>

definition fxhash :: "string \<Rightarrow> u64" where
  "fxhash s = fold (\<lambda>b h. (h XOR ucast b) * 0x100000001b3) (as_bytes s) 0xcbf29ce484222325"

definition shard_of :: "u64 \<Rightarrow> nat" where
  "shard_of h = unat h mod SHARDS"

definition purge_stale :: "int \<Rightarrow> shard \<Rightarrow> shard \<times> nat" where
  "purge_stale ws sh =
     (let kept = filter (\<lambda>(k, e). window_start e = ws) sh in (kept, length sh - length kept))"

text \<open>\<open>now - now.rem_euclid(window.max(1))\<close>; HOL's \<open>mod\<close> of a positive divisor is the
  Euclidean remainder.\<close>

definition window_of :: "int \<Rightarrow> int \<Rightarrow> int" where
  "window_of window_secs now_secs = now_secs - now_secs mod max window_secs 1"

definition saturating_inc :: "nat \<Rightarrow> nat" where
  "saturating_inc n = min (n + 1) (2 ^ 32 - 1)"

definition put_shard :: "nat \<Rightarrow> shard \<Rightarrow> degraded_limiter \<Rightarrow> degraded_limiter" where
  "put_shard i sh l = l\<lparr>shards := (shards l)[i := sh]\<rparr>"

definition at_cap :: "degraded_limiter \<Rightarrow> bool" where
  "at_cap l \<longleftrightarrow> MAX_TRACKED_KEYS \<le> unat (tracked l)"

definition charge ::
    "degraded_limiter \<Rightarrow> string \<Rightarrow> int \<Rightarrow> int \<Rightarrow> int \<Rightarrow> degraded_limiter \<times> degraded_outcome" where
  "charge l key limit window_secs now_secs =
     (if limit \<le> 0 then (l, \<lparr>allowed = False, tracked_event = True\<rparr>)
      else
        let ws = window_of window_secs now_secs;
            hash = fxhash key;
            i = shard_of hash;
            sh = shards l ! i
        in case map_of sh hash of
             Some e \<Rightarrow>
               if window_start e = ws then
                 let e' = e\<lparr>hits := saturating_inc (hits e)\<rparr>
                 in (put_shard i (AList.update hash e' sh) l,
                     \<lparr>allowed = int (hits e') \<le> limit, tracked_event = True\<rparr>)
               else
                 (put_shard i (AList.update hash \<lparr>window_start = ws, hits = 1\<rparr> sh) l,
                  \<lparr>allowed = True, tracked_event = True\<rparr>)
           | None \<Rightarrow>
               let (sh1, l1) =
                     (if at_cap l then
                        let (kept, dropped) = purge_stale ws sh
                        in (kept, (put_shard i kept l)\<lparr>tracked := tracked l - word_of_nat dropped\<rparr>)
                      else (sh, l))
               in if at_cap l1 then (l1, \<lparr>allowed = True, tracked_event = False\<rparr>)
                  else ((put_shard i (AList.update hash \<lparr>window_start = ws, hits = 1\<rparr> sh1) l1)
                          \<lparr>tracked := tracked l1 + 1\<rparr>,
                        \<lparr>allowed = True, tracked_event = True\<rparr>))"

definition limiter_clear :: "degraded_limiter \<Rightarrow> degraded_limiter" where
  "limiter_clear l = l\<lparr>shards := map (\<lambda>_. []) (shards l), tracked := 0\<rparr>"

section \<open>The table's invariant\<close>

definition table_size :: "degraded_limiter \<Rightarrow> nat" where
  "table_size l = sum_list (map length (shards l))"

definition limiter_ok :: "degraded_limiter \<Rightarrow> bool" where
  "limiter_ok l \<longleftrightarrow> length (shards l) = SHARDS \<and>
     (\<forall>i < SHARDS. distinct (map fst (shards l ! i)) \<and>
        (\<forall>(k, e) \<in> set (shards l ! i). shard_of k = i)) \<and>
     unat (tracked l) = table_size l \<and> table_size l \<le> MAX_TRACKED_KEYS"

lemma shard_of_less: "shard_of h < SHARDS"
  by (simp add: shard_of_def SHARDS_def)

lemma sum_list_update:
  "i < length xs \<Longrightarrow> sum_list (xs[i := y]) + xs ! i = sum_list xs + (y :: nat)"
  by (induction xs arbitrary: i) (auto split: nat.splits)

lemma table_size_put:
  assumes "i < length (shards l)"
  shows "table_size (put_shard i sh l) + length (shards l ! i) = table_size l + length sh"
  using sum_list_update [of i "map length (shards l)" "length sh"] assms
  by (simp add: table_size_def put_shard_def map_update)

lemma shard_le_table:
  assumes "i < length (shards l)" shows "length (shards l ! i) \<le> table_size l"
  using table_size_put [OF assms, of "[]"] by simp

definition shard_ok :: "nat \<Rightarrow> shard \<Rightarrow> bool" where
  "shard_ok i sh \<longleftrightarrow> distinct (map fst sh) \<and> (\<forall>(k, e) \<in> set sh. shard_of k = i)"

lemma limiter_ok_shard: "limiter_ok l \<Longrightarrow> i < SHARDS \<Longrightarrow> shard_ok i (shards l ! i)"
  by (simp add: limiter_ok_def shard_ok_def)

lemma put_shard_ok:
  assumes "limiter_ok l" "i < SHARDS" "shard_ok i sh"
    and "unat n = table_size (put_shard i sh l)" "unat n \<le> MAX_TRACKED_KEYS"
  shows "limiter_ok ((put_shard i sh l)\<lparr>tracked := n\<rparr>)"
  using assms
  by (auto simp: limiter_ok_def put_shard_def shard_ok_def table_size_def nth_list_update)

lemma shard_ok_update:
  assumes "shard_ok (shard_of h) sh" shows "shard_ok (shard_of h) (AList.update h e sh)"
proof -
  have "fst p = h \<or> p \<in> set sh" if "p \<in> set (AList.update h e sh)" for p
    using that by (induction sh) (auto split: if_splits)
  moreover have "fst p = h \<or> fst p \<in> fst ` set sh" if "p \<in> set (AList.update h e sh)" for p
    using that by (induction sh) (auto split: if_splits)
  ultimately show ?thesis
    using assms unfolding shard_ok_def by (fastforce simp: distinct_update)
qed

lemma length_update:
  "distinct (map fst sh) \<Longrightarrow>
     length (AList.update h e sh) = (if map_of sh h = None then length sh + 1 else length sh)"
  by (induction sh) (auto simp: map_of_eq_None_iff image_iff)

lemma tracked_word [simp]: "n \<le> MAX_TRACKED_KEYS \<Longrightarrow> unat (word_of_nat n :: u64) = n"
  by (simp add: MAX_TRACKED_KEYS_def unsigned_of_nat take_bit_eq_mod)

lemma tracked_eq:
  assumes "limiter_ok l"
  shows "tracked l = word_of_nat (table_size l)" "table_size l \<le> MAX_TRACKED_KEYS"
proof -
  from assms have "unat (tracked l) = table_size l" "table_size l \<le> MAX_TRACKED_KEYS"
    by (simp_all add: limiter_ok_def)
  then show "tracked l = word_of_nat (table_size l)" "table_size l \<le> MAX_TRACKED_KEYS"
    by (metis of_nat_unat ucast_id, simp)
qed

lemma overwrite_ok:
  assumes ok: "limiter_ok l" and e: "map_of (shards l ! shard_of h) h \<noteq> None"
  shows "limiter_ok (put_shard (shard_of h) (AList.update h e' (shards l ! shard_of h)) l)"
proof -
  let ?i = "shard_of h" and ?sh = "shards l ! shard_of h"
  let ?l = "put_shard ?i (AList.update h e' ?sh) l"
  have i: "?i < SHARDS" "?i < length (shards l)" using ok shard_of_less by (simp_all add: limiter_ok_def)
  have sh: "shard_ok ?i ?sh" using limiter_ok_shard [OF ok i(1)] .
  then have "length (AList.update h e' ?sh) = length ?sh"
    using e by (simp add: length_update shard_ok_def)
  then have "table_size ?l = table_size l" using table_size_put [OF i(2), of "AList.update h e' ?sh"] by simp
  moreover have "unat (tracked l) = table_size l" "table_size l \<le> MAX_TRACKED_KEYS"
    using ok by (simp_all add: limiter_ok_def)
  ultimately have "limiter_ok (?l\<lparr>tracked := tracked l\<rparr>)"
    by (intro put_shard_ok [OF ok i(1) shard_ok_update [OF sh]]) simp_all
  then show ?thesis by (simp add: put_shard_def)
qed

lemma purge_ok:
  assumes ok: "limiter_ok l" and i: "i < SHARDS"
    and p: "purge_stale ws (shards l ! i) = (kept, dropped)"
  shows "limiter_ok ((put_shard i kept l)\<lparr>tracked := tracked l - word_of_nat dropped\<rparr>)"
proof -
  let ?sh = "shards l ! i"
  have kept: "kept = filter (\<lambda>(k, e). window_start e = ws) ?sh" "dropped = length ?sh - length kept"
    using p by (auto simp: purge_stale_def Let_def)
  have len: "i < length (shards l)" using ok i by (simp add: limiter_ok_def)
  have sh: "shard_ok i kept"
    using limiter_ok_shard [OF ok i] unfolding kept shard_ok_def
    by (auto simp: distinct_map_filter)
  have le: "length kept \<le> length ?sh" unfolding kept by simp
  have size: "table_size (put_shard i kept l) = table_size l - dropped"
    using table_size_put [OF len, of kept] le kept(2) by simp
  have d: "dropped \<le> table_size l" using shard_le_table [OF len] kept(2) by simp
  have "tracked l - word_of_nat dropped = word_of_nat (table_size l - dropped)"
    using tracked_eq(1) [OF ok] d by (simp add: of_nat_diff)
  then show ?thesis
    using tracked_eq(2) [OF ok] size
    by (intro put_shard_ok [OF ok i sh]) simp_all
qed

lemma insert_new_ok:
  assumes ok: "limiter_ok l" and "\<not> at_cap l" and none: "map_of (shards l ! shard_of h) h = None"
  shows "limiter_ok ((put_shard (shard_of h) (AList.update h e (shards l ! shard_of h)) l)
    \<lparr>tracked := tracked l + 1\<rparr>)"
proof -
  let ?i = "shard_of h" and ?sh = "shards l ! shard_of h"
  have i: "?i < SHARDS" "?i < length (shards l)" using ok shard_of_less by (simp_all add: limiter_ok_def)
  have sh: "shard_ok ?i ?sh" using limiter_ok_shard [OF ok i(1)] .
  have "table_size (put_shard ?i (AList.update h e ?sh) l) = table_size l + 1"
    using table_size_put [OF i(2), of "AList.update h e ?sh"] none sh
    by (simp add: length_update shard_ok_def)
  moreover have "table_size l + 1 \<le> MAX_TRACKED_KEYS"
    using assms(2) ok by (simp add: at_cap_def limiter_ok_def)
  moreover have "unat (tracked l + 1) = table_size l + 1"
  proof -
    have "tracked l + 1 = word_of_nat (table_size l + 1)" using tracked_eq(1) [OF ok] by simp
    then show ?thesis using \<open>table_size l + 1 \<le> MAX_TRACKED_KEYS\<close> tracked_word by metis
  qed
  ultimately show ?thesis
    by (intro put_shard_ok [OF ok i(1) shard_ok_update [OF sh]]) simp_all
qed

section \<open>What one charge does\<close>

definition lookup :: "degraded_limiter \<Rightarrow> u64 \<Rightarrow> window_entry option" where
  "lookup l h = map_of (shards l ! shard_of h) h"

definition spent :: "degraded_limiter \<Rightarrow> int \<Rightarrow> u64 \<Rightarrow> nat" where
  "spent l ws h =
     (case lookup l h of Some e \<Rightarrow> if window_start e = ws then hits e else 0 | None \<Rightarrow> 0)"

definition purged :: "int \<Rightarrow> nat \<Rightarrow> degraded_limiter \<Rightarrow> degraded_limiter" where
  "purged ws i l =
     (if at_cap l then
        let (kept, dropped) = purge_stale ws (shards l ! i)
        in (put_shard i kept l)\<lparr>tracked := tracked l - word_of_nat dropped\<rparr>
      else l)"

lemma charge_missing:
  fixes w now :: int
  assumes "0 < limit" "lookup l (fxhash key) = None" "length (shards l) = SHARDS"
  defines "h \<equiv> fxhash key" and "ws \<equiv> window_of w now"
  defines "l1 \<equiv> purged ws (shard_of h) l"
  shows "charge l key limit w now =
    (if at_cap l1 then (l1, \<lparr>allowed = True, tracked_event = False\<rparr>)
     else ((put_shard (shard_of h)
              (AList.update h \<lparr>window_start = ws, hits = 1\<rparr> (shards l1 ! shard_of h)) l1)
             \<lparr>tracked := tracked l1 + 1\<rparr>, \<lparr>allowed = True, tracked_event = True\<rparr>))"
  using assms shard_of_less [of h]
  by (auto simp: charge_def purged_def lookup_def put_shard_def Let_def split: prod.splits)

lemma charge_present:
  fixes w now :: int
  assumes "0 < limit" "lookup l (fxhash key) = Some e"
  defines "h \<equiv> fxhash key" and "ws \<equiv> window_of w now"
  defines "e' \<equiv> (if window_start e = ws then e\<lparr>hits := saturating_inc (hits e)\<rparr>
                 else \<lparr>window_start = ws, hits = 1\<rparr>)"
  shows "charge l key limit w now =
    (put_shard (shard_of h) (AList.update h e' (shards l ! shard_of h)) l,
     \<lparr>allowed = (window_start e \<noteq> ws \<or> int (hits e') \<le> limit), tracked_event = True\<rparr>)"
  using assms by (auto simp: charge_def lookup_def Let_def)

lemma purged_ok:
  assumes "limiter_ok l" shows "limiter_ok (purged ws (shard_of h) l)"
proof (cases "at_cap l")
  case True
  obtain kept dropped where "purge_stale ws (shards l ! shard_of h) = (kept, dropped)" by fastforce
  with purge_ok [OF assms shard_of_less this] True show ?thesis by (simp add: purged_def)
qed (use assms in \<open>simp add: purged_def\<close>)

lemma map_of_filter_distinct:
  "distinct (map fst sh) \<Longrightarrow>
     map_of (filter (\<lambda>(k, e). P e) sh) h = (case map_of sh h of Some e \<Rightarrow> if P e then Some e else None | None \<Rightarrow> None)"
  by (induction sh) (auto simp: map_of_eq_None_iff split: option.split)

lemma lookup_purged:
  assumes "limiter_ok l"
  shows "lookup (purged ws i l) k = lookup l k \<or>
    lookup (purged ws i l) k = None \<and> (\<exists>e. lookup l k = Some e \<and> window_start e \<noteq> ws)"
proof (cases "at_cap l \<and> i = shard_of k")
  case True
  have "distinct (map fst (shards l ! shard_of k))"
    using limiter_ok_shard [OF assms shard_of_less] by (simp add: shard_ok_def)
  note m = map_of_filter_distinct [OF this, of "\<lambda>e. window_start e = ws" k]
  have "lookup (purged ws i l) k = map_of (filter (\<lambda>(k, e). window_start e = ws) (shards l ! shard_of k)) k"
    using True assms shard_of_less [of k]
    by (simp add: lookup_def purged_def purge_stale_def put_shard_def limiter_ok_def Let_def)
  with m show ?thesis by (auto simp: lookup_def split: option.splits)
next
  case False
  then show ?thesis
    by (auto simp: lookup_def purged_def purge_stale_def put_shard_def Let_def)
qed

lemma lookup_put:
  assumes "limiter_ok l"
  shows "lookup ((put_shard (shard_of h) (AList.update h e (shards l ! shard_of h)) l)\<lparr>tracked := n\<rparr>) k
      = (if k = h then Some e else lookup l k)"
    and "lookup (put_shard (shard_of h) (AList.update h e (shards l ! shard_of h)) l) k
      = (if k = h then Some e else lookup l k)"
  using assms shard_of_less [of h]
  by (auto simp: lookup_def put_shard_def limiter_ok_def nth_list_update update_conv')

lemma spent_put:
  assumes "limiter_ok l"
  shows "spent ((put_shard (shard_of h) (AList.update h e (shards l ! shard_of h)) l)\<lparr>tracked := n\<rparr>) ws k
      = (if k = h then if window_start e = ws then hits e else 0 else spent l ws k)"
  by (simp add: spent_def lookup_put [OF assms])

lemma charge_ok:
  assumes "limiter_ok l" shows "limiter_ok (fst (charge l key limit w now))"
proof (cases "0 < limit")
  case False
  then show ?thesis using assms by (simp add: charge_def)
next
  case True
  let ?h = "fxhash key" and ?ws = "window_of w now"
  show ?thesis
  proof (cases "lookup l ?h")
    case None
    let ?l = "purged ?ws (shard_of ?h) l"
    have ok: "limiter_ok ?l" using purged_ok [OF assms] .
    have none: "map_of (shards ?l ! shard_of ?h) ?h = None"
      using lookup_purged [OF assms, of ?ws "shard_of ?h" ?h] None by (simp add: lookup_def)
    have "length (shards l) = SHARDS" using assms by (simp add: limiter_ok_def)
    from charge_missing [OF True None this] show ?thesis
      using ok insert_new_ok [OF ok _ none] by simp
  next
    case (Some e)
    then show ?thesis
      using charge_present [OF True Some] overwrite_ok [OF assms] by (simp add: lookup_def)
  qed
qed

lemma charge_spent:
  fixes w now :: int and key :: string
  assumes ok: "limiter_ok l" and "0 < limit"
  defines "h \<equiv> fxhash key" and "ws \<equiv> window_of w now"
  defines "l' \<equiv> fst (charge l key limit w now)" and "out \<equiv> snd (charge l key limit w now)"
  shows "(\<forall>k. k \<noteq> h \<longrightarrow> spent l' ws k = spent l ws k) \<and>
    (if tracked_event out
     then spent l' ws h = saturating_inc (spent l ws h) \<and>
       (allowed out \<longleftrightarrow> int (saturating_inc (spent l ws h)) \<le> limit)
     else allowed out \<and> spent l' ws h = spent l ws h)"
proof (cases "lookup l h")
  case (Some e)
  have ch: "charge l key limit w now =
      (put_shard (shard_of h) (AList.update h (if window_start e = ws then e\<lparr>hits := saturating_inc (hits e)\<rparr>
          else \<lparr>window_start = ws, hits = 1\<rparr>) (shards l ! shard_of h)) l,
       \<lparr>allowed = (window_start e \<noteq> ws \<or> int (hits (if window_start e = ws
          then e\<lparr>hits := saturating_inc (hits e)\<rparr> else \<lparr>window_start = ws, hits = 1\<rparr>)) \<le> limit),
        tracked_event = True\<rparr>)"
    using charge_present [OF assms(2) Some [unfolded h_def]] unfolding h_def ws_def .
  have sat: "saturating_inc 0 = 1" by (simp add: saturating_inc_def)
  show ?thesis
    unfolding l'_def out_def ch using Some assms(2)
    by (auto simp: spent_def lookup_put [OF ok] sat)
next
  case None
  have len: "length (shards l) = SHARDS" using ok by (simp add: limiter_ok_def)
  let ?l = "purged ws (shard_of h) l"
  have same: "spent ?l ws k = spent l ws k" for k
    using lookup_purged [OF ok, of ws "shard_of h" k] unfolding spent_def
    by (elim disjE conjE exE) simp_all
  have sat: "saturating_inc 0 = 1" by (simp add: saturating_inc_def)
  have zero: "spent l ws h = 0" using None by (simp add: spent_def)
  show ?thesis
    unfolding l'_def out_def charge_missing [OF assms(2) None [unfolded h_def] len]
    unfolding h_def [symmetric] ws_def [symmetric]
    using same zero sat assms(2) by (simp add: spent_put [OF purged_ok [OF ok]])
qed

lemma charge_growth:
  assumes ok: "limiter_ok l" and cap: "table_size l < MAX_TRACKED_KEYS" and "0 < limit"
  shows "tracked_event (snd (charge l key limit w now)) \<and>
    table_size (fst (charge l key limit w now)) \<le> table_size l + 1"
proof -
  let ?h = "fxhash key" and ?ws = "window_of w now"
  have len: "length (shards l) = SHARDS" "shard_of ?h < length (shards l)"
    using ok shard_of_less by (simp_all add: limiter_ok_def)
  have grow: "table_size ((put_shard (shard_of ?h) (AList.update ?h e (shards l ! shard_of ?h)) l)\<lparr>tracked := n\<rparr>)
      \<le> table_size l + 1" for e n
  proof -
    have "distinct (map fst (shards l ! shard_of ?h))"
      using limiter_ok_shard [OF ok shard_of_less] by (simp add: shard_ok_def)
    from length_update [OF this, of ?h e] table_size_put [OF len(2), of "AList.update ?h e (shards l ! shard_of ?h)"]
    show ?thesis by (simp add: table_size_def split: if_splits)
  qed
  show ?thesis
  proof (cases "lookup l ?h")
    case None
    have "\<not> at_cap l" using ok cap by (simp add: at_cap_def limiter_ok_def)
    then show ?thesis
      using charge_missing [OF assms(3) None len(1)] grow by (simp add: purged_def)
  next
    case (Some e)
    then show ?thesis
      using charge_present [OF assms(3) Some] grow [where n = "tracked l"] by (simp add: put_shard_def)
  qed
qed

section \<open>Sequences of charges\<close>

record charge_call =
  call_key :: string
  call_limit :: int
  call_window :: int
  call_now :: int

definition do_charge :: "charge_call \<Rightarrow> degraded_limiter \<Rightarrow> degraded_limiter \<times> degraded_outcome" where
  "do_charge c l = charge l (call_key c) (call_limit c) (call_window c) (call_now c)"

fun run_charges ::
    "charge_call list \<Rightarrow> degraded_limiter \<Rightarrow> (charge_call \<times> degraded_outcome) list" where
  "run_charges [] l = []"
| "run_charges (c # cs) l = (let (l', out) = do_charge c l in (c, out) # run_charges cs l')"

definition passed :: "string \<Rightarrow> int \<Rightarrow> (charge_call \<times> degraded_outcome) list \<Rightarrow> nat" where
  "passed key limit log =
     length (filter (\<lambda>(c, out). call_key c = key \<and> call_limit c = limit \<and>
       allowed out \<and> tracked_event out) log)"

lemma passed_bound:
  assumes "limiter_ok l" "\<forall>c \<in> set cs. window_of (call_window c) (call_now c) = ws"
    and "0 < limit" "limit < 2 ^ 31"
  shows "passed key limit (run_charges cs l) + spent l ws (fxhash key)
    \<le> max (spent l ws (fxhash key)) (nat limit)"
  using assms(1,2)
proof (induction cs arbitrary: l)
  case Nil
  then show ?case by (simp add: passed_def)
next
  case (Cons c cs)
  let ?h = "fxhash key" and ?r = "do_charge c l"
  let ?l = "fst ?r" and ?out = "snd ?r"
  let ?s = "spent l ws ?h" and ?s' = "spent (fst ?r) ws ?h"
  let ?p = "passed key limit (run_charges cs ?l)"
  have ih: "?p + ?s' \<le> max ?s' (nat limit)"
    using Cons charge_ok by (simp add: do_charge_def)
  have log: "passed key limit (run_charges (c # cs) l)
      = ?p + (if call_key c = key \<and> call_limit c = limit \<and> allowed ?out \<and> tracked_event ?out then 1 else 0)"
    by (simp add: passed_def split_beta Let_def)
  show ?case
  proof (cases "0 < call_limit c")
    case False
    then have "?r = (l, \<lparr>allowed = False, tracked_event = True\<rparr>)"
      by (simp add: do_charge_def charge_def)
    with ih log show ?thesis by simp
  next
    case True
    have ws: "window_of (call_window c) (call_now c) = ws" using Cons.prems(2) by simp
    note sp = charge_spent [OF Cons.prems(1) True, of "call_key c" "call_window c" "call_now c",
        unfolded ws, folded do_charge_def]
    show ?thesis
    proof (cases "fxhash (call_key c) = ?h \<and> tracked_event ?out")
      case True
      then have s': "?s' = saturating_inc ?s" and al: "allowed ?out \<longleftrightarrow> int ?s' \<le> call_limit c"
        using sp by simp_all
      show ?thesis
      proof (cases "call_key c = key \<and> call_limit c = limit \<and> allowed ?out")
        case True
        with al have "int ?s' \<le> limit" by simp
        with s' assms(4) have "?s' = ?s + 1" "?s' \<le> nat limit"
          by (auto simp: saturating_inc_def min_def split: if_splits)
        with ih log show ?thesis by (simp split: if_splits)
      next
        case False
        then have p: "passed key limit (run_charges (c # cs) l) = ?p" using log by auto
        have "?s \<le> ?s' \<or> nat limit \<le> ?s'"
          unfolding s' using assms(4) by (auto simp: saturating_inc_def min_def)
        with ih show ?thesis unfolding p max_def by (auto split: if_splits)
      qed
    next
      case False
      then have "?s' = ?s" using sp by (cases "fxhash (call_key c) = ?h") (auto split: if_splits)
      moreover have "passed key limit (run_charges (c # cs) l) = ?p" using log False by auto
      ultimately show ?thesis using ih by simp
    qed
  qed
qed

text \<open>
  C34. The fallback limits. Whatever the table holds and however calls for different keys
  interleave, within one window at most \<open>limit\<close> counted calls of a key pass, keys that share a
  hash sharing one budget; and a counted call is refused only when the key's budget of the window
  is spent.
\<close>

theorem degraded_window_limit:
  assumes "limiter_ok l" "\<forall>c \<in> set cs. window_of (call_window c) (call_now c) = ws"
    and "0 < limit" "limit < 2 ^ 31"
  shows "passed key limit (run_charges cs l) \<le> nat limit \<and>
    (window_of w now = ws \<and> \<not> allowed (snd (charge l key limit w now)) \<longrightarrow>
       limit \<le> int (spent l ws (fxhash key)))"
proof
  show "passed key limit (run_charges cs l) \<le> nat limit"
    using passed_bound [OF assms, of key] by simp
  show "window_of w now = ws \<and> \<not> allowed (snd (charge l key limit w now)) \<longrightarrow>
      limit \<le> int (spent l ws (fxhash key))"
    using charge_spent [OF assms(1,3), of key w now] assms(4)
    by (auto simp: saturating_inc_def min_def split: if_splits)
qed

section \<open>Reachable limiters\<close>

inductive limiter_step :: "degraded_limiter \<Rightarrow> degraded_limiter \<Rightarrow> bool" where
  charge: "limiter_step l (fst (charge l key limit w now))"
| clear: "limiter_step l (limiter_clear l)"
| success: "limiter_step l (record_success l)"
| failure: "limiter_step l (fst (record_failure l now))"

inductive limiter_reachable :: "degraded_limiter \<Rightarrow> bool" where
  new: "limiter_reachable limiter_new"
| step: "limiter_reachable l \<Longrightarrow> limiter_step l l' \<Longrightarrow> limiter_reachable l'"

lemma limiter_new_ok: "limiter_ok limiter_new"
  by (simp add: limiter_ok_def limiter_new_def table_size_def sum_list_replicate)

lemma limiter_step_ok:
  assumes "limiter_step l l'" "limiter_ok l" shows "limiter_ok l'"
  using assms(1)
proof cases
  case (charge key limit w now)
  then show ?thesis using charge_ok [OF assms(2)] by simp
next
  case clear
  have "table_size (limiter_clear l) = 0"
    by (simp add: table_size_def limiter_clear_def comp_def map_replicate_const sum_list_replicate)
  then show ?thesis
    using assms(2) clear by (simp add: limiter_clear_def limiter_ok_def)
next
  case success
  then show ?thesis using assms(2) by (simp add: record_success_def limiter_ok_def table_size_def)
next
  case (failure now)
  then show ?thesis
    using assms(2) by (simp add: record_failure_def limiter_ok_def table_size_def Let_def)
qed

text \<open>
  The fallback table stays bounded and its counter honest: after any sequence of charges,
  clears, successes and failures, the 64-bit counter equals the number of stored entries without
  wrap-around, no more than \<open>MAX_TRACKED_KEYS\<close> are stored, no key is stored twice, and every key
  is in the shard its hash selects.
\<close>

theorem limiter_table_bounded:
  assumes "limiter_reachable l"
  shows "unat (tracked l) = table_size l \<and> table_size l \<le> 50000 \<and>
    length (shards l) = 16 \<and>
    (\<forall>i < 16. distinct (map fst (shards l ! i)) \<and> (\<forall>p \<in> set (shards l ! i). shard_of (fst p) = i))"
proof -
  from assms have "limiter_ok l"
    by (induction rule: limiter_reachable.induct) (auto intro: limiter_new_ok limiter_step_ok)
  then show ?thesis
    by (simp add: limiter_ok_def SHARDS_def MAX_TRACKED_KEYS_def split_beta)
qed

section \<open>The breaker over a history\<close>

datatype redis_outcome = Answered | Failed int

fun breaker_event :: "redis_outcome \<Rightarrow> degraded_limiter \<Rightarrow> degraded_limiter" where
  "breaker_event Answered l = record_success l"
| "breaker_event (Failed t) l = fst (record_failure l t)"

definition breaker_after :: "redis_outcome list \<Rightarrow> degraded_limiter" where
  "breaker_after es = fold breaker_event es limiter_new"

definition streak :: "redis_outcome list \<Rightarrow> nat" where
  "streak es = length (takeWhile (\<lambda>e. e \<noteq> Answered) (rev es))"

definition failed_at :: "redis_outcome \<Rightarrow> int" where
  "failed_at e = (case e of Answered \<Rightarrow> 0 | Failed t \<Rightarrow> t)"

lemma streak_snoc [simp]:
  "streak (es @ [Answered]) = 0" "streak (es @ [Failed t]) = streak es + 1"
  by (simp_all add: streak_def)

lemma streak_le: "streak es \<le> length es"
  unfolding streak_def by (metis length_rev length_takeWhile_le)

lemma trip_word:
  assumes "n < 2 ^ 32"
  shows "(word_of_nat n :: u32) < TRIP_THRESHOLD \<longleftrightarrow> n < 5"
proof -
  have "unat (word_of_nat n :: u32) = n"
    using assms by (simp add: unsigned_of_nat take_bit_eq_mod)
  then show ?thesis by (simp add: TRIP_THRESHOLD_def word_less_nat_alt)
qed

lemma breaker_after_inv:
  assumes "length es < 2 ^ 32"
  shows "consecutive_failures (breaker_after es) = word_of_nat (streak es) \<and>
    open_until_ms (breaker_after es)
      = (if streak es < 5 then 0 else failed_at (last es) + COOLDOWN_MS)"
  using assms
proof (induction es rule: rev_induct)
  case Nil
  then show ?case by (simp add: breaker_after_def limiter_new_def streak_def)
next
  case (snoc e es)
  then have ih: "consecutive_failures (breaker_after es) = word_of_nat (streak es)"
      "open_until_ms (breaker_after es) = (if streak es < 5 then 0 else failed_at (last es) + COOLDOWN_MS)"
    by simp_all
  have eq: "breaker_after (es @ [e]) = breaker_event e (breaker_after es)"
    by (simp add: breaker_after_def)
  show ?case
  proof (cases e)
    case Answered
    then show ?thesis unfolding eq by (simp add: record_success_def)
  next
    case (Failed t)
    have "streak es + 1 < 2 ^ 32" using streak_le [of es] snoc.prems by simp
    note w = trip_word [OF this, unfolded of_nat_add of_nat_1]
    have "word_of_nat (streak es) + (1 :: u32) = word_of_nat (streak es + 1)" by simp
    then show ?thesis
      using ih w unfolding eq by (simp add: Failed record_failure_def Let_def failed_at_def)
  qed
qed

text \<open>
  The breaker opens on a sustained outage only, reports it once, and recovers by itself. After
  any history of answers and failures it is closed exactly when fewer than five failures have
  happened since the last answer; otherwise it is open until five seconds after the last failure
  and half-open from then on. Of a streak of failures exactly the fifth reports the transition.
\<close>

theorem breaker_history:
  assumes "length es + 1 < 2 ^ 32" "\<forall>e \<in> set es. failed_at e + COOLDOWN_MS \<noteq> 0"
  shows "limiter_state (breaker_after es) now =
      (if streak es < 5 then Closed
       else if now < failed_at (last es) + 5000 then Open else HalfOpen) \<and>
    (snd (record_failure (breaker_after es) now) \<longleftrightarrow> streak es = 4)"
proof -
  have len: "length es < 2 ^ 32" using assms(1) by simp
  note inv = breaker_after_inv [OF len]
  have nz: "failed_at (last es) + COOLDOWN_MS \<noteq> 0" if "\<not> streak es < 5"
    using assms(2) that streak_le [of es] by (cases es rule: rev_cases) auto
  have "streak es + 1 < 2 ^ 32" using streak_le [of es] assms(1) by simp
  note w = trip_word [OF this, unfolded of_nat_add of_nat_1]
  have "snd (record_failure (breaker_after es) now) \<longleftrightarrow> streak es = 4"
    using inv w nz by (auto simp: record_failure_def Let_def)
  moreover have "limiter_state (breaker_after es) now =
      (if streak es < 5 then Closed
       else if now < failed_at (last es) + 5000 then Open else HalfOpen)"
    using inv nz by (auto simp: limiter_state_def COOLDOWN_MS_def)
  ultimately show ?thesis by simp
qed

theorem degraded_window_limit_witness:
  "passed ''dev'' 1 (run_charges (replicate 2 \<lparr>call_key = ''dev'', call_limit = 1, call_window = 60,
     call_now = 30\<rparr>) limiter_new) \<le> 1"
  using degraded_window_limit [OF limiter_new_ok, of "replicate 2 \<lparr>call_key = ''dev'', call_limit = 1,
      call_window = 60, call_now = 30\<rparr>" 0 1 "''dev''"]
  by (simp add: window_of_def)

end
