(* ===== verification/Ip_Addr.thy ===== *)
theory Ip_Addr
  imports Prelude
begin

text \<open>
  Text and addresses as Rust's standard library treats them: \<open>str::trim\<close>, \<open>split_once\<close>,
  \<open>rsplit_once\<close>, and the parser and the \<open>Display\<close> of \<open>std::net::IpAddr\<close>. An IPv4 address is
  its four octets, an IPv6 address its eight segments.
\<close>

section \<open>Text\<close>

text \<open>The UTF-8 forms of the characters \<open>char::is_whitespace\<close> accepts.\<close>

definition white_space :: "string list" where
  "white_space = map (map char_of)
     ([[9], [10], [11], [12], [13], [32], [194, 133], [194, 160], [225, 154, 128]]
      @ map (\<lambda>b. [226, 128, b]) ([128, 129, 130, 131, 132, 133, 134, 135, 136, 137, 138, 168, 169, 175] :: nat list)
      @ [[226, 129, 159], [227, 128, 128]])"

fun strip_one :: "string list \<Rightarrow> string \<Rightarrow> string option" where
  "strip_one [] s = None"
| "strip_one (w # ws) s =
     (if w \<noteq> [] \<and> take (length w) s = w then Some (drop (length w) s) else strip_one ws s)"

lemma strip_one_shorter: "strip_one ws s = Some r \<Longrightarrow> length r < length s"
proof (induction ws)
  case (Cons w ws)
  show ?case
  proof (cases "w \<noteq> [] \<and> take (length w) s = w")
    case True
    then have "length w \<le> length s" by (metis length_take min.absorb_iff2 nat_le_linear min.commute)
    moreover have "0 < length w" "r = drop (length w) s" using True Cons.prems by auto
    ultimately show ?thesis by (simp only: length_drop)
  qed (use Cons in auto)
qed simp

function strip_all :: "string list \<Rightarrow> string \<Rightarrow> string" where
  "strip_all ws s = (case strip_one ws s of None \<Rightarrow> s | Some r \<Rightarrow> strip_all ws r)"
  by pat_completeness auto
termination
  by (relation "measure (\<lambda>(ws, s). length s)") (auto dest: strip_one_shorter)

declare strip_all.simps [simp del]

definition trim_start :: "string \<Rightarrow> string" where
  "trim_start s = strip_all white_space s"

definition trim_end :: "string \<Rightarrow> string" where
  "trim_end s = rev (strip_all (map rev white_space) (rev s))"

definition trim :: "string \<Rightarrow> string" where
  "trim s = trim_end (trim_start s)"

definition rsplit_once :: "char \<Rightarrow> string \<Rightarrow> (string \<times> string) option" where
  "rsplit_once c s =
     (case split_once c (rev s) of None \<Rightarrow> None | Some (b, a) \<Rightarrow> Some (rev a, rev b))"

definition visible :: "char \<Rightarrow> bool" where
  "visible c \<longleftrightarrow> 32 < (of_char c :: nat) \<and> (of_char c :: nat) < 128"

lemma strip_one_None: "\<forall>w \<in> set ws. w = [] \<or> take (length w) s \<noteq> w \<Longrightarrow> strip_one ws s = None"
  by (induction ws) auto

lemma white_space_ends:
  "\<forall>w \<in> set white_space. w \<noteq> [] \<and> \<not> visible (hd w) \<and> \<not> visible (last w)"
  by (simp add: white_space_def visible_def)

lemma trim_start_visible:
  assumes "s = [] \<or> visible (hd s)" shows "trim_start s = s"
proof -
  have "take (length w) s \<noteq> w" if "w \<in> set white_space" for w
    using that white_space_ends assms by (metis hd_take length_greater_0_conv take_Nil)
  then have "strip_one white_space s = None" by (intro strip_one_None) blast
  then show ?thesis by (simp add: trim_start_def strip_all.simps [of _ s])
qed

lemma trim_end_visible:
  assumes "s = [] \<or> visible (last s)" shows "trim_end s = s"
proof -
  have "take (length w) (rev s) \<noteq> w" if "w \<in> set (map rev white_space)" for w
    using that white_space_ends assms
    by (metis (no_types, lifting) hd_rev hd_take image_iff length_greater_0_conv rev_is_Nil_conv set_map take_Nil)
  then have "strip_one (map rev white_space) (rev s) = None" by (intro strip_one_None) blast
  then show ?thesis by (simp add: trim_end_def strip_all.simps [of _ "rev s"])
qed

lemma trim_visible: "s \<noteq> [] \<Longrightarrow> visible (hd s) \<Longrightarrow> visible (last s) \<Longrightarrow> trim s = s"
  by (simp add: trim_def trim_start_visible trim_end_visible)

fun join :: "char \<Rightarrow> string list \<Rightarrow> string" where
  "join c [] = []"
| "join c [x] = x"
| "join c (x # y # r) = x @ c # join c (y # r)"

lemma append_sep_inj:
  "c \<notin> set x \<Longrightarrow> c \<notin> set y \<Longrightarrow> x @ c # r = y @ c # r' \<longleftrightarrow> x = y \<and> r = r'"
proof (induction x arbitrary: y)
  case Nil
  then show ?case by (cases y) auto
next
  case (Cons a x)
  then show ?case by (cases y) auto
qed

lemma join_inj:
  assumes "\<forall>x \<in> set xs. c \<notin> set x" "\<forall>y \<in> set ys. c \<notin> set y" "xs \<noteq> []" "ys \<noteq> []"
    and "join c xs = join c ys"
  shows "xs = ys"
  using assms
proof (induction c xs arbitrary: ys rule: join.induct)
  case (2 c x)
  then show ?case by (cases "(c, ys)" rule: join.cases) auto
next
  case (3 c x x' r)
  note prems = 3
  show ?case
  proof (cases "(c, ys)" rule: join.cases)
    case (3 c' y y' r')
    then have "x @ c # join c (x' # r) = y @ c # join c (y' # r')" using prems(6) by simp
    then have "x = y" "join c (x' # r) = join c (y' # r')"
      using append_sep_inj [of c x y] 3 prems(2,3) by simp_all
    moreover from this(2) have "x' # r = y' # r'"
      by (rule prems(1) [rotated -1]) (use 3 prems(2,3) in simp_all)
    ultimately show ?thesis using 3 by simp
  qed (use prems(3,5,6) in auto)
qed simp

section \<open>Addresses\<close>

type_synonym octet = "8 word"
type_synonym segment = "16 word"

datatype ip_addr = V4 "octet list" | V6 "segment list"

fun ip_ok :: "ip_addr \<Rightarrow> bool" where
  "ip_ok (V4 os) \<longleftrightarrow> length os = 4"
| "ip_ok (V6 ss) \<longleftrightarrow> length ss = 8"

subsection \<open>The parser\<close>

text \<open>\<open>char::to_digit\<close>\<close>

definition to_digit :: "nat \<Rightarrow> char \<Rightarrow> nat option" where
  "to_digit radix c =
     (let n = of_char c;
          d = (if 48 \<le> n \<and> n \<le> 57 then Some (n - 48)
               else if 97 \<le> n \<and> n \<le> 122 then Some (n - 87)
               else if 65 \<le> n \<and> n \<le> 90 then Some (n - 55) else None)
      in case d of Some v \<Rightarrow> if v < radix then Some v else None | None \<Rightarrow> None)"

fun read_run :: "nat \<Rightarrow> string \<Rightarrow> nat list \<times> string" where
  "read_run radix [] = ([], [])"
| "read_run radix (c # cs) =
     (case to_digit radix c of
        Some d \<Rightarrow> let (ds, rest) = read_run radix cs in (d # ds, rest)
      | None \<Rightarrow> ([], c # cs))"

text \<open>\<open>Parser::read_number\<close> into a type of \<open>w\<close> bits\<close>

definition read_number ::
    "nat \<Rightarrow> nat \<Rightarrow> nat \<Rightarrow> bool \<Rightarrow> string \<Rightarrow> ('a::len word \<times> string) option" where
  "read_number radix w max_digits allow_zero_prefix p =
     (let (ds, rest) = read_run radix p;
          v = foldl (\<lambda>acc d. acc * radix + d) 0 ds
      in if max_digits < length ds then None
         else if ds = [] then None
         else if \<not> allow_zero_prefix \<and> hd p = CHR ''0'' \<and> 1 < length ds then None
         else if v < 2 ^ w then Some (word_of_nat v, rest) else None)"

definition read_separator ::
    "char \<Rightarrow> nat \<Rightarrow> (string \<Rightarrow> ('a \<times> string) option) \<Rightarrow> string \<Rightarrow> ('a \<times> string) option" where
  "read_separator sep index inner p =
     (if 0 < index then (case p of c # r \<Rightarrow> if c = sep then inner r else None | [] \<Rightarrow> None)
      else inner p)"

fun read_octets :: "nat \<Rightarrow> nat \<Rightarrow> string \<Rightarrow> (octet list \<times> string) option" where
  "read_octets i 0 p = Some ([], p)"
| "read_octets i (Suc n) p =
     (case read_separator CHR ''.'' i (read_number 10 8 3 False) p of
        None \<Rightarrow> None
      | Some (x, r) \<Rightarrow>
          (case read_octets (Suc i) n r of None \<Rightarrow> None | Some (xs, r') \<Rightarrow> Some (x # xs, r')))"

definition read_ipv4_addr :: "string \<Rightarrow> (octet list \<times> string) option" where
  "read_ipv4_addr p = read_octets 0 4 p"

definition from_be :: "octet \<Rightarrow> octet \<Rightarrow> segment" where
  "from_be a b = word_of_nat (256 * unat a + unat b)"

function read_groups :: "nat \<Rightarrow> nat \<Rightarrow> string \<Rightarrow> segment list \<times> bool \<times> string" where
  "read_groups limit i p =
     (if limit \<le> i then ([], False, p)
      else
        case (if i < limit - 1 then read_separator CHR '':'' i read_ipv4_addr p else None) of
          Some (os, r) \<Rightarrow> ([from_be (os ! 0) (os ! 1), from_be (os ! 2) (os ! 3)], True, r)
        | None \<Rightarrow>
            (case read_separator CHR '':'' i (read_number 16 16 4 True) p of
               Some (g, r) \<Rightarrow> let (gs, v4, r') = read_groups limit (Suc i) r in (g # gs, v4, r')
             | None \<Rightarrow> ([], False, p)))"
  by pat_completeness auto
termination by (relation "measure (\<lambda>(limit, i, p). limit - i)") auto

declare read_groups.simps [simp del]

definition read_ipv6_addr :: "string \<Rightarrow> (segment list \<times> string) option" where
  "read_ipv6_addr p =
     (let (head, head_ipv4, r) = read_groups 8 0 p
      in if length head = 8 then Some (head, r)
         else if head_ipv4 then None
         else case r of
                c # d # r' \<Rightarrow>
                  if c = CHR '':'' \<and> d = CHR '':'' then
                    let (tail, _, r'') = read_groups (8 - (length head + 1)) 0 r'
                    in Some (head @ replicate (8 - length head - length tail) 0 @ tail, r'')
                  else None
              | _ \<Rightarrow> None)"

definition parse_ip_addr :: "string \<Rightarrow> ip_addr option" where
  "parse_ip_addr s =
     (let res = (case read_ipv4_addr s of
                   Some (os, r) \<Rightarrow> Some (V4 os, r)
                 | None \<Rightarrow> (case read_ipv6_addr s of
                              Some (ss, r) \<Rightarrow> Some (V6 ss, r)
                            | None \<Rightarrow> None))
      in case res of Some (a, r) \<Rightarrow> if r = [] then Some a else None | None \<Rightarrow> None)"

subsection \<open>Display\<close>

definition show_ipv4 :: "octet list \<Rightarrow> string" where
  "show_ipv4 os = join CHR ''.'' (map (\<lambda>x. show_nat (unat x)) os)"

definition hex_char :: "nat \<Rightarrow> char" where
  "hex_char d = (if d < 10 then char_of (48 + d) else char_of (87 + d))"

fun show_hex :: "nat \<Rightarrow> string" where
  "show_hex n = (if n < 16 then [hex_char n] else show_hex (n div 16) @ [hex_char (n mod 16)])"

declare show_hex.simps [simp del]

text \<open>The first longest run of zero segments: its start and its length.\<close>

fun zero_span :: "nat \<Rightarrow> nat \<times> nat \<Rightarrow> nat \<times> nat \<Rightarrow> segment list \<Rightarrow> nat \<times> nat" where
  "zero_span i longest current [] = longest"
| "zero_span i longest current (x # xs) =
     (if x = 0 then
        let current' = (if snd current = 0 then (i, 1) else (fst current, snd current + 1))
        in zero_span (i + 1) (if snd longest < snd current' then current' else longest) current' xs
      else zero_span (i + 1) longest (0, 0) xs)"

definition to_ipv4_mapped :: "segment list \<Rightarrow> octet list option" where
  "to_ipv4_mapped ss =
     (if take 6 ss = [0, 0, 0, 0, 0, 0xffff]
      then Some [ucast (drop_bit 8 (ss ! 6)), ucast (ss ! 6), ucast (drop_bit 8 (ss ! 7)), ucast (ss ! 7)]
      else None)"

definition show_segments :: "segment list \<Rightarrow> string" where
  "show_segments ss = join CHR '':'' (map (\<lambda>x. show_hex (unat x)) ss)"

definition show_ipv6 :: "segment list \<Rightarrow> string" where
  "show_ipv6 ss =
     (case to_ipv4_mapped ss of
        Some os \<Rightarrow> ''::ffff:'' @ show_ipv4 os
      | None \<Rightarrow>
          let (start, len) = zero_span 0 (0, 0) (0, 0) ss
          in if 1 < len then show_segments (take start ss) @ ''::'' @ show_segments (drop (start + len) ss)
             else show_segments ss)"

section \<open>What the parser and Display guarantee\<close>

lemma read_octets_length: "read_octets i n p = Some (os, r) \<Longrightarrow> length os = n"
  by (induction i n p arbitrary: os r rule: read_octets.induct) (auto split: option.splits prod.splits)

lemma read_groups_length:
  "read_groups limit i p = (gs, v4, r) \<Longrightarrow> length gs \<le> limit - i"
proof (induction limit i p arbitrary: gs v4 r rule: read_groups.induct)
  case (1 limit i p)
  from 1(2) show ?case
    by (subst (asm) read_groups.simps)
      (auto split: if_splits option.splits prod.splits dest!: 1(1) [rotated -1])
qed

lemma read_ipv6_length:
  assumes "read_ipv6_addr p = Some (ss, r)" shows "length ss = 8"
proof -
  obtain h v r1 where head: "read_groups 8 0 p = (h, v, r1)" by (metis prod_cases3)
  have h8: "length h \<le> 8" using read_groups_length [OF head] by simp
  show ?thesis
  proof (cases "length h = 8")
    case True
    then show ?thesis using assms head by (simp add: read_ipv6_addr_def)
  next
    case False
    then obtain c d r2 where r1: "r1 = c # d # r2" "\<not> v"
      using assms head by (cases r1 rule: list.exhaust; cases "tl r1") (auto simp: read_ipv6_addr_def split: if_splits)
    obtain tl v' r3 where tail: "read_groups (8 - (length h + 1)) 0 r2 = (tl, v', r3)" by (metis prod_cases3)
    have "length tl \<le> 8 - (length h + 1)" using read_groups_length [OF tail] by simp
    moreover have "ss = h @ replicate (8 - length h - length tl) 0 @ tl"
      using assms head False r1 tail by (simp add: read_ipv6_addr_def split: if_splits)
    ultimately show ?thesis using h8 by simp
  qed
qed

lemma parse_ip_ok:
  assumes "parse_ip_addr s = Some a" shows "ip_ok a"
proof (cases "read_ipv4_addr s")
  case None
  then obtain ss r where "read_ipv6_addr s = Some (ss, r)" "a = V6 ss"
    using assms by (auto simp: parse_ip_addr_def split: option.splits if_splits)
  then show ?thesis by (simp add: read_ipv6_length)
next
  case (Some p)
  then obtain os r where "read_octets 0 4 s = Some (os, r)" "a = V4 os"
    using assms by (cases p) (auto simp: parse_ip_addr_def read_ipv4_addr_def split: if_splits)
  then show ?thesis by (simp add: read_octets_length)
qed

lemma read_ipv4_eval: "read_ipv4_addr p = read_octets 0 (Suc (Suc (Suc (Suc 0)))) p"
  by (simp add: read_ipv4_addr_def eval_nat_numeral)

lemma replicate_numeral: "replicate (numeral k) x = x # replicate (pred_numeral k) x"
  by (simp add: numeral_eq_Suc)

lemmas parser_eval = parse_ip_addr_def read_ipv4_eval read_ipv6_addr_def read_groups.simps
  read_separator_def read_number_def to_digit_def from_be_def replicate_numeral

section \<open>Reading what Display printed\<close>

fun digits :: "nat \<Rightarrow> nat list" where
  "digits n = (if n < 10 then [n] else digits (n div 10) @ [n mod 10])"

declare digits.simps [simp del]

lemma digits_less: "d \<in> set (digits n) \<Longrightarrow> d < 10"
proof (induction n rule: digits.induct)
  case (1 n)
  then show ?case by (cases "n < 10") (auto simp: digits.simps [of n])
qed

lemma show_digits: "show_nat n = map digit_char (digits n)"
proof (induction n rule: digits.induct)
  case (1 n)
  then show ?case by (simp add: show_nat.simps [of n] digits.simps [of n])
qed

lemma digits_value: "foldl (\<lambda>acc d. acc * 10 + d) 0 (digits n) = n"
proof (induction n rule: digits.induct)
  case (1 n)
  then show ?case by (simp add: digits.simps [of n])
qed

lemma digits_nonempty [simp]: "digits n \<noteq> []"
  by (subst digits.simps) simp

lemma digits_hd: "10 \<le> n \<Longrightarrow> hd (digits n) \<noteq> 0"
proof (induction n rule: digits.induct)
  case (1 n)
  show ?case
  proof (cases "n div 10 < 10")
    case True
    then show ?thesis using 1(2) by (simp add: digits.simps [of n] digits.simps [of "n div 10"])
  next
    case False
    then show ?thesis using 1 by (simp add: digits.simps [of n])
  qed
qed

lemma length_digits: "n < 1000 \<Longrightarrow> length (digits n) \<le> 3"
  by (simp add: digits.simps [of n] digits.simps [of "n div 10"] digits.simps [of "n div 10 div 10"])

lemma to_digit_char: "d < 10 \<Longrightarrow> to_digit 10 (digit_char d) = Some d"
  by (simp add: to_digit_def digit_char_def)

lemma read_run_digits:
  assumes "r = [] \<or> to_digit 10 (hd r) = None" "\<forall>d \<in> set ds. d < 10"
  shows "read_run 10 (map digit_char ds @ r) = (ds, r)"
  using assms
proof (induction ds)
  case Nil
  then show ?case by (cases r) auto
qed (simp add: to_digit_char)

lemma read_octet:
  assumes "r = [] \<or> to_digit 10 (hd r) = None"
  shows "read_number 10 8 3 False (show_nat (unat (x :: octet)) @ r) = Some (x, r)"
proof -
  let ?n = "unat x"
  have n: "?n < 256" using unsigned_less [of x] by simp
  have run: "read_run 10 (show_nat ?n @ r) = (digits ?n, r)"
    unfolding show_digits using assms digits_less by (intro read_run_digits) auto
  have "length (digits ?n) \<le> 3" using n length_digits by simp
  moreover have "hd (show_nat ?n @ r) \<noteq> CHR ''0'' \<or> length (digits ?n) \<le> 1"
  proof (cases "?n < 10")
    case True
    then show ?thesis by (simp add: digits.simps [of ?n])
  next
    case False
    have "hd (digits ?n) < 10" using digits_less [of "hd (digits ?n)" ?n] by simp
    then have "digit_val (digit_char (hd (digits ?n))) = Some (hd (digits ?n))" by simp
    moreover have "digit_val (CHR ''0'') = Some 0" by (simp add: digit_val_def)
    ultimately have "digit_char (hd (digits ?n)) \<noteq> CHR ''0''" using digits_hd [of ?n] False by auto
    then show ?thesis by (simp add: show_digits hd_map)
  qed
  ultimately show ?thesis using n run digits_value [of ?n] by (auto simp: read_number_def Let_def)
qed

text \<open>\<open>Ipv4Addr\<close>'s \<open>Display\<close> and \<open>FromStr\<close> are inverse.\<close>

lemma parse_show_ipv4 [codec_simps]:
  assumes "length os = 4" shows "parse_ip_addr (show_ipv4 os) = Some (V4 os)"
proof -
  obtain a b c d where os: "os = [a, b, c, d]" using assms by (auto simp: length_Suc_conv eval_nat_numeral)
  have dot: "to_digit 10 (CHR ''.'') = None" by (simp add: to_digit_def)
  show ?thesis
    using read_octet [of "[]" d] dot
    by (simp add: os show_ipv4_def parse_ip_addr_def read_ipv4_eval read_separator_def read_octet)
qed

end
