(* ===== verification/Client_Bucket.thy ===== *)
theory Client_Bucket
  imports Ip_Addr
begin

text \<open>
  The unit a per-address limit counts (\<open>crates/construct-rate-limit/src/lib.rs\<close>,
  \<open>client_rate_bucket\<close>) and the address a request is attributed to
  (\<open>messaging-service/src/sealed_ip.rs\<close>, \<open>extract_client_ip\<close>).
\<close>

definition bracketed :: "string \<Rightarrow> string option" where
  "bracketed raw =
     (if raw \<noteq> [] \<and> hd raw = CHR ''['' then
        (case split_once (CHR '']'') (tl raw) of Some (inner, _) \<Rightarrow> Some inner | None \<Rightarrow> None)
      else Some raw)"

definition without_zone :: "string \<Rightarrow> string" where
  "without_zone bare = takeWhile (\<lambda>c. c \<noteq> CHR ''%'') bare"

definition parse_client :: "string \<Rightarrow> ip_addr option" where
  "parse_client bare =
     (case parse_ip_addr bare of
        Some a \<Rightarrow> Some a
      | None \<Rightarrow>
          (case rsplit_once (CHR '':'') bare of
             Some (host, _) \<Rightarrow>
               if CHR '':'' \<notin> set host then parse_ip_addr host else parse_ip_addr bare
           | None \<Rightarrow> parse_ip_addr bare))"

text \<open>\<open>octets[8..].fill(0)\<close> clears the last four segments.\<close>

definition bucket_of :: "ip_addr \<Rightarrow> string" where
  "bucket_of a =
     (case a of
        V4 v4 \<Rightarrow> show_ipv4 v4
      | V6 v6 \<Rightarrow>
          (case to_ipv4_mapped v6 of
             Some v4 \<Rightarrow> show_ipv4 v4
           | None \<Rightarrow> show_ipv6 (take 4 v6 @ [0, 0, 0, 0]) @ ''/64''))"

definition client_rate_bucket :: "string \<Rightarrow> string" where
  "client_rate_bucket client_ip =
     (let raw = trim client_ip in
      if raw = [] then ''unknown''
      else
        case bracketed raw of
          None \<Rightarrow> raw
        | Some inner \<Rightarrow>
            (case parse_client (without_zone inner) of
               Some a \<Rightarrow> bucket_of a
             | None \<Rightarrow> raw))"

text \<open>
  The two headers as \<open>to_str\<close> gives them: present and made of visible ASCII, or not.
\<close>

definition extract_client_ip :: "string option \<Rightarrow> string option \<Rightarrow> string" where
  "extract_client_ip forwarded real_ip =
     (let fallback = (case real_ip of Some r \<Rightarrow> trim r | None \<Rightarrow> ''unknown'')
      in case forwarded of
           Some f \<Rightarrow>
             (let ip = trim (case rsplit_once (CHR '','') f of Some (_, l) \<Rightarrow> l | None \<Rightarrow> f)
              in if ip \<noteq> [] then ip else fallback)
         | None \<Rightarrow> fallback)"

section \<open>Printing is exact\<close>

lemma show_nat_code: "c \<in> set (show_nat n) \<Longrightarrow> (of_char c :: nat) \<in> {48..57}"
  by (auto simp: digit_char_def dest!: show_nat_digits)

lemma hex_char_code: "d < 16 \<Longrightarrow> (of_char (hex_char d) :: nat) = (if d < 10 then 48 + d else 87 + d)"
  by (simp add: hex_char_def)

lemma hex_char_inj: "a < 16 \<Longrightarrow> b < 16 \<Longrightarrow> hex_char a = hex_char b \<longleftrightarrow> a = b"
proof
  assume d: "a < 16" "b < 16" and "hex_char a = hex_char b"
  then have "(if a < 10 then 48 + a else 87 + a) = (if b < 10 then 48 + b else 87 + b)"
    by (metis hex_char_code)
  then show "a = b" using d by (simp split: if_splits)
qed simp

lemma show_hex_code: "c \<in> set (show_hex n) \<Longrightarrow> \<exists>d < 16. c = hex_char d"
proof (induction n rule: show_hex.induct)
  case (1 n)
  have "c = hex_char n \<and> n < 16 \<or> \<not> n < 16 \<and> (c \<in> set (show_hex (n div 16)) \<or> c = hex_char (n mod 16))"
    using 1(2) by (auto simp: show_hex.simps [of n] split: if_splits)
  moreover have "n mod 16 < 16" by simp
  ultimately show ?case using 1(1) by blast
qed

lemma show_hex_no_colon: "CHR '':'' \<notin> set (show_hex n)"
proof
  assume "CHR '':'' \<in> set (show_hex n)"
  then obtain d where "d < 16" "CHR '':'' = hex_char d" using show_hex_code by blast
  then show False using hex_char_code [of d] by (simp split: if_splits flip: \<open>CHR '':'' = hex_char d\<close>)
qed

lemma show_hex_nonempty [simp]: "show_hex n \<noteq> []"
  by (subst show_hex.simps) simp

lemma show_hex_inj [simp]: "show_hex m = show_hex n \<longleftrightarrow> m = n"
proof (induction m arbitrary: n rule: show_hex.induct)
  case (1 m)
  show ?case
  proof (cases "m < 16"; cases "n < 16")
    assume ge: "\<not> m < 16" "\<not> n < 16"
    then have "show_hex m = show_hex n \<longleftrightarrow> m div 16 = n div 16 \<and> m mod 16 = n mod 16"
      using 1 hex_char_inj by (simp add: show_hex.simps [of m] show_hex.simps [of n])
    then show ?thesis by (metis div_mult_mod_eq)
  qed (auto simp: show_hex.simps [of m] show_hex.simps [of n] hex_char_inj
      show_hex_nonempty [symmetric])
qed

lemma show_ipv4_inj:
  assumes "length a = 4" "length b = 4"
  shows "show_ipv4 a = show_ipv4 b \<longleftrightarrow> a = b"
proof
  assume eq: "show_ipv4 a = show_ipv4 b"
  have dot: "CHR ''.'' \<notin> set (show_nat n)" for n using show_nat_code [of "CHR ''.''" n] by auto
  have "map (\<lambda>x. show_nat (unat x)) a = map (\<lambda>x. show_nat (unat x)) b"
    by (rule join_inj [OF _ _ _ _ eq [unfolded show_ipv4_def]]) (use dot assms in auto)
  then show "a = b" by (rule map_injective) (auto simp: inj_on_def word_unat_eq_iff)
qed simp

definition strip_zeros :: "segment list \<Rightarrow> segment list" where
  "strip_zeros ss = rev (dropWhile (\<lambda>x. x = 0) (rev ss))"

lemma strip_zeros_pad: "strip_zeros ss @ replicate (length ss - length (strip_zeros ss)) 0 = ss"
proof -
  have "rev ss = takeWhile (\<lambda>x. x = 0) (rev ss) @ dropWhile (\<lambda>x. x = 0) (rev ss)" by simp
  moreover have "takeWhile (\<lambda>x. x = 0) (rev ss) = replicate (length (takeWhile (\<lambda>x. x = 0) (rev ss))) 0"
    by (rule replicate_eqI) (auto dest: set_takeWhileD)
  ultimately show ?thesis
    unfolding strip_zeros_def
    by (metis (no_types, lifting) add_diff_cancel_right' length_append length_rev rev_append rev_replicate rev_rev_ident)
qed

lemma show_block:
  assumes "length ss = 4"
  shows "show_ipv6 (ss @ [0, 0, 0, 0]) = show_segments (strip_zeros ss) @ ''::''"
proof -
  obtain a b c d where ss: "ss = [a, b, c, d]" using assms by (auto simp: length_Suc_conv eval_nat_numeral)
  show ?thesis
    unfolding ss
    by (cases "a = 0"; cases "b = 0"; cases "c = 0"; cases "d = 0")
      (simp_all add: show_ipv6_def to_ipv4_mapped_def strip_zeros_def show_segments_def)
qed

lemma show_segments_inj: "show_segments a = show_segments b \<longleftrightarrow> a = b"
proof
  assume eq: "show_segments a = show_segments b"
  have ne: "show_segments (x # xs) \<noteq> []" for x xs by (cases xs) (simp_all add: show_segments_def)
  show "a = b"
  proof (cases "a = [] \<or> b = []")
    case True
    moreover have "show_segments [] = []" by (simp add: show_segments_def)
    ultimately show ?thesis using eq ne ne [symmetric] by (cases a; cases b) simp_all
  next
    case False
    have "map (\<lambda>x. show_hex (unat x)) a = map (\<lambda>x. show_hex (unat x)) b"
      by (rule join_inj [OF _ _ _ _ eq [unfolded show_segments_def]]) (use False show_hex_no_colon in auto)
    then show ?thesis by (rule map_injective) (auto simp: inj_on_def word_unat_eq_iff)
  qed
qed simp

section \<open>What shares a bucket\<close>

text \<open>The unit counted: an IPv4 address, which a mapped IPv6 address also is, or an IPv6 /64.\<close>

datatype ip_block = Address4 "octet list" | Block64 "segment list"

fun rate_block :: "ip_addr \<Rightarrow> ip_block" where
  "rate_block (V4 v4) = Address4 v4"
| "rate_block (V6 v6) =
     (case to_ipv4_mapped v6 of Some v4 \<Rightarrow> Address4 v4 | None \<Rightarrow> Block64 (take 4 v6))"

definition client_addr :: "string \<Rightarrow> ip_addr option" where
  "client_addr client_ip =
     (let raw = trim client_ip in
      if raw = [] then None
      else case bracketed raw of None \<Rightarrow> None | Some inner \<Rightarrow> parse_client (without_zone inner))"

lemma client_bucket_addr:
  "client_addr x = Some a \<Longrightarrow> client_rate_bucket x = bucket_of a"
  by (auto simp: client_addr_def client_rate_bucket_def Let_def split: if_splits option.splits)

lemma client_addr_ok: "client_addr x = Some a \<Longrightarrow> ip_ok a"
  by (auto simp: client_addr_def parse_client_def Let_def dest: parse_ip_ok
      split: if_splits option.splits)

lemma set_join: "set (join c xs) \<subseteq> insert c (\<Union>x \<in> set xs. set x)"
  by (induction c xs rule: join.induct) auto

lemma show_ipv4_no_slash: "CHR ''/'' \<notin> set (show_ipv4 os)"
proof
  assume "CHR ''/'' \<in> set (show_ipv4 os)"
  then obtain n where "CHR ''/'' \<in> set (show_nat n)"
    using set_join [of "CHR ''.''" "map (\<lambda>x. show_nat (unat x)) os"] by (auto simp: show_ipv4_def)
  from show_nat_code [OF this] show False by simp
qed

text \<open>A bucket in terms of the unit it counts.\<close>

fun show_ip_block :: "ip_block \<Rightarrow> string" where
  "show_ip_block (Address4 v4) = show_ipv4 v4"
| "show_ip_block (Block64 b) = show_segments (strip_zeros b) @ ''::/64''"

fun ip_block_ok :: "ip_block \<Rightarrow> bool" where
  "ip_block_ok (Address4 v4) \<longleftrightarrow> length v4 = 4"
| "ip_block_ok (Block64 b) \<longleftrightarrow> length b = 4"

lemma bucket_of_block: "ip_ok a \<Longrightarrow> bucket_of a = show_ip_block (rate_block a)"
  by (cases a) (auto simp: bucket_of_def show_block split: option.split)

lemma rate_block_ok: "ip_ok a \<Longrightarrow> ip_block_ok (rate_block a)"
  by (cases a) (auto simp: to_ipv4_mapped_def)

lemma show_ip_block_inj:
  assumes "ip_block_ok a" "ip_block_ok b"
  shows "show_ip_block a = show_ip_block b \<longleftrightarrow> a = b"
proof -
  have slash: "show_ipv4 v \<noteq> w @ ''::/64''" for v w using show_ipv4_no_slash [of v] by auto
  show ?thesis
  proof (cases a; cases b)
    fix x y assume ab: "a = Block64 x" "b = Block64 y"
    have "strip_zeros x = strip_zeros y \<Longrightarrow> x = y"
      using strip_zeros_pad [of x] strip_zeros_pad [of y] assms ab by simp
    then show ?thesis using ab by (auto simp: show_segments_inj)
  qed (use assms slash slash [symmetric] in \<open>simp_all add: show_ipv4_inj\<close>)
qed

text \<open>
  C35. Two clients share a bucket exactly when they are one unit. Whatever way the addresses are
  written (brackets, port, zone, case, compressed zeros), two strings that name addresses get the
  same bucket if and only if both are the same IPv4 address (mapped or not) or both lie in the
  same IPv6 /64; and no client string gets the empty bucket.
\<close>

theorem client_bucket_exact:
  assumes "client_addr x = Some a" "client_addr y = Some b"
  shows "(client_rate_bucket x = client_rate_bucket y \<longleftrightarrow> rate_block a = rate_block b) \<and>
    client_rate_bucket z \<noteq> []"
proof
  show "client_rate_bucket x = client_rate_bucket y \<longleftrightarrow> rate_block a = rate_block b"
    using assms [THEN client_addr_ok] assms [THEN client_bucket_addr]
    by (simp add: bucket_of_block show_ip_block_inj rate_block_ok)
  have ne: "show_ip_block c \<noteq> []" if "ip_block_ok c" for c
    using that by (cases c) (auto simp: show_ipv4_def length_Suc_conv eval_nat_numeral)
  show "client_rate_bucket z \<noteq> []"
  proof (cases "client_addr z")
    case None
    then show ?thesis
      by (auto simp: client_addr_def client_rate_bucket_def Let_def split: if_splits option.splits)
  next
    case (Some c)
    then show ?thesis
      using client_addr_ok [OF Some] by (simp add: client_bucket_addr bucket_of_block ne rate_block_ok)
  qed
qed

theorem client_bucket_exact_witness:
  "client_rate_bucket ''[2001:db8:85A3:8d3::1]:443'' = client_rate_bucket ''2001:db8:85a3:8d3:ffff::''
   \<and> client_rate_bucket ''203.0.113.9'' \<noteq> []"
  using client_bucket_exact
    [of "''[2001:db8:85A3:8d3::1]:443''" "V6 [0x2001, 0xdb8, 0x85a3, 0x8d3, 0, 0, 0, 1]"
        "''2001:db8:85a3:8d3:ffff::''" "V6 [0x2001, 0xdb8, 0x85a3, 0x8d3, 0xffff, 0, 0, 0]"
        "''203.0.113.9''"]
  by (simp add: client_addr_def trim_visible visible_def bracketed_def without_zone_def
      parse_client_def parser_eval to_ipv4_mapped_def)

section \<open>The address of a forwarded request\<close>

lemma show_ipv4_split:
  assumes "length os = 4"
  shows "show_ipv4 os \<noteq> [] \<and> visible (hd (show_ipv4 os)) \<and> visible (last (show_ipv4 os)) \<and>
    (\<forall>c \<in> set (show_ipv4 os). c = CHR ''.'' \<or> (of_char c :: nat) \<in> {48..57})"
proof -
  obtain a b c d where os: "os = [a, b, c, d]" using assms by (auto simp: length_Suc_conv eval_nat_numeral)
  have v: "visible x" if "x \<in> set (show_nat n)" for x n using show_nat_code [OF that] by (simp add: visible_def)
  have "show_nat n \<noteq> []" for n by simp
  moreover have "\<forall>c \<in> set (show_ipv4 os). c = CHR ''.'' \<or> (of_char c :: nat) \<in> {48..57}"
    using set_join [of "CHR ''.''" "map (\<lambda>x. show_nat (unat x)) os"] show_nat_code
    unfolding show_ipv4_def by fastforce
  ultimately show ?thesis
    using v [OF hd_in_set] v [OF last_in_set] by (simp add: os show_ipv4_def)
qed

lemma rsplit_once_append:
  assumes "c \<notin> set r" shows "rsplit_once c (l @ c # r) = Some (l, r)"
  using split_once_append [of c "rev r" "rev l"] assms by (simp add: rsplit_once_def)

lemma trim_space: "trim (CHR '' '' # s) = trim s"
proof -
  have sp: "CHR '' '' = char_of n \<longleftrightarrow> n mod 256 = 32" for n :: nat
    by (subst eq_commute) (simp add: char_of_eq_iff take_bit_eq_mod)
  have "strip_one white_space (CHR '' '' # s) = Some s"
    by (simp add: white_space_def sp)
  then show ?thesis by (simp add: trim_def trim_start_def strip_all.simps [of _ "CHR '' '' # s"])
qed



end
