(* ===== verification/Sliding_Window.thy ===== *)
theory Sliding_Window
  imports Degraded Client_Bucket
begin

text \<open>
  The sliding-window limit of \<open>crates/construct-rate-limit/src/lib.rs\<close> on a Redis sorted set,
  and its use at the sealed-sender door (\<open>messaging-service/src/sealed_ip.rs\<close>), where the
  degraded limiter takes over while Redis is unreachable.

  The sorted-set commands are operations on an abstract server that see its clock in
  milliseconds. Scores are millisecond timestamps, far below the range where \<open>f64\<close> loses
  integers, so they are integers here.
\<close>

record 's zset_server =
  zrembyscore :: "'s \<Rightarrow> int \<Rightarrow> string \<Rightarrow> int \<Rightarrow> 's \<times> (string, nat) result"
  zcount :: "'s \<Rightarrow> int \<Rightarrow> string \<Rightarrow> int \<Rightarrow> (string, nat) result"
  zadd :: "'s \<Rightarrow> int \<Rightarrow> string \<Rightarrow> string \<Rightarrow> int \<Rightarrow> 's \<times> (string, nat) result"
  zexpire :: "'s \<Rightarrow> int \<Rightarrow> string \<Rightarrow> int \<Rightarrow> 's \<times> (string, bool) result"

text \<open>The clock of a call: milliseconds, and nanoseconds when they fit an \<open>i64\<close>.\<close>

record clock =
  now_ms :: int
  now_nanos :: "int option"

definition event_member :: "clock \<Rightarrow> nat \<Rightarrow> string" where
  "event_member t n =
     (case now_nanos t of
        Some ns \<Rightarrow> show_int ns
      | None \<Rightarrow> show_int (now_ms t) @ ''-'' @ show_nat n)"

definition sliding_window_check_and_record ::
    "'s zset_server \<Rightarrow> string \<Rightarrow> nat \<Rightarrow> int \<Rightarrow> clock \<Rightarrow> 's \<Rightarrow> 's \<times> (string, bool) result" where
  "sliding_window_check_and_record Z key max_events window_seconds t s =
     (let window_start_ms = now_ms t - window_seconds * 1000 in
      case zrembyscore Z s (now_ms t) key window_start_ms of
        (s1, Err e) \<Rightarrow> (s1, Err (''zrembyscore failed: '' @ e))
      | (s1, Ok _) \<Rightarrow>
          (case zcount Z s1 (now_ms t) key (window_start_ms + 1) of
             Err e \<Rightarrow> (s1, Err (''zcount failed: '' @ e))
           | Ok n \<Rightarrow>
               if max_events \<le> n then (s1, Ok False)
               else
                 (case zadd Z s1 (now_ms t) key (event_member t n) (now_ms t) of
                    (s2, Err e) \<Rightarrow> (s2, Err (''zadd failed: '' @ e))
                  | (s2, Ok _) \<Rightarrow>
                      (case zexpire Z s2 (now_ms t) key (window_seconds + 60) of
                         (s3, Err e) \<Rightarrow> (s3, Err (''expire failed: '' @ e))
                       | (s3, Ok _) \<Rightarrow> (s3, Ok True)))))"

section \<open>The sealed-sender door\<close>

datatype sealed_ip_decision = Allow | Limited

definition charge_locally ::
    "degraded_limiter \<Rightarrow> string \<Rightarrow> int \<Rightarrow> clock \<Rightarrow> degraded_limiter \<times> sealed_ip_decision" where
  "charge_locally door key limit t =
     (let (door', out) = charge door key limit 60 (now_ms t div 1000)
      in (door', if allowed out then Allow else Limited))"

text \<open>
  \<open>limit\<close> is a \<open>u32\<close>; the local table takes it as an \<open>i32\<close>, so a limit of \<open>2^31\<close> or more
  turns negative there.
\<close>

definition u32_as_i32 :: "nat \<Rightarrow> int" where
  "u32_as_i32 n = (if n < 2 ^ 31 then int n else int n - 2 ^ 32)"

definition check_sealed_ip_limit ::
    "'s zset_server \<Rightarrow> nat \<Rightarrow> string \<Rightarrow> clock \<Rightarrow> degraded_limiter \<Rightarrow> 's
     \<Rightarrow> degraded_limiter \<times> 's \<times> sealed_ip_decision" where
  "check_sealed_ip_limit Z limit client_ip t door s =
     (let key = ''sealed_ip:'' @ client_rate_bucket client_ip in
      if should_skip_redis door (now_ms t) then
        (let (door', dec) = charge_locally door key (u32_as_i32 limit) t in (door', s, dec))
      else
        (case sliding_window_check_and_record Z key limit 60 t s of
           (s', Ok ok) \<Rightarrow>
             let door1 = (if limiter_state door (now_ms t) \<noteq> Closed then limiter_clear door else door)
             in (record_success door1, s', if ok then Allow else Limited)
         | (s', Err _) \<Rightarrow>
             let (door1, opened) = record_failure door (now_ms t);
                 (door2, dec) = charge_locally door1 key (u32_as_i32 limit) t
             in (door2, s', dec)))"

section \<open>What Redis documents of sorted sets\<close>

text \<open>
  \<open>view s t key\<close> is the sorted set under a key at time \<open>t\<close>, empty once it has expired. The
  server answers; a removal by score holds from then on; an addition replaces an entry with the
  same member; \<open>EXPIRE\<close> keeps the set at least until its time.
\<close>

type_synonym 's zset_view = "'s \<Rightarrow> int \<Rightarrow> string \<Rightarrow> (string \<times> int) set"

definition zrem_law :: "'s zset_server \<Rightarrow> 's zset_view \<Rightarrow> bool" where
  "zrem_law Z view \<longleftrightarrow>
     (\<forall>s t k hi. \<exists>s' n. zrembyscore Z s t k hi = (s', Ok n) \<and>
        (\<forall>t' \<ge> t. view s' t' k = {p \<in> view s t' k. hi < snd p}))"

definition zcount_law :: "'s zset_server \<Rightarrow> 's zset_view \<Rightarrow> bool" where
  "zcount_law Z view \<longleftrightarrow>
     (\<forall>s t k lo. zcount Z s t k lo = Ok (card {p \<in> view s t k. lo \<le> snd p}))"

definition zadd_law :: "'s zset_server \<Rightarrow> 's zset_view \<Rightarrow> bool" where
  "zadd_law Z view \<longleftrightarrow>
     (\<forall>s t k m sc. \<exists>s' n. zadd Z s t k m sc = (s', Ok n) \<and>
        view s' t k = insert (m, sc) {p \<in> view s t k. fst p \<noteq> m})"

definition zexpire_law :: "'s zset_server \<Rightarrow> 's zset_view \<Rightarrow> bool" where
  "zexpire_law Z view \<longleftrightarrow>
     (\<forall>s t k secs. \<exists>s' b. zexpire Z s t k secs = (s', Ok b) \<and>
        (\<forall>t' \<ge> t. t' < t + secs * 1000 \<longrightarrow> view s' t' k = view s t k))"

definition zset_server_ok :: "'s zset_server \<Rightarrow> 's zset_view \<Rightarrow> bool" where
  "zset_server_ok Z view \<longleftrightarrow> (\<forall>s t k. finite (view s t k)) \<and>
     zrem_law Z view \<and> zcount_law Z view \<and> zadd_law Z view \<and> zexpire_law Z view"

section \<open>Sequences of checks\<close>

fun run_window ::
    "'s zset_server \<Rightarrow> string \<Rightarrow> nat \<Rightarrow> int \<Rightarrow> clock list \<Rightarrow> 's \<Rightarrow> (clock \<times> (string, bool) result) list"
  where
  "run_window Z key limit w [] s = []"
| "run_window Z key limit w (t # ts) s =
     (let (s', r) = sliding_window_check_and_record Z key limit w t s
      in (t, r) # run_window Z key limit w ts s')"

definition granted :: "int \<Rightarrow> int \<Rightarrow> (clock \<times> (string, bool) result) list \<Rightarrow> nat" where
  "granted a b log = length (filter (\<lambda>(t, r). r = Ok True \<and> a < now_ms t \<and> now_ms t \<le> b) log)"

text \<open>Calls in the order of their clocks, with distinct nanosecond readings.\<close>

definition calls_ordered :: "clock list \<Rightarrow> bool" where
  "calls_ordered ts \<longleftrightarrow> sorted_wrt (\<lambda>x y. now_ms x \<le> now_ms y) ts \<and>
     distinct (map now_nanos ts) \<and> (\<forall>t \<in> set ts. now_nanos t \<noteq> None)"

section \<open>The limit holds in every window\<close>

text \<open>
  \<open>remembers view s key w a\<close>: at any later time, every recorded event younger than the window
  is still in the sorted set.
\<close>

definition remembers ::
    "'s zset_view \<Rightarrow> 's \<Rightarrow> string \<Rightarrow> int \<Rightarrow> int \<Rightarrow> (string \<times> int) set \<Rightarrow> bool" where
  "remembers view s key w now recorded \<longleftrightarrow>
     (\<forall>p \<in> recorded. snd p \<le> now \<and>
        (\<forall>t' \<ge> now. t' < snd p + w * 1000 \<longrightarrow> p \<in> view s t' key))"

definition ms_member :: "clock \<Rightarrow> string \<times> int" where
  "ms_member t = (event_member t 0, now_ms t)"

lemma event_member_nanos:
  "now_nanos t \<noteq> None \<Longrightarrow> event_member t n = event_member t 0"
  by (auto simp: event_member_def)

lemma event_member_inj:
  assumes "now_nanos t \<noteq> None" "now_nanos u \<noteq> None" "event_member t 0 = event_member u 0"
  shows "now_nanos t = now_nanos u"
  using assms by (auto simp: event_member_def)

lemma window_step:
  assumes Z: "zset_server_ok Z view" and w: "0 \<le> w" and nn: "now_nanos t \<noteq> None"
    and rem: "remembers view s key w now recorded" and now: "now \<le> now_ms t"
    and fresh: "\<forall>p \<in> recorded. fst p \<noteq> event_member t 0"
    and fin: "finite recorded"
    and run: "sliding_window_check_and_record Z key limit w t s = (s', r)"
  shows "(r = Ok False \<and> remembers view s' key w (now_ms t) recorded) \<or>
    (r = Ok True \<and> remembers view s' key w (now_ms t) (insert (ms_member t) recorded) \<and>
     card {p \<in> recorded. now_ms t - w * 1000 < snd p} < limit)"
proof -
  let ?now = "now_ms t" and ?lo = "now_ms t - w * 1000"
  have laws: "zrem_law Z view" "zcount_law Z view" "zadd_law Z view" "zexpire_law Z view"
    using Z by (simp_all add: zset_server_ok_def)
  obtain s1 n1 where s1: "zrembyscore Z s ?now key ?lo = (s1, Ok n1)"
      "\<forall>t' \<ge> ?now. view s1 t' key = {p \<in> view s t' key. ?lo < snd p}"
    using zrem_law_def [THEN iffD1, rule_format, OF laws(1), of s ?now key ?lo] by blast
  let ?live = "{p \<in> view s1 ?now key. ?lo + 1 \<le> snd p}"
  have cnt: "zcount Z s1 ?now key (?lo + 1) = Ok (card ?live)"
    using laws(2) by (simp add: zcount_law_def)
  have rem1: "remembers view s1 key w ?now recorded"
    using rem now s1(2) unfolding remembers_def
    by (auto simp: less_diff_eq diff_less_eq simp del: split_paired_All intro: order_trans)
  show ?thesis
  proof (cases "limit \<le> card ?live")
    case True
    then have "s' = s1" "r = Ok False"
      using run s1(1) cnt by (simp_all add: sliding_window_check_and_record_def Let_def)
    with rem1 show ?thesis by simp
  next
    case False
    let ?m = "event_member t 0"
    obtain s2 n2 where s2: "zadd Z s1 ?now key ?m ?now = (s2, Ok n2)"
        "view s2 ?now key = insert (?m, ?now) {p \<in> view s1 ?now key. fst p \<noteq> ?m}"
      using zadd_law_def [THEN iffD1, rule_format, OF laws(3), of s1 ?now key ?m ?now] by blast
    obtain s3 b where s3: "zexpire Z s2 ?now key (w + 60) = (s3, Ok b)"
        "\<forall>t' \<ge> ?now. t' < ?now + (w + 60) * 1000 \<longrightarrow> view s3 t' key = view s2 ?now key"
      using zexpire_law_def [THEN iffD1, rule_format, OF laws(4), of s2 ?now key "w + 60"] by blast
    have res: "s' = s3" "r = Ok True"
      using run s1(1) cnt False s2(1) s3(1) event_member_nanos [OF nn, of "card ?live"]
      by (simp_all add: sliding_window_check_and_record_def Let_def)
    have old: "p \<in> view s1 ?now key" if "p \<in> recorded" "?now < snd p + w * 1000" for p
      using rem1 that unfolding remembers_def by blast
    have "p \<in> view s3 t' key"
      if p: "p \<in> insert (ms_member t) recorded" and t': "?now \<le> t'" "t' < snd p + w * 1000" for p t'
    proof -
      have "snd p \<le> ?now" using p rem1 by (auto simp: remembers_def ms_member_def)
      moreover have "p \<in> view s2 ?now key"
        using p t' old [of p] fresh s2(2) by (auto simp: ms_member_def)
      ultimately show ?thesis using s3(2) t' by simp
    qed
    moreover have "\<forall>p \<in> insert (ms_member t) recorded. snd p \<le> ?now"
      using rem1 by (auto simp: remembers_def ms_member_def)
    ultimately have "remembers view s3 key w ?now (insert (ms_member t) recorded)"
      unfolding remembers_def by blast
    moreover have "card {p \<in> recorded. ?lo < snd p} \<le> card ?live"
    proof (rule card_mono)
      show "finite ?live" using Z by (simp add: zset_server_ok_def)
      show "{p \<in> recorded. ?lo < snd p} \<subseteq> ?live" using old by auto
    qed
    ultimately show ?thesis using res False by simp
  qed
qed

lemma run_window_bound:
  assumes Z: "zset_server_ok Z view" and w: "0 \<le> w" and ord: "calls_ordered ts"
    and rem: "remembers view s key w now recorded" and now: "\<forall>t \<in> set ts. now \<le> now_ms t"
    and fresh: "\<forall>p \<in> recorded. \<forall>t \<in> set ts. fst p \<noteq> event_member t 0" and fin: "finite recorded"
    and bound: "\<forall>a. card {p \<in> recorded. a < snd p \<and> snd p \<le> a + w * 1000} \<le> limit"
  shows "card {p \<in> recorded. a < snd p \<and> snd p \<le> a + w * 1000}
    + granted a (a + w * 1000) (run_window Z key limit w ts s) \<le> limit"
  using ord rem now fresh fin bound
proof (induction ts arbitrary: s now recorded)
  case Nil
  then show ?case by (simp add: granted_def)
next
  case (Cons t ts)
  obtain s' r where run: "sliding_window_check_and_record Z key limit w t s = (s', r)" by fastforce
  have nn: "now_nanos t \<noteq> None" and ord': "calls_ordered ts"
    and later: "\<forall>u \<in> set ts. now_ms t \<le> now_ms u"
    using Cons.prems(1) by (auto simp: calls_ordered_def)
  let ?in = "\<lambda>R. {p \<in> R. a < snd p \<and> snd p \<le> a + w * 1000}"
  from window_step [OF Z w nn Cons.prems(2) _ _ Cons.prems(5) run] Cons.prems(3,4)
  consider (no) "r = Ok False" "remembers view s' key w (now_ms t) recorded"
    | (yes) "r = Ok True" "remembers view s' key w (now_ms t) (insert (ms_member t) recorded)"
        "card {p \<in> recorded. now_ms t - w * 1000 < snd p} < limit"
    by auto
  then show ?case
  proof cases
    case no
    have "card (?in recorded) + granted a (a + w * 1000) (run_window Z key limit w ts s') \<le> limit"
      using Cons.IH [OF ord' no(2) later _ Cons.prems(5,6)] Cons.prems(4) by simp
    with no(1) run show ?thesis by (simp add: granted_def)
  next
    case yes
    let ?R = "insert (ms_member t) recorded"
    have notin: "ms_member t \<notin> recorded" using Cons.prems(4) by (auto simp: ms_member_def)
    have ins: "card {p \<in> ?R. b < snd p \<and> snd p \<le> b + w * 1000}
        = card {p \<in> recorded. b < snd p \<and> snd p \<le> b + w * 1000}
          + (if b < now_ms t \<and> now_ms t \<le> b + w * 1000 then 1 else 0)" for b
    proof -
      have "{p \<in> ?R. b < snd p \<and> snd p \<le> b + w * 1000}
          = (if b < now_ms t \<and> now_ms t \<le> b + w * 1000
             then insert (ms_member t) {p \<in> recorded. b < snd p \<and> snd p \<le> b + w * 1000}
             else {p \<in> recorded. b < snd p \<and> snd p \<le> b + w * 1000})"
        by (auto simp: ms_member_def)
      then show ?thesis using Cons.prems(5) notin by simp
    qed
    have bound': "card {p \<in> ?R. b < snd p \<and> snd p \<le> b + w * 1000} \<le> limit" for b
    proof (cases "b < now_ms t \<and> now_ms t \<le> b + w * 1000")
      case True
      have "card {p \<in> recorded. b < snd p \<and> snd p \<le> b + w * 1000}
          \<le> card {p \<in> recorded. now_ms t - w * 1000 < snd p}"
        using Cons.prems(5) True by (intro card_mono) auto
      with yes(3) ins [of b] True show ?thesis by simp
    next
      case False
      with ins [of b] Cons.prems(6) show ?thesis by simp
    qed
    have fresh': "\<forall>p \<in> ?R. \<forall>u \<in> set ts. fst p \<noteq> event_member u 0"
    proof -
      have "event_member t 0 \<noteq> event_member u 0" if "u \<in> set ts" for u
      proof
        assume eq: "event_member t 0 = event_member u 0"
        have "now_nanos u \<noteq> None" using Cons.prems(1) that by (auto simp: calls_ordered_def)
        from event_member_inj [OF nn this eq] have "now_nanos t \<in> set (map now_nanos ts)"
          using that by auto
        then show False using Cons.prems(1) by (simp add: calls_ordered_def)
      qed
      with Cons.prems(4) show ?thesis by (auto simp: ms_member_def)
    qed
    have "card (?in ?R) + granted a (a + w * 1000) (run_window Z key limit w ts s') \<le> limit"
      using Cons.IH [OF ord' yes(2) later fresh'] Cons.prems(5) bound' by simp
    with ins [of a] yes(1) run show ?thesis by (auto simp: granted_def split: if_splits)
  qed
qed


subsection \<open>A Redis sorted set\<close>

text \<open>Per key the entries and the time they expire at.\<close>

type_synonym zset_store = "string \<Rightarrow> (string \<times> int) list \<times> int option"

definition store_at :: "zset_store \<Rightarrow> int \<Rightarrow> string \<Rightarrow> (string \<times> int) list" where
  "store_at s t k = (case snd (s k) of Some e \<Rightarrow> if e < t then [] else fst (s k) | None \<Rightarrow> fst (s k))"

definition sample_zset :: "zset_store zset_server" where
  "sample_zset =
     \<lparr> zrembyscore = (\<lambda>s t k hi. (s(k := (filter (\<lambda>p. hi < snd p) (fst (s k)), snd (s k))), Ok 0)),
       zcount = (\<lambda>s t k lo. Ok (card (set (filter (\<lambda>p. lo \<le> snd p) (store_at s t k))))),
       zadd = (\<lambda>s t k m sc. (s(k := ((m, sc) # filter (\<lambda>p. fst p \<noteq> m) (store_at s t k), None)), Ok 1)),
       zexpire = (\<lambda>s t k secs. (s(k := (store_at s t k, Some (t + secs * 1000))), Ok True)) \<rparr>"

definition sample_view :: "zset_store zset_view" where
  "sample_view s t k = set (store_at s t k)"

lemma sample_zset_ok: "zset_server_ok sample_zset sample_view"
proof -
  have "zrem_law sample_zset sample_view"
    by (auto simp: zrem_law_def sample_zset_def sample_view_def store_at_def split: option.splits if_splits)
  moreover have "zcount_law sample_zset sample_view"
    by (simp add: zcount_law_def sample_zset_def sample_view_def)
  moreover have "zadd_law sample_zset sample_view"
    by (auto simp: zadd_law_def sample_zset_def sample_view_def store_at_def)
  moreover have "zexpire_law sample_zset sample_view"
    by (auto simp: zexpire_law_def sample_zset_def sample_view_def store_at_def)
  ultimately show ?thesis by (simp add: zset_server_ok_def sample_view_def)
qed


section \<open>The door during an outage\<close>

definition zset_down :: "'s zset_server \<Rightarrow> bool" where
  "zset_down Z \<longleftrightarrow> (\<forall>s t k hi. \<exists>e. snd (zrembyscore Z s t k hi) = Err e)"

fun run_door ::
    "'s zset_server \<Rightarrow> nat \<Rightarrow> (string \<times> clock) list \<Rightarrow> degraded_limiter \<Rightarrow> 's
     \<Rightarrow> (string \<times> sealed_ip_decision) list" where
  "run_door Z limit [] door s = []"
| "run_door Z limit ((ip, t) # cs) door s =
     (let (door', s', dec) = check_sealed_ip_limit Z limit ip t door s
      in (ip, dec) # run_door Z limit cs door' s')"

definition let_in :: "string \<Rightarrow> (string \<times> sealed_ip_decision) list \<Rightarrow> nat" where
  "let_in b log = length (filter (\<lambda>(ip, dec). client_rate_bucket ip = b \<and> dec = Allow) log)"

definition door_key :: "string \<Rightarrow> string" where
  "door_key b = ''sealed_ip:'' @ b"

lemma record_failure_table:
  "spent (fst (record_failure l t)) ws h = spent l ws h"
  "table_size (fst (record_failure l t)) = table_size l"
  "limiter_ok l \<Longrightarrow> limiter_ok (fst (record_failure l t))"
  by (simp_all add: record_failure_def spent_def lookup_def table_size_def limiter_ok_def Let_def)

lemma outage_door:
  assumes "zset_down Z" "check_sealed_ip_limit Z limit ip t door s = (door', s', dec)"
  obtains d where "d = door \<or> d = fst (record_failure door (now_ms t))"
    and "door' = fst (charge d (door_key (client_rate_bucket ip)) (u32_as_i32 limit) 60 (now_ms t div 1000))"
    and "dec = Allow \<longleftrightarrow> allowed (snd (charge d (door_key (client_rate_bucket ip)) (u32_as_i32 limit) 60 (now_ms t div 1000)))"
proof (cases "should_skip_redis door (now_ms t)")
  case True
  then show ?thesis
    using assms(2) that [of door]
    by (auto simp: check_sealed_ip_limit_def charge_locally_def door_key_def split: prod.splits)
next
  case False
  obtain e s1 where "zrembyscore Z s (now_ms t) (door_key (client_rate_bucket ip)) (now_ms t - 60 * 1000) = (s1, Err e)"
    using assms(1) unfolding zset_down_def by (metis prod.collapse)
  then show ?thesis
    using assms(2) False that [of "fst (record_failure door (now_ms t))"]
    by (auto simp: check_sealed_ip_limit_def sliding_window_check_and_record_def charge_locally_def
        door_key_def split: prod.splits)
qed

lemma door_bound:
  assumes "zset_down Z" "0 < limit" "limit < 2 ^ 31"
    and "limiter_ok door" "table_size door + length cs < MAX_TRACKED_KEYS"
    and "\<forall>(ip, t) \<in> set cs. window_of 60 (now_ms t div 1000) = ws"
  shows "let_in b (run_door Z limit cs door s) + spent door ws (fxhash (door_key b))
    \<le> max (spent door ws (fxhash (door_key b))) limit"
  using assms(4-6)
proof (induction cs arbitrary: door s)
  case Nil
  then show ?case by (simp add: let_in_def)
next
  case (Cons c cs)
  obtain ip t where c: "c = (ip, t)" by fastforce
  obtain door' s' dec where run: "check_sealed_ip_limit Z limit ip t door s = (door', s', dec)"
    by (metis prod_cases3)
  let ?lim = "u32_as_i32 limit" and ?k = "door_key (client_rate_bucket ip)" and ?h = "fxhash (door_key b)"
  have lim: "?lim = int limit" using assms(3) by (simp add: u32_as_i32_def)
  from outage_door [OF assms(1) run] obtain d where d: "d = door \<or> d = fst (record_failure door (now_ms t))"
    and door': "door' = fst (charge d ?k ?lim 60 (now_ms t div 1000))"
    and dec: "dec = Allow \<longleftrightarrow> allowed (snd (charge d ?k ?lim 60 (now_ms t div 1000)))" by blast
  have dd: "spent d ws ?h = spent door ws ?h" "table_size d = table_size door" "limiter_ok d"
    using d record_failure_table Cons.prems(1) by auto
  have ws: "window_of 60 (now_ms t div 1000) = ws" using Cons.prems(3) c by simp
  have pos: "0 < ?lim" using lim assms(2) by simp
  note sp = charge_spent [OF dd(3) pos, of ?k 60 "now_ms t div 1000", unfolded ws, folded door' dec]
  have gr: "tracked_event (snd (charge d ?k ?lim 60 (now_ms t div 1000)))"
      "table_size door' \<le> table_size door + 1"
    using charge_growth [OF dd(3) _ pos, of ?k 60 "now_ms t div 1000"] dd(2) Cons.prems(2) door' by auto
  have ih: "let_in b (run_door Z limit cs door' s') + spent door' ws ?h \<le> max (spent door' ws ?h) limit"
    using Cons.IH [of door' s'] charge_ok [OF dd(3)] door' gr(2) Cons.prems(2,3) by simp
  have log: "let_in b (run_door Z limit (c # cs) door s) = let_in b (run_door Z limit cs door' s')
      + (if client_rate_bucket ip = b \<and> dec = Allow then 1 else 0)"
    by (simp add: let_in_def c run)
  show ?case
  proof (cases "fxhash ?k = ?h")
    case True
    then have s': "spent door' ws ?h = saturating_inc (spent door ws ?h)"
      and al: "dec = Allow \<longleftrightarrow> saturating_inc (spent door ws ?h) \<le> limit"
      using sp gr(1) dd(1) lim by simp_all
    then show ?thesis
      using ih log assms(3) by (auto simp: saturating_inc_def min_def max_def split: if_splits)
  next
    case False
    then have "spent door' ws ?h = spent door ws ?h" using sp dd(1) by simp
    moreover have "client_rate_bucket ip \<noteq> b" using False by auto
    ultimately show ?thesis using ih log by simp
  qed
qed

text \<open>
  C22. An outage does not open the door. While Redis fails, as long as the fallback table has
  room, the number of sealed sends let in for one client bucket within one minute of the local
  clock is at most the configured limit, whatever the breaker's state and whatever other clients
  send in between.
\<close>

theorem outage_keeps_the_door:
  assumes "zset_down Z" "0 < limit" "limit < 2 ^ 31" "limiter_ok door"
    and "table_size door + length cs < 50000"
    and "\<forall>(ip, t) \<in> set cs. window_of 60 (now_ms t div 1000) = ws"
  shows "let_in b (run_door Z limit cs door s) \<le> limit"
  using door_bound [OF assms(1-4) _ assms(6), of b s] assms(5) by (simp add: MAX_TRACKED_KEYS_def)

definition sample_down :: "unit zset_server" where
  "sample_down =
     \<lparr> zrembyscore = (\<lambda>s t k hi. (s, Err ''connection refused'')),
       zcount = (\<lambda>s t k lo. Err ''connection refused''),
       zadd = (\<lambda>s t k m sc. (s, Err ''connection refused'')),
       zexpire = (\<lambda>s t k secs. (s, Err ''connection refused'')) \<rparr>"

theorem outage_keeps_the_door_witness:
  "let_in ''203.0.113.9'' (run_door sample_down 1
     [(''203.0.113.9'', \<lparr>now_ms = 1000, now_nanos = None\<rparr>), (''203.0.113.9'', \<lparr>now_ms = 2000, now_nanos = None\<rparr>)]
     limiter_new ()) \<le> 1"
proof -
  have "zset_down sample_down" by (simp add: zset_down_def sample_down_def)
  moreover have "table_size limiter_new = 0"
    by (simp add: table_size_def limiter_new_def sum_list_replicate)
  ultimately show ?thesis
    using outage_keeps_the_door [of sample_down 1 limiter_new
      "[(''203.0.113.9'', \<lparr>now_ms = 1000, now_nanos = None\<rparr>), (''203.0.113.9'', \<lparr>now_ms = 2000, now_nanos = None\<rparr>)]"
      0 "''203.0.113.9''" "()"] limiter_new_ok
    by (simp add: window_of_def)
qed

end
