(* ===== verification/Call_Registry.thy ===== *)
theory Call_Registry
  imports Ip_Addr "HOL-Library.AList"
begin

text \<open>
  The call registry of the signaling service (\<open>signaling-service/src/registry.rs\<close> and
  \<open>forwarded.rs\<close>): calls and busy marks held in memory and mirrored in Redis, presence, delivery
  to the devices connected to this instance and, through pub/sub, to those of other instances.

  Redis is a record of commands on an abstract state, every one of which may fail and may change
  the state, so nothing is assumed of its contents or of expiry. \<open>PUBLISH\<close> commands are also
  kept in a log, because they are how a signal leaves the instance. Iteration over a \<open>HashMap\<close>
  follows the order \<open>map_order\<close> gives its entries.
\<close>

section \<open>Signals\<close>

record call_hangup =
  hangup_reason :: nat
  hangup_device :: string
  hangup_at :: int
  hangup_message :: "string option"

datatype signal_body =
    Offer string | Answer string | IceCandidate string | IceCandidates string | MediaUpdate string
  | Ringing string | Connected string | Busy string | Hangup call_hangup

record web_rtc_signal =
  signal_call_id :: string
  signal_of :: "signal_body option"
  sender_device_id :: string
  signal_timestamp :: int

record incoming_call =
  in_call_id :: string
  in_caller_id :: string
  in_caller_name :: string
  in_caller_avatar :: bytes
  in_call_type :: int
  in_offered_at :: int

datatype forwarded_signal =
    Signal web_rtc_signal
  | IncomingCall incoming_call
  | SignalError nat string

datatype signal_response =
    SignalResp web_rtc_signal
  | IncomingCallResp incoming_call
  | ErrorResp nat string
  | PongResp int int
  | NoResp

record instance_envelope =
  env_user_id :: string
  env_device_id :: "string option"
  response_b64 :: string

fun signal_response_from_forwarded :: "forwarded_signal \<Rightarrow> signal_response" where
  "signal_response_from_forwarded (Signal s) = SignalResp s"
| "signal_response_from_forwarded (IncomingCall c) = IncomingCallResp c"
| "signal_response_from_forwarded (SignalError code msg) = ErrorResp code msg"

fun forwarded_from_signal_response :: "signal_response \<Rightarrow> forwarded_signal option" where
  "forwarded_from_signal_response (SignalResp s) = Some (Signal s)"
| "forwarded_from_signal_response (IncomingCallResp c) = Some (IncomingCall c)"
| "forwarded_from_signal_response (ErrorResp code msg) = Some (SignalError code msg)"
| "forwarded_from_signal_response (PongResp a b) = None"
| "forwarded_from_signal_response NoResp = None"

section \<open>State\<close>

datatype call_role = Caller | Callee

record call_state =
  call_id :: string
  caller_user_id :: string
  callee_user_id :: string
  caller_device_id :: string
  accepted_callee_device_id :: "string option"
  created_at :: nat
  offered_at_ms :: int
  ringing_at_ms :: "int option"
  answered_at_ms :: "int option"
  caller_last_keepalive_at :: nat
  callee_last_keepalive_at :: nat

definition role_of :: "call_state \<Rightarrow> string \<Rightarrow> call_role option" where
  "role_of st user_id =
     (if caller_user_id st = user_id then Some Caller
      else if callee_user_id st = user_id then Some Callee
      else None)"

text \<open>A broadcast channel: whether a stream still receives from it, and what was sent.\<close>

record channel =
  receiving :: bool
  queue :: "forwarded_signal list"

datatype redis_cmd =
    HSET string "(string \<times> string) list"
  | EXPIRE string nat
  | SETEX string nat string
  | SADD string string
  | SREM string string
  | DEL string

record 's call_redis =
  rc_pipe :: "'s \<Rightarrow> redis_cmd list \<Rightarrow> 's \<times> (string, unit) result"
  rc_hgetall :: "'s \<Rightarrow> string \<Rightarrow> 's \<times> (string, (string \<times> string) list) result"
  rc_get :: "'s \<Rightarrow> string \<Rightarrow> 's \<times> (string, string option) result"
  rc_exists :: "'s \<Rightarrow> string \<Rightarrow> 's \<times> (string, bool) result"
  rc_smembers :: "'s \<Rightarrow> string \<Rightarrow> 's \<times> (string, string list) result"
  rc_scan_get :: "'s \<Rightarrow> string \<Rightarrow> 's \<times> (string, string list) result"
  rc_publish :: "'s \<Rightarrow> string \<Rightarrow> string \<Rightarrow> 's \<times> (string, nat) result"
  rc_incr_expire :: "'s \<Rightarrow> string \<Rightarrow> int \<Rightarrow> 's \<times> (string, int) result"
  rc_set_nx :: "'s \<Rightarrow> string \<Rightarrow> string \<Rightarrow> nat \<Rightarrow> 's \<times> (string, string option) result"

record 's call_env =
  rd :: "'s call_redis"
  instance_id :: string
  map_order :: "(string \<times> channel) list \<Rightarrow> (string \<times> channel) list"
  encode_response :: "signal_response \<Rightarrow> string"
  decode_response :: "string \<Rightarrow> (string, signal_response) result"
  to_json :: "instance_envelope \<Rightarrow> (string, string) result"
  from_json :: "string \<Rightarrow> (string, instance_envelope) result"
  base64 :: "bytes \<Rightarrow> string"

record 's call_registry =
  calls :: "string \<rightharpoonup> call_state"
  active_calls :: "string \<rightharpoonup> string"
  user_channels :: "string \<rightharpoonup> (string \<times> channel) list"
  redis :: 's
  published :: "(string \<times> instance_envelope) list"

record wall =
  unix_seconds :: nat
  unix_millis :: int

definition MAX_SIGNAL_DESTINATIONS :: nat where "MAX_SIGNAL_DESTINATIONS = 5"
definition ACTIVE_CALLS_SET_KEY :: string where "ACTIVE_CALLS_SET_KEY = ''signaling:active_calls''"

definition online_key :: "string \<Rightarrow> string \<Rightarrow> string" where
  "online_key user_id device_id = ''signaling:online:'' @ user_id @ '':'' @ device_id"

definition call_key :: "string \<Rightarrow> string" where
  "call_key i = ''call:'' @ i"

definition active_key :: "string \<Rightarrow> string" where
  "active_key user_id = ''user:'' @ user_id @ '':active_call''"

definition run_pipe :: "'s call_env \<Rightarrow> redis_cmd list \<Rightarrow> 's call_registry \<Rightarrow> 's call_registry" where
  "run_pipe E cmds R = R\<lparr>redis := fst (rc_pipe (rd E) (redis R) cmds)\<rparr>"

section \<open>Presence and channels\<close>

definition register_user :: "string \<Rightarrow> string \<Rightarrow> 's call_registry \<Rightarrow> 's call_registry" where
  "register_user user_id device_id R =
     (let devices = (case user_channels R user_id of Some ds \<Rightarrow> ds | None \<Rightarrow> [])
      in R\<lparr>user_channels := (user_channels R)
             (user_id \<mapsto> AList.update device_id \<lparr>receiving = True, queue = []\<rparr> devices)\<rparr>)"

definition unregister_user ::
    "'s call_env \<Rightarrow> string \<Rightarrow> string \<Rightarrow> 's call_registry \<Rightarrow> 's call_registry" where
  "unregister_user E user_id device_id R =
     (case user_channels R user_id of
        None \<Rightarrow> R
      | Some devices \<Rightarrow>
          let devices' = AList.delete device_id devices;
              users = (if devices' = [] then (user_channels R)(user_id := None)
                       else (user_channels R)(user_id \<mapsto> devices'))
          in run_pipe E [DEL (online_key user_id device_id)] (R\<lparr>user_channels := users\<rparr>))"

definition get_user_senders ::
    "'s call_env \<Rightarrow> string \<Rightarrow> 's call_registry \<Rightarrow> (string \<times> channel) list" where
  "get_user_senders E user_id R =
     (case user_channels R user_id of Some ds \<Rightarrow> map_order E ds | None \<Rightarrow> [])"

definition touch_online ::
    "'s call_env \<Rightarrow> string \<Rightarrow> string \<Rightarrow> 's call_registry \<Rightarrow> 's call_registry" where
  "touch_online E user_id device_id R =
     run_pipe E [SETEX (online_key user_id device_id) 90 (instance_id E)] R"

definition lookup_device_instance ::
    "'s call_env \<Rightarrow> string \<Rightarrow> string \<Rightarrow> 's call_registry \<Rightarrow> 's call_registry \<times> string option" where
  "lookup_device_instance E user_id device_id R =
     (let (s, r) = rc_get (rd E) (redis R) (online_key user_id device_id)
      in (R\<lparr>redis := s\<rparr>, case r of Ok v \<Rightarrow> v | Err _ \<Rightarrow> None))"

fun chunk_pairs :: "string list \<Rightarrow> (string \<times> string) list" where
  "chunk_pairs (k # v # r) = (k, v) # chunk_pairs r"
| "chunk_pairs _ = []"

definition list_online_devices ::
    "'s call_env \<Rightarrow> string \<Rightarrow> 's call_registry \<Rightarrow> 's call_registry \<times> (string \<times> string) list" where
  "list_online_devices E user_id R =
     (let (s, r) = rc_scan_get (rd E) (redis R) (''signaling:online:'' @ user_id @ '':*'');
          results = (case r of Ok v \<Rightarrow> v | Err _ \<Rightarrow> []);
          named = map (\<lambda>(key, inst). (case rsplit_once (CHR '':'') key of Some (_, d) \<Rightarrow> d | None \<Rightarrow> [], inst))
                    (chunk_pairs results)
      in (R\<lparr>redis := s\<rparr>, filter (\<lambda>(d, inst). d \<noteq> []) named))"

section \<open>Delivery\<close>

fun pick_local :: "string option \<Rightarrow> nat \<Rightarrow> (string \<times> channel) list \<Rightarrow> string list" where
  "pick_local target sent [] = []"
| "pick_local target sent ((d, ch) # cs) =
     (if target \<noteq> None \<and> target \<noteq> Some d then pick_local target sent cs
      else if MAX_SIGNAL_DESTINATIONS \<le> sent then []
      else if receiving ch then d # pick_local target (sent + 1) cs
      else pick_local target sent cs)"

definition push_signal ::
    "string \<Rightarrow> string list \<Rightarrow> forwarded_signal \<Rightarrow> 's call_registry \<Rightarrow> 's call_registry" where
  "push_signal user_id ds sig R =
     (case user_channels R user_id of
        None \<Rightarrow> R
      | Some devices \<Rightarrow>
          R\<lparr>user_channels := (user_channels R)
              (user_id \<mapsto> map (\<lambda>(d, ch). (d, if d \<in> set ds then ch\<lparr>queue := queue ch @ [sig]\<rparr> else ch)) devices)\<rparr>)"

definition send_local_to_user ::
    "'s call_env \<Rightarrow> string \<Rightarrow> string option \<Rightarrow> forwarded_signal \<Rightarrow> 's call_registry
     \<Rightarrow> 's call_registry \<times> nat" where
  "send_local_to_user E user_id target sig R =
     (let ds = pick_local target 0 (get_user_senders E user_id R)
      in (push_signal user_id ds sig R, length ds))"

definition publish_to_instance ::
    "'s call_env \<Rightarrow> string \<Rightarrow> instance_envelope \<Rightarrow> 's call_registry \<Rightarrow> 's call_registry \<times> bool" where
  "publish_to_instance E inst env R =
     (case to_json E env of
        Err _ \<Rightarrow> (R, False)
      | Ok payload \<Rightarrow>
          let (s, r) = rc_publish (rd E) (redis R) (''signaling:instance:'' @ inst) payload
          in (R\<lparr>redis := s, published := published R @ [(''signaling:instance:'' @ inst, env)]\<rparr>,
              case r of Ok _ \<Rightarrow> True | Err _ \<Rightarrow> False))"

fun publish_all ::
    "'s call_env \<Rightarrow> string \<Rightarrow> string option \<Rightarrow> string \<Rightarrow> nat \<Rightarrow> (string \<times> string) list
     \<Rightarrow> 's call_registry \<Rightarrow> 's call_registry \<times> nat" where
  "publish_all E user_id except b64 n [] R = (R, n)"
| "publish_all E user_id except b64 n ((d, inst) # ds) R =
     (if MAX_SIGNAL_DESTINATIONS \<le> n then (R, n)
      else if Some d = except then publish_all E user_id except b64 n ds R
      else if inst = instance_id E then publish_all E user_id except b64 n ds R
      else
        let (R1, ok) = publish_to_instance E inst
                         \<lparr>env_user_id = user_id, env_device_id = Some d, response_b64 = b64\<rparr> R
        in publish_all E user_id except b64 (if ok then n + 1 else n) ds R1)"

definition send_remote_to_user ::
    "'s call_env \<Rightarrow> string \<Rightarrow> string option \<Rightarrow> string option \<Rightarrow> forwarded_signal \<Rightarrow> 's call_registry
     \<Rightarrow> 's call_registry \<times> nat" where
  "send_remote_to_user E user_id target except sig R =
     (let b64 = encode_response E (signal_response_from_forwarded sig) in
      case target of
        Some d \<Rightarrow>
          if Some d = except then (R, 0)
          else
            (case lookup_device_instance E user_id d R of
               (R1, None) \<Rightarrow> (R1, 0)
             | (R1, Some inst) \<Rightarrow>
                 if inst = instance_id E then (R1, 0)
                 else
                   let (R2, ok) = publish_to_instance E inst
                         \<lparr>env_user_id = user_id, env_device_id = Some d, response_b64 = b64\<rparr> R1
                   in (R2, if ok then 1 else 0))
      | None \<Rightarrow>
          let (R1, devices) = list_online_devices E user_id R
          in publish_all E user_id except b64 0 devices R1)"

definition send_to_user ::
    "'s call_env \<Rightarrow> string \<Rightarrow> string option \<Rightarrow> forwarded_signal \<Rightarrow> 's call_registry
     \<Rightarrow> 's call_registry \<times> nat" where
  "send_to_user E user_id target sig R =
     (let (R1, l) = send_local_to_user E user_id target sig R;
          (R2, r) = send_remote_to_user E user_id target None sig R1
      in (R2, l + r))"

definition send_to_user_except ::
    "'s call_env \<Rightarrow> string \<Rightarrow> string \<Rightarrow> forwarded_signal \<Rightarrow> 's call_registry
     \<Rightarrow> 's call_registry \<times> nat" where
  "send_to_user_except E user_id except sig R =
     (let ds = map fst (filter (\<lambda>(d, ch). d \<noteq> except \<and> receiving ch) (get_user_senders E user_id R));
          R1 = push_signal user_id ds sig R;
          (R2, r) = send_remote_to_user E user_id None (Some except) sig R1
      in (R2, length ds + r))"

section \<open>Calls\<close>

definition create_call ::
    "'s call_env \<Rightarrow> wall \<Rightarrow> string \<Rightarrow> string \<Rightarrow> string \<Rightarrow> string \<Rightarrow> int \<Rightarrow> 's call_registry
     \<Rightarrow> 's call_registry" where
  "create_call E t i caller caller_device callee offered R =
     (let now = unix_seconds t;
          st = \<lparr> call_id = i, caller_user_id = caller, callee_user_id = callee,
                 caller_device_id = caller_device, accepted_callee_device_id = None,
                 created_at = now, offered_at_ms = offered, ringing_at_ms = None,
                 answered_at_ms = None, caller_last_keepalive_at = now,
                 callee_last_keepalive_at = now \<rparr>;
          R1 = R\<lparr>calls := (calls R)(i \<mapsto> st),
                 active_calls := (active_calls R)(caller \<mapsto> i, callee \<mapsto> i)\<rparr>
      in run_pipe E
           [HSET (call_key i)
              [(''call_id'', i), (''caller_user_id'', caller), (''caller_device_id'', caller_device),
               (''callee_user_id'', callee), (''accepted_callee_device_id'', []), (''offer_b64'', []),
               (''caller_name'', []), (''caller_avatar_b64'', []), (''created_at_s'', show_nat now),
               (''offered_at_ms'', show_int offered), (''ringing_at_ms'', []), (''answered_at_ms'', []),
               (''caller_last_keepalive_at_s'', show_nat now),
               (''callee_last_keepalive_at_s'', show_nat now)],
            EXPIRE (call_key i) 300,
            SETEX (active_key caller) 300 i,
            SETEX (active_key callee) 300 i,
            SADD ACTIVE_CALLS_SET_KEY i,
            EXPIRE ACTIVE_CALLS_SET_KEY 300] R1)"

text \<open>
  \<open>chars().take(128)\<close>: strings are bytes here, so the cut falls before the 129th byte that starts
  a character.
\<close>

fun take_chars :: "nat \<Rightarrow> string \<Rightarrow> string" where
  "take_chars n [] = []"
| "take_chars n (c # cs) =
     (if utf8_cont (of_char c) then c # take_chars n cs
      else if n = 0 then [] else c # take_chars (n - 1) cs)"

definition store_call_metadata ::
    "'s call_env \<Rightarrow> string \<Rightarrow> string \<Rightarrow> bytes \<Rightarrow> 's call_registry \<Rightarrow> 's call_registry" where
  "store_call_metadata E i caller_name caller_avatar R =
     run_pipe E
       [HSET (call_key i)
          [(''caller_name'', take_chars 128 caller_name),
           (''caller_avatar_b64'', if length caller_avatar \<le> 4096 then base64 E caller_avatar else [])],
        EXPIRE (call_key i) 300] R"

definition remove_call :: "'s call_env \<Rightarrow> string \<Rightarrow> 's call_registry \<Rightarrow> 's call_registry" where
  "remove_call E i R =
     (case calls R i of
        None \<Rightarrow> R
      | Some st \<Rightarrow>
          run_pipe E
            [DEL (call_key i), DEL (active_key (caller_user_id st)), DEL (active_key (callee_user_id st)),
             SREM ACTIVE_CALLS_SET_KEY i]
            (R\<lparr>calls := (calls R)(i := None),
               active_calls := (active_calls R)(caller_user_id st := None, callee_user_id st := None)\<rparr>))"

definition nonempty :: "string \<Rightarrow> string option" where
  "nonempty s = (if s = [] then None else Some s)"

definition parse_call :: "wall \<Rightarrow> string \<Rightarrow> (string \<rightharpoonup> string) \<Rightarrow> call_state option" where
  "parse_call t i m =
     (case (m ''caller_user_id'', m ''callee_user_id'', m ''caller_device_id'') of
        (Some caller, Some callee, Some device) \<Rightarrow>
          (let num = (\<lambda>f. Option.bind (m f) (parse_unsigned 64));
               ms = (\<lambda>f. Option.bind (m f) parse_i64);
               created = (case num ''created_at_s'' of Some n \<Rightarrow> n | None \<Rightarrow> unix_seconds t)
           in Some \<lparr> call_id = i, caller_user_id = caller, callee_user_id = callee,
                     caller_device_id = device,
                     accepted_callee_device_id = Option.bind (m ''accepted_callee_device_id'') nonempty,
                     created_at = created,
                     offered_at_ms = (case ms ''offered_at_ms'' of Some n \<Rightarrow> n | None \<Rightarrow> unix_millis t),
                     ringing_at_ms = ms ''ringing_at_ms'', answered_at_ms = ms ''answered_at_ms'',
                     caller_last_keepalive_at =
                       (case num ''caller_last_keepalive_at_s'' of Some n \<Rightarrow> n | None \<Rightarrow> created),
                     callee_last_keepalive_at =
                       (case num ''callee_last_keepalive_at_s'' of Some n \<Rightarrow> n | None \<Rightarrow> created) \<rparr>)
      | _ \<Rightarrow> None)"

definition load_call_state ::
    "'s call_env \<Rightarrow> wall \<Rightarrow> string \<Rightarrow> 's call_registry \<Rightarrow> 's call_registry \<times> call_state option" where
  "load_call_state E t i R =
     (case calls R i of
        Some st \<Rightarrow> (R, Some st)
      | None \<Rightarrow>
          let (s, r) = rc_hgetall (rd E) (redis R) (call_key i); R1 = R\<lparr>redis := s\<rparr>
          in (case r of
               Err _ \<Rightarrow> (R1, None)
             | Ok m \<Rightarrow>
                 if m = [] then (R1, None)
                 else
                   (case parse_call t i (map_of m) of
                      None \<Rightarrow> (R1, None)
                    | Some st \<Rightarrow> (R1\<lparr>calls := (calls R1)(i \<mapsto> st)\<rparr>, Some st))))"

definition call_exists_in_redis ::
    "'s call_env \<Rightarrow> string \<Rightarrow> 's call_registry \<Rightarrow> 's call_registry \<times> bool" where
  "call_exists_in_redis E i R =
     (let (s, r) = rc_exists (rd E) (redis R) (call_key i)
      in (R\<lparr>redis := s\<rparr>, case r of Ok b \<Rightarrow> b | Err _ \<Rightarrow> False))"

definition get_user_call ::
    "'s call_env \<Rightarrow> string \<Rightarrow> 's call_registry \<Rightarrow> 's call_registry \<times> string option" where
  "get_user_call E user_id R =
     (case active_calls R user_id of
        Some i \<Rightarrow>
          let (R1, there) = call_exists_in_redis E i R
          in if there then (R1, Some i) else (remove_call E i R1, None)
      | None \<Rightarrow>
          let (s, r) = rc_get (rd E) (redis R) (active_key user_id); R1 = R\<lparr>redis := s\<rparr>
          in (case r of
               Err _ \<Rightarrow> (R1, None)
             | Ok None \<Rightarrow> (R1, None)
             | Ok (Some i) \<Rightarrow>
                 let (R2, there) = call_exists_in_redis E i R1
                 in if there then (R2\<lparr>active_calls := (active_calls R2)(user_id \<mapsto> i)\<rparr>, Some i)
                    else (run_pipe E [DEL (active_key user_id)] R2, None)))"

definition is_user_busy ::
    "'s call_env \<Rightarrow> string \<Rightarrow> 's call_registry \<Rightarrow> 's call_registry \<times> bool" where
  "is_user_busy E user_id R = (let (R1, c) = get_user_call E user_id R in (R1, c \<noteq> None))"

definition call_ended_by_disconnect ::
    "'s call_env \<Rightarrow> wall \<Rightarrow> string \<Rightarrow> string \<Rightarrow> 's call_registry
     \<Rightarrow> 's call_registry \<times> call_state option" where
  "call_ended_by_disconnect E t user_id device_id R =
     (case get_user_call E user_id R of
        (R1, None) \<Rightarrow> (R1, None)
      | (R1, Some i) \<Rightarrow>
          (case load_call_state E t i R1 of
             (R2, None) \<Rightarrow> (R2, None)
           | (R2, Some st) \<Rightarrow>
               if caller_user_id st = user_id \<and> caller_device_id st = device_id then (R2, Some st)
               else if callee_user_id st = user_id \<and> accepted_callee_device_id st = Some device_id then
                 (let (R3, others) = list_online_devices E user_id R2
                  in (R3, if others = [] then Some st else None))
               else (R2, None)))"

definition note_keepalive ::
    "'s call_env \<Rightarrow> wall \<Rightarrow> string \<Rightarrow> 's call_registry \<Rightarrow> 's call_registry" where
  "note_keepalive E t user_id R =
     (case get_user_call E user_id R of
        (R1, None) \<Rightarrow> R1
      | (R1, Some i) \<Rightarrow>
          (case load_call_state E t i R1 of
             (R2, None) \<Rightarrow> R2
           | (R2, Some st) \<Rightarrow>
               let now = unix_seconds t;
                   save = (\<lambda>field st'.
                     let R3 = run_pipe E [HSET (call_key i) [(field, show_nat now)], EXPIRE (call_key i) 300] R2
                     in R3\<lparr>calls := (calls R3)(i \<mapsto> st')\<rparr>)
               in if caller_user_id st = user_id
                  then save ''caller_last_keepalive_at_s'' (st\<lparr>caller_last_keepalive_at := now\<rparr>)
                  else if callee_user_id st = user_id
                  then save ''callee_last_keepalive_at_s'' (st\<lparr>callee_last_keepalive_at := now\<rparr>)
                  else R2))"

definition note_ringing ::
    "'s call_env \<Rightarrow> wall \<Rightarrow> string \<Rightarrow> 's call_registry \<Rightarrow> 's call_registry" where
  "note_ringing E t i R =
     (case load_call_state E t i R of
        (R1, None) \<Rightarrow> R1
      | (R1, Some st) \<Rightarrow>
          if ringing_at_ms st \<noteq> None then R1
          else
            let R2 = run_pipe E [HSET (call_key i) [(''ringing_at_ms'', show_int (unix_millis t))],
                                 EXPIRE (call_key i) 300] R1
            in R2\<lparr>calls := (calls R2)(i \<mapsto> st\<lparr>ringing_at_ms := Some (unix_millis t)\<rparr>)\<rparr>)"

definition note_connected ::
    "'s call_env \<Rightarrow> wall \<Rightarrow> string \<Rightarrow> string option \<Rightarrow> 's call_registry \<Rightarrow> 's call_registry" where
  "note_connected E t i callee_device R =
     (case load_call_state E t i R of
        (R1, None) \<Rightarrow> R1
      | (R1, Some st) \<Rightarrow>
          let st1 = (if accepted_callee_device_id st = None
                     then st\<lparr>accepted_callee_device_id := callee_device\<rparr> else st);
              newly_answered = (answered_at_ms st1 = None)
          in if \<not> newly_answered \<and> callee_device = None then R1
             else
               let now = (case answered_at_ms st1 of Some n \<Rightarrow> n | None \<Rightarrow> unix_millis t);
                   st2 = st1\<lparr>answered_at_ms := Some now\<rparr>;
                   R2 = run_pipe E
                     ([HSET (call_key i) [(''answered_at_ms'', show_int now)]]
                      @ (case accepted_callee_device_id st2 of
                           Some d \<Rightarrow> [HSET (call_key i) [(''accepted_callee_device_id'', d)]]
                         | None \<Rightarrow> [])
                      @ [EXPIRE (call_key i) 300]) R1
               in R2\<lparr>calls := (calls R2)(i \<mapsto> st2)\<rparr>)"

section \<open>Forwarding\<close>

datatype grpc_code =
    InvalidArgument | PermissionDenied | NotFound | Unavailable | Internal
  | ResourceExhausted | FailedPrecondition

datatype status = Status (status_code: grpc_code) (status_message: string)

definition not_a_participant :: status where
  "not_a_participant = Status PermissionDenied ''Not a participant in this call''"

definition not_the_stream_device :: status where
  "not_the_stream_device =
     Status PermissionDenied ''sender_device_id does not match the authenticated device''"

definition forward_signal ::
    "'s call_env \<Rightarrow> wall \<Rightarrow> string \<Rightarrow> string \<Rightarrow> string \<Rightarrow> forwarded_signal \<Rightarrow> 's call_registry
     \<Rightarrow> 's call_registry \<times> (status, unit) result" where
  "forward_signal E t i from_user from_device sig R =
     (case load_call_state E t i R of
        (R1, None) \<Rightarrow> (R1, Err (Status NotFound (''Call '' @ i @ '' not found'')))
      | (R1, Some st) \<Rightarrow>
          let go = (\<lambda>target target_device.
                let (R2, sent) =
                      (if target = from_user then send_to_user_except E target from_device sig R1
                       else send_to_user E target target_device sig R1)
                in (R2, if sent = 0 then Err (Status Unavailable ''Peer is offline'') else Ok ()))
          in if caller_user_id st = from_user then go (callee_user_id st) (accepted_callee_device_id st)
             else if callee_user_id st = from_user then go (caller_user_id st) (Some (caller_device_id st))
             else (R1, Err not_a_participant))"

section \<open>The reaper\<close>

definition i64_saturating_sub :: "int \<Rightarrow> int \<Rightarrow> int" where
  "i64_saturating_sub a b = max (- (2 ^ 63)) (min (2 ^ 63 - 1) (a - b))"

datatype cleanup_action =
    ErrorToCaller string string string nat string
  | HangupBoth string string string string "string option" nat
  | RemoveCall string

definition CalleeOffline :: nat where "CalleeOffline = 1"
definition RateLimited :: nat where "RateLimited = 3"
definition Declined :: nat where "Declined = 3"
definition Timeout :: nat where "Timeout = 4"
definition ConnectionFailed :: nat where "ConnectionFailed = 5"

text \<open>Subtraction of \<open>u64\<close> seconds saturates at zero, as subtraction of naturals does.\<close>

definition reap :: "wall \<Rightarrow> call_state \<Rightarrow> cleanup_action list" where
  "reap t st =
     (let now_s = unix_seconds t; now_ms = unix_millis t;
          hangup = HangupBoth (call_id st) (caller_user_id st) (caller_device_id st)
                     (callee_user_id st) (accepted_callee_device_id st)
      in if 300 < now_s - created_at st then [RemoveCall (call_id st)]
         else if ringing_at_ms st = None \<and> answered_at_ms st = None \<and>
           45000 < i64_saturating_sub now_ms (offered_at_ms st)
         then [ErrorToCaller (call_id st) (caller_user_id st) (caller_device_id st) CalleeOffline
                 ''No ringing from callee'', RemoveCall (call_id st)]
         else if ringing_at_ms st \<noteq> None \<and> answered_at_ms st = None \<and>
           30000 < i64_saturating_sub now_ms (the (ringing_at_ms st)) \<and>
           30 < now_s - caller_last_keepalive_at st \<and> 30 < now_s - callee_last_keepalive_at st
         then [hangup Timeout, RemoveCall (call_id st)]
         else if 60 < now_s - caller_last_keepalive_at st \<or> 60 < now_s - callee_last_keepalive_at st
         then [hangup ConnectionFailed, RemoveCall (call_id st)]
         else [])"

fun collect_actions ::
    "'s call_env \<Rightarrow> wall \<Rightarrow> string list \<Rightarrow> 's call_registry \<Rightarrow> 's call_registry \<times> cleanup_action list" where
  "collect_actions E t [] R = (R, [])"
| "collect_actions E t (i # is) R =
     (let (R1, st) = load_call_state E t i R;
          (R2, as) = collect_actions E t is R1
      in (R2, (case st of Some st \<Rightarrow> reap t st | None \<Rightarrow> []) @ as))"

definition server_hangup :: "wall \<Rightarrow> string \<Rightarrow> nat \<Rightarrow> forwarded_signal" where
  "server_hangup t i reason =
     Signal \<lparr> signal_call_id = i,
       signal_of = Some (Hangup \<lparr>hangup_reason = reason, hangup_device = ''server'',
         hangup_at = unix_millis t, hangup_message = None\<rparr>),
       sender_device_id = ''server'', signal_timestamp = unix_millis t \<rparr>"

fun run_action :: "'s call_env \<Rightarrow> wall \<Rightarrow> cleanup_action \<Rightarrow> 's call_registry \<Rightarrow> 's call_registry" where
  "run_action E t (ErrorToCaller i caller device code msg) R =
     fst (send_to_user E caller (Some device) (SignalError code msg) R)"
| "run_action E t (HangupBoth i caller device callee callee_device reason) R =
     fst (send_to_user E callee callee_device (server_hangup t i reason)
       (fst (send_to_user E caller (Some device) (server_hangup t i reason) R)))"
| "run_action E t (RemoveCall i) R = remove_call E i R"

definition try_acquire_cleanup_lock ::
    "'s call_env \<Rightarrow> 's call_registry \<Rightarrow> 's call_registry \<times> bool" where
  "try_acquire_cleanup_lock E R =
     (let (s, r) = rc_set_nx (rd E) (redis R) ''signaling:cleanup_lock'' (instance_id E) 4
      in (R\<lparr>redis := s\<rparr>, r = Ok (Some ''OK'')))"

definition list_active_call_ids ::
    "'s call_env \<Rightarrow> 's call_registry \<Rightarrow> 's call_registry \<times> string list" where
  "list_active_call_ids E R =
     (let (s, r) = rc_smembers (rd E) (redis R) ACTIVE_CALLS_SET_KEY
      in (R\<lparr>redis := s\<rparr>, case r of Ok v \<Rightarrow> v | Err _ \<Rightarrow> []))"

text \<open>One tick of \<open>cleanup_loop\<close>.\<close>

definition cleanup_tick :: "'s call_env \<Rightarrow> wall \<Rightarrow> 's call_registry \<Rightarrow> 's call_registry" where
  "cleanup_tick E t R =
     (let (R1, locked) = try_acquire_cleanup_lock E R
      in if \<not> locked then R1
         else
           let (R2, ids) = list_active_call_ids E R1;
               (R3, actions) = collect_actions E t ids R2
           in fold (run_action E t) actions R3)"

section \<open>Signals from other instances\<close>

definition handle_pubsub_message :: "'s call_env \<Rightarrow> string \<Rightarrow> 's call_registry \<Rightarrow> 's call_registry" where
  "handle_pubsub_message E payload R =
     (case from_json E payload of
        Err _ \<Rightarrow> R
      | Ok env \<Rightarrow>
          (case decode_response E (response_b64 env) of
             Err _ \<Rightarrow> R
           | Ok resp \<Rightarrow>
               (case forwarded_from_signal_response resp of
                  None \<Rightarrow> R
                | Some f \<Rightarrow> fst (send_local_to_user E (env_user_id env) (env_device_id env) f R))))"

end
