(* ===== verification/Call_Delivery.thy ===== *)
theory Call_Delivery
  imports Call_Registry
begin

text \<open>
  What the operations of the call registry deliver and what they leave alone: local and remote
  delivery, forwarding between the parties of a call, and the way of a signal from one instance to
  another.
\<close>

section \<open>What delivery touches\<close>

definition channel_of :: "'s call_registry \<Rightarrow> string \<Rightarrow> string \<Rightarrow> channel option" where
  "channel_of R u d = Option.bind (user_channels R u) (\<lambda>ds. map_of ds d)"

text \<open>Everything but the channels, the log of published signals and Redis.\<close>

definition same_calls :: "'s call_registry \<Rightarrow> 's call_registry \<Rightarrow> bool" where
  "same_calls R R' \<longleftrightarrow> calls R' = calls R \<and> active_calls R' = active_calls R"

text \<open>No delivery: channels and the log of published signals are as they were.\<close>

definition quiet :: "'s call_registry \<Rightarrow> 's call_registry \<Rightarrow> bool" where
  "quiet R R' \<longleftrightarrow> user_channels R' = user_channels R \<and> published R' = published R"

text \<open>
  \<open>delivers_only P sig b64 R R'\<close>: between \<open>R\<close> and \<open>R'\<close> the signal went to channels, and in the
  form \<open>b64\<close> was published, for devices that satisfy \<open>P\<close>, at most once to each channel, and
  nothing else was delivered.
\<close>

definition delivers_only ::
    "(string \<Rightarrow> string \<Rightarrow> bool) \<Rightarrow> forwarded_signal \<Rightarrow> string \<Rightarrow> 's call_registry \<Rightarrow> 's call_registry \<Rightarrow> bool" where
  "delivers_only P sig b64 R R' \<longleftrightarrow>
     (\<forall>u d. channel_of R' u d = channel_of R u d \<or>
        P u d \<and> channel_of R' u d = map_option (\<lambda>ch. ch\<lparr>queue := queue ch @ [sig]\<rparr>) (channel_of R u d)) \<and>
     (\<exists>out. published R' = published R @ out \<and>
        (\<forall>x \<in> set out. response_b64 (snd x) = b64 \<and>
           (\<exists>d. env_device_id (snd x) = Some d \<and> P (env_user_id (snd x)) d)))"

named_theorems call_frames \<open>what the registry's operations leave alone\<close>

lemma same_calls_refl [simp]: "same_calls R R" by (simp add: same_calls_def)
lemma quiet_refl [simp]: "quiet R R" by (simp add: quiet_def)
lemma same_calls_trans [trans]: "same_calls R R' \<Longrightarrow> same_calls R' R'' \<Longrightarrow> same_calls R R''"
  by (simp add: same_calls_def)
lemma quiet_trans [trans]: "quiet R R' \<Longrightarrow> quiet R' R'' \<Longrightarrow> quiet R R''" by (simp add: quiet_def)

lemma delivers_only_quiet:
  assumes "delivers_only P sig b64 R1 R2" "quiet R R1" "quiet R2 R3"
  shows "delivers_only P sig b64 R R3"
  using assms by (simp add: delivers_only_def quiet_def channel_of_def)

lemma quiet_delivers: "quiet R R' \<Longrightarrow> delivers_only P sig b64 R R'"
  by (simp add: delivers_only_def quiet_def channel_of_def)

lemma run_pipe_frame [call_frames]:
  "calls (run_pipe E c R) = calls R" "active_calls (run_pipe E c R) = active_calls R"
  "user_channels (run_pipe E c R) = user_channels R" "published (run_pipe E c R) = published R"
  by (simp_all add: run_pipe_def)

lemma map_of_map_key: "map_of (map (\<lambda>(d, ch). (d, f d ch)) ds) d = map_option (f d) (map_of ds d)"
  by (induction ds) auto

lemma channel_of_push:
  "channel_of (push_signal u ds sig R) u' d =
     (if u' = u \<and> d \<in> set ds
      then map_option (\<lambda>ch. ch\<lparr>queue := queue ch @ [sig]\<rparr>) (channel_of R u' d) else channel_of R u' d)"
  by (cases "user_channels R u")
    (auto simp: push_signal_def channel_of_def map_of_map_key option.map_ident split: option.splits)

lemma push_signal_frame [call_frames]:
  "calls (push_signal u ds sig R) = calls R" "active_calls (push_signal u ds sig R) = active_calls R"
  "published (push_signal u ds sig R) = published R" "redis (push_signal u ds sig R) = redis R"
  by (simp_all add: push_signal_def split: option.split)

lemma pick_local_target: "d \<in> set (pick_local target n ds) \<Longrightarrow> target = None \<or> target = Some d"
  by (induction target n ds rule: pick_local.induct) (auto split: if_splits)

lemma pick_local_length: "length (pick_local target n ds) \<le> MAX_SIGNAL_DESTINATIONS - n"
proof (induction target n ds rule: pick_local.induct)
  case (2 target sent d ch cs)
  show ?case
  proof (cases "MAX_SIGNAL_DESTINATIONS \<le> sent \<or> \<not> receiving ch")
    case False
    then show ?thesis using 2 by (auto split: if_splits)
  qed (use 2 in auto)
qed simp

lemma publish_to_instance_frame [call_frames]:
  assumes "publish_to_instance E inst e R = (R', ok)"
  shows "calls R' = calls R" "active_calls R' = active_calls R" "user_channels R' = user_channels R"
    "\<exists>out. published R' = published R @ out \<and> (\<forall>x \<in> set out. snd x = e)"
  using assms by (auto simp: publish_to_instance_def split: sum.splits prod.splits)

text \<open>The device names a remote delivery may go to.\<close>

definition remote_ok :: "string \<Rightarrow> string option \<Rightarrow> string option \<Rightarrow> string \<Rightarrow> instance_envelope \<Rightarrow> bool" where
  "remote_ok user_id target except b64 e \<longleftrightarrow> env_user_id e = user_id \<and> response_b64 e = b64 \<and>
     (\<exists>d. env_device_id e = Some d \<and> (target = None \<or> target = Some d) \<and> except \<noteq> Some d)"

lemma publish_all_frame:
  assumes "publish_all E user_id except b64 n ds R = (R', m)"
  shows "calls R' = calls R \<and> active_calls R' = active_calls R \<and> user_channels R' = user_channels R \<and>
    (\<exists>out. published R' = published R @ out \<and> (\<forall>x \<in> set out. remote_ok user_id None except b64 (snd x)))
    \<and> n \<le> m \<and> m \<le> max n MAX_SIGNAL_DESTINATIONS"
  using assms
proof (induction E user_id except b64 n ds R arbitrary: R' m rule: publish_all.induct)
  case (2 E user_id except b64 n d inst ds R)
  show ?case
  proof (cases "MAX_SIGNAL_DESTINATIONS \<le> n \<or> Some d = except \<or> inst = instance_id E")
    case True
    then consider (cap) "MAX_SIGNAL_DESTINATIONS \<le> n" | (ex) "\<not> MAX_SIGNAL_DESTINATIONS \<le> n" "Some d = except"
      | (own) "\<not> MAX_SIGNAL_DESTINATIONS \<le> n" "Some d \<noteq> except" "inst = instance_id E" by blast
    then show ?thesis
    proof cases
      case cap
      then show ?thesis using 2(4) by auto
    next
      case ex
      then show ?thesis using 2(1) [OF ex] 2(4) by simp
    next
      case own
      then show ?thesis using 2(2) [OF own] 2(4) by simp
    qed
  next
    case False
    let ?e = "\<lparr>env_user_id = user_id, env_device_id = Some d, response_b64 = b64\<rparr>"
    obtain R1 ok where p: "publish_to_instance E inst ?e R = (R1, ok)" by fastforce
    note fr = publish_to_instance_frame [OF p]
    have rest: "publish_all E user_id except b64 (if ok then n + 1 else n) ds R1 = (R', m)"
      using 2(4) False p by auto
    from fr(4) obtain o1 where o1: "published R1 = published R @ o1"
        "\<forall>x \<in> set o1. snd x = ?e" by blast
    have ih: "calls R' = calls R1 \<and> active_calls R' = active_calls R1 \<and> user_channels R' = user_channels R1 \<and>
        (\<exists>out. published R' = published R1 @ out \<and> (\<forall>x \<in> set out. remote_ok user_id None except b64 (snd x)))
        \<and> (if ok then n + 1 else n) \<le> m \<and> m \<le> max (if ok then n + 1 else n) MAX_SIGNAL_DESTINATIONS"
      using 2(3) [OF _ _ _ p [symmetric] refl rest] False by auto
    have "remote_ok user_id None except b64 ?e" using False by (auto simp: remote_ok_def)
    then have "\<forall>x \<in> set o1. remote_ok user_id None except b64 (snd x)" using o1(2) by auto
    then show ?thesis using ih fr(1-3) o1(1) False by (auto split: if_splits)
  qed
qed simp

lemma send_remote_frame:
  assumes "send_remote_to_user E user_id target except sig R = (R', m)"
  shows "calls R' = calls R \<and> active_calls R' = active_calls R \<and> user_channels R' = user_channels R \<and>
    (\<exists>out. published R' = published R @ out \<and>
      (\<forall>x \<in> set out. remote_ok user_id target except
         (encode_response E (signal_response_from_forwarded sig)) (snd x)))
    \<and> m \<le> MAX_SIGNAL_DESTINATIONS"
proof (cases target)
  case None
  then obtain R1 ds where l: "list_online_devices E user_id R = (R1, ds)"
    and p: "publish_all E user_id except (encode_response E (signal_response_from_forwarded sig)) 0 ds R1 = (R', m)"
    using assms by (auto simp: send_remote_to_user_def split: prod.splits)
  have "calls R1 = calls R \<and> active_calls R1 = active_calls R \<and> user_channels R1 = user_channels R \<and> published R1 = published R"
    using l by (auto simp: list_online_devices_def split: prod.splits)
  then show ?thesis using publish_all_frame [OF p] None by auto
next
  case (Some d)
  let ?b = "encode_response E (signal_response_from_forwarded sig)"
  obtain R1 i where l: "lookup_device_instance E user_id d R = (R1, i)" by fastforce
  then have R1: "calls R1 = calls R \<and> active_calls R1 = active_calls R \<and> user_channels R1 = user_channels R \<and> published R1 = published R"
    by (auto simp: lookup_device_instance_def split: prod.splits)
  show ?thesis
  proof (cases "Some d = except \<or> i = None \<or> i = Some (instance_id E)")
    case True
    then show ?thesis using assms Some l R1
      by (auto simp: send_remote_to_user_def split: option.splits if_splits)
  next
    case False
    then obtain inst where i: "i = Some inst" "inst \<noteq> instance_id E" "Some d \<noteq> except" by auto
    let ?e = "\<lparr>env_user_id = user_id, env_device_id = Some d, response_b64 = ?b\<rparr>"
    obtain ok where p: "publish_to_instance E inst ?e R1 = (R', ok)" and m: "m = (if ok then 1 else 0)"
      using assms Some l i by (auto simp: send_remote_to_user_def split: prod.splits)
    from publish_to_instance_frame [OF p] R1 Some i m show ?thesis
      by (auto simp: remote_ok_def MAX_SIGNAL_DESTINATIONS_def)
  qed
qed

abbreviation form_of :: "'s call_env \<Rightarrow> forwarded_signal \<Rightarrow> string" where
  "form_of E sig \<equiv> encode_response E (signal_response_from_forwarded sig)"

lemma push_then_remote:
  assumes "user_channels R' = user_channels (push_signal u ds sig R)"
    and "published R' = published R @ out" "\<forall>d \<in> set ds. P u d"
    and rem: "\<forall>x \<in> set out. remote_ok u target except b64 (snd x)"
    and P: "\<And>d. target = None \<or> target = Some d \<Longrightarrow> except \<noteq> Some d \<Longrightarrow> P u d"
  shows "delivers_only P sig b64 R R'"
proof -
  have ch: "channel_of R' = channel_of (push_signal u ds sig R)"
    using assms(1) by (simp add: channel_of_def fun_eq_iff)
  have "response_b64 (snd x) = b64 \<and> (\<exists>d. env_device_id (snd x) = Some d \<and> P (env_user_id (snd x)) d)"
    if "x \<in> set out" for x
  proof -
    from rem that have "remote_ok u target except b64 (snd x)" by blast
    then obtain d where "env_user_id (snd x) = u" "response_b64 (snd x) = b64" "env_device_id (snd x) = Some d"
        "target = None \<or> target = Some d" "except \<noteq> Some d"
      unfolding remote_ok_def by blast
    with P [of d] show ?thesis by simp
  qed
  then have "published R' = published R @ out \<and>
      (\<forall>x \<in> set out. response_b64 (snd x) = b64 \<and> (\<exists>d. env_device_id (snd x) = Some d \<and> P (env_user_id (snd x)) d))"
    using assms(2) by simp
  moreover have "channel_of R' u' d = channel_of R u' d \<or>
      P u' d \<and> channel_of R' u' d = map_option (\<lambda>ch. ch\<lparr>queue := queue ch @ [sig]\<rparr>) (channel_of R u' d)" for u' d
    using assms(3) unfolding ch channel_of_push by simp
  ultimately show ?thesis unfolding delivers_only_def by blast
qed

lemma send_to_user_delivers:
  assumes "send_to_user E u target sig R = (R', n)"
  shows "delivers_only (\<lambda>u' d. u' = u \<and> (target = None \<or> target = Some d)) sig (form_of E sig) R R'"
    and "same_calls R R'" and "n \<le> 2 * MAX_SIGNAL_DESTINATIONS"
proof -
  let ?ds = "pick_local target 0 (get_user_senders E u R)"
  let ?R1 = "push_signal u ?ds sig R"
  obtain r where r: "send_remote_to_user E u target None sig ?R1 = (R', r)" and n: "n = length ?ds + r"
    using assms by (auto simp: send_to_user_def send_local_to_user_def Let_def split: prod.splits)
  note fr = send_remote_frame [OF r]
  show "same_calls R R'" using fr by (simp add: same_calls_def call_frames)
  show "n \<le> 2 * MAX_SIGNAL_DESTINATIONS"
    using fr n pick_local_length [of target 0 "get_user_senders E u R"] by simp
  have chs: "user_channels R' = user_channels ?R1" using fr by blast
  from fr obtain out where out: "published R' = published R @ out"
      "\<forall>x \<in> set out. remote_ok u target None (form_of E sig) (snd x)"
    unfolding push_signal_frame by blast
  show "delivers_only (\<lambda>u' d. u' = u \<and> (target = None \<or> target = Some d)) sig (form_of E sig) R R'"
    by (rule push_then_remote [OF chs out(1) _ out(2)]) (use pick_local_target in auto)
qed

lemma send_except_delivers:
  assumes "send_to_user_except E u except sig R = (R', n)"
  shows "delivers_only (\<lambda>u' d. u' = u \<and> d \<noteq> except) sig (form_of E sig) R R'" and "same_calls R R'"
proof -
  let ?ds = "map fst (filter (\<lambda>(d, ch). d \<noteq> except \<and> receiving ch) (get_user_senders E u R))"
  let ?R1 = "push_signal u ?ds sig R"
  obtain r where r: "send_remote_to_user E u None (Some except) sig ?R1 = (R', r)"
    using assms by (auto simp: send_to_user_except_def Let_def split: prod.splits)
  note fr = send_remote_frame [OF r]
  show "same_calls R R'" using fr by (simp add: same_calls_def call_frames)
  have ne: "\<forall>d \<in> set ?ds. d \<noteq> except" by auto
  have chs: "user_channels R' = user_channels ?R1" using fr by blast
  from fr obtain out where out: "published R' = published R @ out"
      "\<forall>x \<in> set out. remote_ok u None (Some except) (form_of E sig) (snd x)"
    unfolding push_signal_frame by blast
  show "delivers_only (\<lambda>u' d. u' = u \<and> d \<noteq> except) sig (form_of E sig) R R'"
    by (rule push_then_remote [OF chs out(1) _ out(2)]) (use ne in auto)
qed

text \<open>The devices a party's signal is meant for: those of the other party.\<close>

definition peer_device :: "call_state \<Rightarrow> string \<Rightarrow> string \<Rightarrow> string \<Rightarrow> string \<Rightarrow> bool" where
  "peer_device st user device u d \<longleftrightarrow>
     (if caller_user_id st = user then
        u = callee_user_id st \<and>
        (if callee_user_id st = user then d \<noteq> device
         else accepted_callee_device_id st = None \<or> accepted_callee_device_id st = Some d)
      else callee_user_id st = user \<and> u = caller_user_id st \<and> d = caller_device_id st)"

lemma load_in_memory [simp]: "calls R i = Some st \<Longrightarrow> load_call_state E t i R = (R, Some st)"
  by (simp add: load_call_state_def)

lemma load_frame:
  assumes "load_call_state E t i R = (R', r)"
  shows "quiet R R'" "active_calls R' = active_calls R"
    "r = None \<and> calls R' = calls R \<and> calls R i = None \<or>
     (\<exists>st. r = Some st \<and> calls R' = (calls R)(i \<mapsto> st) \<and> (calls R i = Some st \<or> calls R i = None \<and> call_id st = i))"
proof -
  have "quiet R R' \<and> active_calls R' = active_calls R \<and>
    (r = None \<and> calls R' = calls R \<and> calls R i = None \<or>
     (\<exists>st. r = Some st \<and> calls R' = (calls R)(i \<mapsto> st) \<and> (calls R i = Some st \<or> calls R i = None \<and> call_id st = i)))"
  proof (cases "calls R i")
    case None
    have id: "call_id st = i" if "parse_call t i m = Some st" for m st
      using that by (auto simp: parse_call_def Let_def split: option.splits)
    obtain s res where h: "rc_hgetall (rd E) (redis R) (call_key i) = (s, res)" by fastforce
    show ?thesis
    proof (cases "\<exists>m. res = Ok m \<and> m \<noteq> [] \<and> parse_call t i (map_of m) \<noteq> None")
      case True
      then obtain m st where m: "res = Ok m" "m \<noteq> []" "parse_call t i (map_of m) = Some st" by blast
      then have "R' = R\<lparr>redis := s, calls := (calls R)(i \<mapsto> st)\<rparr>" "r = Some st"
        using assms None h by (auto simp: load_call_state_def)
      with id [OF m(3)] None show ?thesis by (simp add: quiet_def)
    next
      case False
      with assms None h show ?thesis
        by (auto simp: load_call_state_def quiet_def Let_def split: sum.splits if_splits option.splits)
    qed
  next
    case (Some st)
    then show ?thesis using assms by (auto simp: fun_upd_idem)
  qed
  then show "quiet R R'" "active_calls R' = active_calls R"
    "r = None \<and> calls R' = calls R \<and> calls R i = None \<or>
     (\<exists>st. r = Some st \<and> calls R' = (calls R)(i \<mapsto> st) \<and> (calls R i = Some st \<or> calls R i = None \<and> call_id st = i))"
    by auto
qed

lemma forward_delivers:
  assumes st: "calls R i = Some st" and run: "forward_signal E t i user device sig R = (R', res)"
  shows "delivers_only (peer_device st user device) sig (form_of E sig) R R'" "same_calls R R'"
proof -
  consider (self) "caller_user_id st = user" "callee_user_id st = user"
    | (caller) "caller_user_id st = user" "callee_user_id st \<noteq> user"
    | (callee) "caller_user_id st \<noteq> user" "callee_user_id st = user"
    | (none) "caller_user_id st \<noteq> user" "callee_user_id st \<noteq> user" by blast
  then have "delivers_only (peer_device st user device) sig (form_of E sig) R R' \<and> same_calls R R'"
  proof cases
    case self
    obtain R2 n where s: "send_to_user_except E user device sig R = (R2, n)" by fastforce
    have "peer_device st user device = (\<lambda>u d. u = user \<and> d \<noteq> device)"
      using self by (simp add: peer_device_def fun_eq_iff)
    then show ?thesis
      using run st self s send_except_delivers [OF s] by (simp add: forward_signal_def)
  next
    case caller
    obtain R2 n where s: "send_to_user E (callee_user_id st) (accepted_callee_device_id st) sig R = (R2, n)"
      by fastforce
    have "peer_device st user device = (\<lambda>u d. u = callee_user_id st \<and>
        (accepted_callee_device_id st = None \<or> accepted_callee_device_id st = Some d))"
      using caller by (simp add: peer_device_def fun_eq_iff)
    then show ?thesis
      using run st caller s send_to_user_delivers [OF s] by (simp add: forward_signal_def)
  next
    case callee
    obtain R2 n where s: "send_to_user E (caller_user_id st) (Some (caller_device_id st)) sig R = (R2, n)"
      by fastforce
    have "peer_device st user device = (\<lambda>u d. u = caller_user_id st \<and>
        (Some (caller_device_id st) = None \<or> Some (caller_device_id st) = Some d))"
      using callee by (auto simp: peer_device_def fun_eq_iff)
    then show ?thesis
      using run st callee s send_to_user_delivers [OF s] by (simp add: forward_signal_def)
  next
    case none
    then show ?thesis using run st by (simp add: forward_signal_def quiet_delivers)
  qed
  then show "delivers_only (peer_device st user device) sig (form_of E sig) R R'" "same_calls R R'" by auto
qed

lemma remove_call_frame [call_frames]:
  "quiet R (remove_call E i R)"
  "calls (remove_call E i R) = (calls R)(i := None)"
  by (auto simp: remove_call_def quiet_def call_frames split: option.split)

definition parties :: "call_state \<Rightarrow> string \<times> string \<times> string" where
  "parties st = (caller_user_id st, callee_user_id st, caller_device_id st)"

lemma note_ringing_frame:
  assumes "calls R i = Some st"
  shows "quiet R (note_ringing E t i R)"
    "\<exists>st'. calls (note_ringing E t i R) i = Some st' \<and> parties st' = parties st \<and>
       accepted_callee_device_id st' = accepted_callee_device_id st"
  using assms by (simp_all add: note_ringing_def quiet_def parties_def call_frames)

lemma note_connected_frame:
  assumes "calls R i = Some st"
  shows "quiet R (note_connected E t i dev R)"
    "\<exists>st'. calls (note_connected E t i dev R) i = Some st' \<and> parties st' = parties st \<and>
       accepted_callee_device_id st' =
         (if accepted_callee_device_id st = None then dev else accepted_callee_device_id st)"
  using assms
  by (auto simp: note_connected_def quiet_def parties_def call_frames Let_def split: if_splits)

section \<open>From instance to instance\<close>

text \<open>
  What the codecs and the iteration order promise: an envelope's JSON and a response's encoding
  decode to what was encoded, and an order lists a map's entries.
\<close>

definition codec_ok :: "'s call_env \<Rightarrow> 'r call_env \<Rightarrow> instance_envelope \<Rightarrow> signal_response \<Rightarrow> bool" where
  "codec_ok E E' e r \<longleftrightarrow>
     (\<forall>p. to_json E e = Ok p \<longrightarrow> from_json E' p = Ok e) \<and>
     decode_response E' (encode_response E r) = Ok r"

definition order_ok :: "'s call_env \<Rightarrow> bool" where
  "order_ok E \<longleftrightarrow> (\<forall>ds. set (map_order E ds) = set ds)"

lemma pick_local_receiving:
  assumes "(d, ch) \<in> set ds" "receiving ch"
  shows "d \<in> set (pick_local (Some d) 0 ds)"
  using assms by (induction ds) (auto simp: MAX_SIGNAL_DESTINATIONS_def)

lemma pick_local_only: "d \<in> set (pick_local target n ds) \<Longrightarrow> \<exists>ch. (d, ch) \<in> set ds \<and> receiving ch"
  by (induction target n ds rule: pick_local.induct) (auto split: if_splits)

lemma forwarded_round_trip [simp]:
  "forwarded_from_signal_response (signal_response_from_forwarded f) = Some f"
  by (cases f) simp_all

text \<open>
  C24. A signal published for a device of another instance arrives there. When that instance
  handles the message, the signal is put on the channel of exactly the addressed device, if its
  stream is still open, and on no other channel; calls and busy marks are not touched.
\<close>

theorem remote_signal_arrives:
  assumes "codec_ok E E' \<lparr>env_user_id = u, env_device_id = Some d, response_b64 = form_of E sig\<rparr>
      (signal_response_from_forwarded sig)"
    and "order_ok E'"
    and "to_json E \<lparr>env_user_id = u, env_device_id = Some d, response_b64 = form_of E sig\<rparr> = Ok payload"
    and "user_channels R u = Some ds" "distinct (map fst ds)" "map_of ds d = Some ch"
  shows "channel_of (handle_pubsub_message E' payload R) u' d' =
      (if u' = u \<and> d' = d \<and> receiving ch then Some (ch\<lparr>queue := queue ch @ [sig]\<rparr>) else channel_of R u' d')
    \<and> same_calls R (handle_pubsub_message E' payload R)"
proof -
  let ?ds = "pick_local (Some d) 0 (map_order E' ds)"
  have run: "handle_pubsub_message E' payload R = push_signal u ?ds sig R"
    using assms(1,3,4)
    by (simp add: handle_pubsub_message_def codec_ok_def send_local_to_user_def get_user_senders_def Let_def)
  have in_ds: "(d, c) \<in> set (map_order E' ds) \<longleftrightarrow> c = ch" for c
    using assms(2,5,6) unfolding order_ok_def by (metis map_of_eq_Some_iff option.inject)
  have "d' \<in> set ?ds \<longleftrightarrow> d' = d \<and> receiving ch" for d'
    using pick_local_target [of d' "Some d" 0 "map_order E' ds"] pick_local_only [of d "Some d" 0 "map_order E' ds"]
      pick_local_receiving [of d ch "map_order E' ds"] in_ds by auto
  moreover have "channel_of R u d = Some ch" using assms(4,6) by (simp add: channel_of_def)
  ultimately show ?thesis unfolding run by (auto simp: channel_of_push same_calls_def call_frames)
qed

definition sample_error :: forwarded_signal where
  "sample_error = SignalError 1 ''No ringing from callee''"

definition sample_down_redis :: "unit call_redis" where
  "sample_down_redis =
     \<lparr> rc_pipe = (\<lambda>s c. (s, Err [])), rc_hgetall = (\<lambda>s k. (s, Err [])), rc_get = (\<lambda>s k. (s, Err [])),
       rc_exists = (\<lambda>s k. (s, Err [])), rc_smembers = (\<lambda>s k. (s, Err [])),
       rc_scan_get = (\<lambda>s k. (s, Err [])), rc_publish = (\<lambda>s c p. (s, Err [])),
       rc_incr_expire = (\<lambda>s k w. (s, Err [])), rc_set_nx = (\<lambda>s k v n. (s, Err [])) \<rparr>"

definition sample_peer_env :: "unit call_env" where
  "sample_peer_env = \<lparr> rd = sample_down_redis, instance_id = ''i2'', map_order = (\<lambda>x. x),
     encode_response = (\<lambda>r. ''r''),
     decode_response = (\<lambda>s. Ok (signal_response_from_forwarded sample_error)),
     to_json = (\<lambda>e. Ok (env_user_id e)),
     from_json = (\<lambda>s. Ok \<lparr>env_user_id = s, env_device_id = Some ''d'', response_b64 = ''r''\<rparr>),
     base64 = (\<lambda>b. []) \<rparr>"

definition sample_peer_registry :: "unit call_registry" where
  "sample_peer_registry = \<lparr> calls = Map.empty, active_calls = Map.empty,
     user_channels = [''u'' \<mapsto> [(''d'', \<lparr>receiving = True, queue = []\<rparr>)]], redis = (), published = [] \<rparr>"

theorem remote_signal_arrives_witness:
  "channel_of (handle_pubsub_message sample_peer_env ''u'' sample_peer_registry) ''u'' ''d''
   = Some \<lparr>receiving = True, queue = [sample_error]\<rparr>"
  using remote_signal_arrives [of sample_peer_env sample_peer_env "''u''" "''d''" sample_error "''u''"
      sample_peer_registry "[(''d'', \<lparr>receiving = True, queue = []\<rparr>)]" "\<lparr>receiving = True, queue = []\<rparr>" "''u''" "''d''"]
  by (simp add: codec_ok_def order_ok_def sample_peer_env_def sample_peer_registry_def)

end
