(* ===== verification/Signaling.thy ===== *)
theory Signaling
  imports Call_Delivery
begin

text \<open>
  The signaling service (\<open>signaling-service/src/service.rs\<close>, \<open>rate_limiter.rs\<close>): starting a call
  behind the contact, block, rate and busy checks, handling the signals a stream sends, and ending
  a call when its stream closes. The user and the device of a request are the authenticated ones.
  The database, the HMACs and UUID parsing are parameters.
\<close>

section \<open>Rate limits\<close>

record rate_limit_config =
  call_max :: int
  call_window_secs :: int
  peer_max :: int
  peer_window_secs :: int
  decline_cooldown_secs :: int
  turn_max :: int
  turn_window_secs :: int

definition rate_limit_default :: rate_limit_config where
  "rate_limit_default = \<lparr> call_max = 10, call_window_secs = 60, peer_max = 3, peer_window_secs = 60,
     decline_cooldown_secs = 60, turn_max = 10, turn_window_secs = 60 \<rparr>"

definition env_i64 :: "(string \<rightharpoonup> string) \<Rightarrow> string \<Rightarrow> int \<Rightarrow> int" where
  "env_i64 vars key dflt =
     (case Option.bind (vars key) parse_i64 of Some n \<Rightarrow> if 0 < n then n else dflt | None \<Rightarrow> dflt)"

definition rate_limit_from_env :: "(string \<rightharpoonup> string) \<Rightarrow> rate_limit_config" where
  "rate_limit_from_env vars =
     (let d = rate_limit_default in
      \<lparr> call_max = env_i64 vars ''RATE_LIMIT_CALL_MAX'' (call_max d),
        call_window_secs = env_i64 vars ''RATE_LIMIT_CALL_WINDOW_SECS'' (call_window_secs d),
        peer_max = env_i64 vars ''RATE_LIMIT_PEER_MAX'' (peer_max d),
        peer_window_secs = env_i64 vars ''RATE_LIMIT_PEER_WINDOW_SECS'' (peer_window_secs d),
        decline_cooldown_secs =
          env_i64 vars ''RATE_LIMIT_DECLINE_COOLDOWN_SECS'' (decline_cooldown_secs d),
        turn_max = env_i64 vars ''RATE_LIMIT_TURN_MAX'' (turn_max d),
        turn_window_secs = env_i64 vars ''RATE_LIMIT_TURN_WINDOW_SECS'' (turn_window_secs d) \<rparr>)"

record 'u contact_db =
  are_mutual_contacts :: "bytes \<Rightarrow> bytes \<Rightarrow> (string, bool) result"
  is_blocked_by :: "'u \<Rightarrow> 'u \<Rightarrow> (string, bool) result"

record ('s, 'u) service =
  env :: "'s call_env"
  limits :: rate_limit_config
  peer_salt :: string
  db_pool :: "'u contact_db option"
  contact_hmac_secret :: bytes
  notification_client :: bool
  parse_uuid :: "string \<Rightarrow> 'u option"
  uuid_text :: "'u \<Rightarrow> string"
  hmac_sha1 :: "bytes \<Rightarrow> bytes \<Rightarrow> bytes"
  hmac_sha256 :: "bytes \<Rightarrow> bytes \<Rightarrow> bytes"

definition peer_bucket :: "('s, 'u) service \<Rightarrow> string \<Rightarrow> string" where
  "peer_bucket S peer_id = base64 (env S) (hmac_sha1 S (as_bytes (peer_salt S)) (as_bytes peer_id))"

definition incr_rate ::
    "('s, 'u) service \<Rightarrow> string \<Rightarrow> int \<Rightarrow> int \<Rightarrow> 's call_registry \<Rightarrow> 's call_registry \<times> (string, bool) result" where
  "incr_rate S key window limit R =
     (let (s, r) = rc_incr_expire (rd (env S)) (redis R) key window
      in (R\<lparr>redis := s\<rparr>, case r of Ok n \<Rightarrow> Ok (n \<le> limit) | Err e \<Rightarrow> Err e))"

definition check_call_rate ::
    "('s, 'u) service \<Rightarrow> string \<Rightarrow> 's call_registry \<Rightarrow> 's call_registry \<times> (string, bool) result" where
  "check_call_rate S user_id =
     incr_rate S (''ratelimit:calls:'' @ user_id) (call_window_secs (limits S)) (call_max (limits S))"

definition check_peer_rate ::
    "('s, 'u) service \<Rightarrow> string \<Rightarrow> string \<Rightarrow> 's call_registry \<Rightarrow> 's call_registry \<times> (string, bool) result" where
  "check_peer_rate S user_id peer_id =
     incr_rate S (''ratelimit:calls:'' @ user_id @ '':'' @ peer_bucket S peer_id)
       (peer_window_secs (limits S)) (peer_max (limits S))"

definition cooldown_key :: "('s, 'u) service \<Rightarrow> string \<Rightarrow> string \<Rightarrow> string" where
  "cooldown_key S user_id peer_id =
     ''ratelimit:decline_cooldown:'' @ user_id @ '':'' @ peer_bucket S peer_id"

definition check_decline_cooldown ::
    "('s, 'u) service \<Rightarrow> string \<Rightarrow> string \<Rightarrow> 's call_registry \<Rightarrow> 's call_registry \<times> (string, bool) result" where
  "check_decline_cooldown S user_id peer_id R =
     (let (s, r) = rc_exists (rd (env S)) (redis R) (cooldown_key S user_id peer_id)
      in (R\<lparr>redis := s\<rparr>, case r of Ok b \<Rightarrow> Ok (\<not> b) | Err e \<Rightarrow> Err e))"

definition set_decline_cooldown ::
    "('s, 'u) service \<Rightarrow> string \<Rightarrow> string \<Rightarrow> 's call_registry \<Rightarrow> 's call_registry" where
  "set_decline_cooldown S user_id peer_id R =
     run_pipe (env S) [SETEX (cooldown_key S user_id peer_id) (nat (decline_cooldown_secs (limits S))) ''1''] R"

section \<open>Starting a call\<close>

record initiate_request =
  req_call_id :: string
  req_callee_user_id :: string
  req_caller_name :: string
  req_caller_avatar :: bytes
  req_call_type :: int

record voip_push =
  push_user_id :: string
  push_call_id :: string
  push_caller_id :: string
  push_caller_name :: string
  push_call_type :: int
  push_offered_at :: int

definition call_refused :: status where
  "call_refused = Status PermissionDenied ''Call not allowed''"

definition contact_link_hmac :: "('s, 'u) service \<Rightarrow> 'u \<Rightarrow> bytes" where
  "contact_link_hmac S u = hmac_sha256 S (contact_hmac_secret S) (as_bytes (uuid_text S u))"

definition contact_gate :: "('s, 'u) service \<Rightarrow> string \<Rightarrow> string \<Rightarrow> (status, unit) result" where
  "contact_gate S caller_id callee_id =
     (case db_pool S of
        None \<Rightarrow> Err call_refused
      | Some db \<Rightarrow>
          (case (parse_uuid S caller_id, parse_uuid S callee_id) of
             (Some caller, Some callee) \<Rightarrow>
               (case are_mutual_contacts db (contact_link_hmac S caller) (contact_link_hmac S callee) of
                  Ok True \<Rightarrow>
                    (case is_blocked_by db callee caller of
                       Ok False \<Rightarrow> Ok ()
                     | _ \<Rightarrow> Err call_refused)
                | _ \<Rightarrow> Err call_refused)
           | _ \<Rightarrow> Err (Status InvalidArgument ''Invalid user_id UUID'')))"

text \<open>One of the three rate checks: a failed command is an internal error, an exceeded limit a refusal.\<close>

definition rate_gate :: "'r \<times> (string, bool) result \<Rightarrow> string \<Rightarrow> 'r \<times> (status, unit) result" where
  "rate_gate res msg =
     (case res of
        (R, Err e) \<Rightarrow> (R, Err (Status Internal e))
      | (R, Ok ok) \<Rightarrow> (R, if ok then Ok () else Err (Status ResourceExhausted msg)))"

definition call_gates ::
    "('s, 'u) service \<Rightarrow> string \<Rightarrow> string \<Rightarrow> 's call_registry \<Rightarrow> 's call_registry \<times> (status, unit) result" where
  "call_gates S caller_id callee_id R =
     (case rate_gate (check_call_rate S caller_id R) ''Call rate limit exceeded'' of
        (R1, Err e) \<Rightarrow> (R1, Err e)
      | (R1, Ok _) \<Rightarrow>
          (case rate_gate (check_peer_rate S caller_id callee_id R1) ''Too many calls to this peer'' of
             (R2, Err e) \<Rightarrow> (R2, Err e)
           | (R2, Ok _) \<Rightarrow>
               (case rate_gate (check_decline_cooldown S caller_id callee_id R2)
                   ''Callee declined recently (cooldown)'' of
                  (R3, Err e) \<Rightarrow> (R3, Err e)
                | (R3, Ok _) \<Rightarrow>
                    (case is_user_busy (env S) callee_id R3 of
                       (R4, busy) \<Rightarrow>
                         (R4, if busy then Err (Status FailedPrecondition ''Callee is busy'')
                              else Ok ())))))"

definition initiate_call ::
    "('s, 'u) service \<Rightarrow> wall \<Rightarrow> string \<Rightarrow> string \<Rightarrow> initiate_request \<Rightarrow> 's call_registry
     \<Rightarrow> 's call_registry \<times> voip_push list \<times> (status, bool) result" where
  "initiate_call S t caller_id caller_device req R =
     (let i = req_call_id req; callee = req_callee_user_id req;
          name = take_chars 128 (req_caller_name req);
          avatar = (if length (req_caller_avatar req) \<le> 4096 then req_caller_avatar req else []);
          push = \<lparr> push_user_id = callee, push_call_id = i, push_caller_id = caller_id,
                   push_caller_name = name, push_call_type = req_call_type req,
                   push_offered_at = unix_millis t \<rparr>;
          pushes = (if notification_client S then [push] else [])
      in if i = [] \<or> callee = []
         then (R, [], Err (Status InvalidArgument ''call_id and callee_user_id are required''))
         else
           case contact_gate S caller_id callee of
             Err e \<Rightarrow> (R, [], Err e)
           | Ok _ \<Rightarrow>
               (case call_gates S caller_id callee R of
                  (R1, Err e) \<Rightarrow> (R1, [], Err e)
                | (R1, Ok _) \<Rightarrow>
                    let (R2, devices) = list_online_devices (env S) callee R1;
                        online = (devices \<noteq> []);
                        R3 = create_call (env S) t i caller_id caller_device callee (unix_millis t) R2;
                        R4 = store_call_metadata (env S) i name avatar R3
                    in if online then
                         let (R5, delivered) = send_to_user (env S) callee None
                               (IncomingCall \<lparr> in_call_id = i, in_caller_id = caller_id,
                                  in_caller_name = name, in_caller_avatar = avatar,
                                  in_call_type = req_call_type req, in_offered_at = unix_millis t \<rparr>) R4
                         in (R5, if delivered = 0 then pushes else [], Ok online)
                       else (R4, pushes, Ok online)))"

section \<open>Signals of a stream\<close>

text \<open>The arms of the match on the signal, once the sender's role is known.\<close>

definition apply_signal ::
    "('s, 'u) service \<Rightarrow> wall \<Rightarrow> string \<Rightarrow> string \<Rightarrow> call_role option \<Rightarrow> web_rtc_signal \<Rightarrow> 's call_registry
     \<Rightarrow> 's call_registry \<times> (status, unit) result" where
  "apply_signal S t user_id device_id role sig R =
     (let i = signal_call_id sig; E = env S;
          fwd = forward_signal E t i user_id device_id (Signal sig)
      in case signal_of sig of
           None \<Rightarrow> (R, Ok ())
         | Some (Offer _) \<Rightarrow> (R, Ok ())
         | Some (Answer _) \<Rightarrow> (R, Ok ())
         | Some (IceCandidate _) \<Rightarrow> fwd R
         | Some (IceCandidates _) \<Rightarrow> fwd R
         | Some (MediaUpdate _) \<Rightarrow> fwd R
         | Some (Ringing _) \<Rightarrow> fwd (if role = Some Callee then note_ringing E t i R else R)
         | Some (Connected _) \<Rightarrow>
             fwd (case role of
                    Some r \<Rightarrow> note_connected E t i (if r = Callee then Some device_id else None) R
                  | None \<Rightarrow> R)
         | Some (Busy _) \<Rightarrow> (remove_call E i (fst (fwd R)), Ok ())
         | Some (Hangup h) \<Rightarrow>
             (let R1 = (if hangup_reason h = Declined then
                          (case load_call_state E t i R of
                             (R', Some st) \<Rightarrow>
                               if callee_user_id st = user_id
                               then set_decline_cooldown S (caller_user_id st) (callee_user_id st) R'
                               else R'
                           | (R', None) \<Rightarrow> R')
                        else R)
              in (remove_call E i (fst (fwd R1)), Ok ())))"

definition handle_outbound_signal ::
    "('s, 'u) service \<Rightarrow> wall \<Rightarrow> string \<Rightarrow> string \<Rightarrow> web_rtc_signal option \<Rightarrow> 's call_registry
     \<Rightarrow> 's call_registry \<times> (status, unit) result" where
  "handle_outbound_signal S t user_id device_id routed R =
     (case routed of
        None \<Rightarrow> (R, Err (Status InvalidArgument ''Missing routed_signal.signal''))
      | Some sig \<Rightarrow>
          if sender_device_id sig \<noteq> [] \<and> \<not> eq_ignore_ascii_case (sender_device_id sig) device_id
          then (R, Err not_the_stream_device)
          else
            (case load_call_state (env S) t (signal_call_id sig) R of
               (R1, Some st) \<Rightarrow>
                 (case role_of st user_id of
                    None \<Rightarrow> (R1, Err not_a_participant)
                  | Some r \<Rightarrow> apply_signal S t user_id device_id (Some r) sig R1)
             | (R1, None) \<Rightarrow> apply_signal S t user_id device_id None sig R1))"

text \<open>The end of \<open>signal\<close>: what happens when a stream has closed.\<close>

definition stream_closed ::
    "('s, 'u) service \<Rightarrow> wall \<Rightarrow> string \<Rightarrow> string \<Rightarrow> 's call_registry \<Rightarrow> 's call_registry" where
  "stream_closed S t user_id device_id R =
     (let E = env S; R1 = unregister_user E user_id device_id R
      in case call_ended_by_disconnect E t user_id device_id R1 of
           (R2, None) \<Rightarrow> R2
         | (R2, Some st) \<Rightarrow>
             let hangup = server_hangup t (call_id st) ConnectionFailed;
                 R3 = fst (send_to_user E (caller_user_id st) (Some (caller_device_id st)) hangup R2);
                 R4 = fst (send_to_user E (callee_user_id st) (accepted_callee_device_id st) hangup R3)
             in remove_call E (call_id st) R4)"

section \<open>Who may touch a call\<close>

text \<open>
  C10. Only the two parties of a call can do anything to it. A signal for a call its sender is no
  party to is refused as not permitted: no device of anyone receives anything, nothing is
  published, no busy mark changes and the registry holds the same calls, apart from the named one
  being cached when it was read from Redis.
\<close>

theorem outsiders_change_nothing:
  assumes "load_call_state (env S) t (signal_call_id sig) R = (R1, Some st)"
    and "role_of st user = None"
    and "handle_outbound_signal S t user device (Some sig) R = (R', res)"
  shows "(\<exists>e. res = Err e \<and> status_code e = PermissionDenied) \<and> quiet R R' \<and>
    active_calls R' = active_calls R \<and>
    calls R' \<in> {calls R, (calls R)(signal_call_id sig \<mapsto> st)}"
proof -
  have h: "(R', res) = (R, Err not_the_stream_device) \<or> (R', res) = (R1, Err not_a_participant)"
    using assms by (auto simp: handle_outbound_signal_def split: if_splits)
  from load_frame [OF assms(1)]
  have R1: "quiet R R1" "active_calls R1 = active_calls R" "calls R1 = (calls R)(signal_call_id sig \<mapsto> st)"
    by auto
  from h R1 show ?thesis by (auto simp: not_the_stream_device_def not_a_participant_def)
qed

section \<open>Where a party's signals go\<close>

definition answers :: "web_rtc_signal \<Rightarrow> bool" where
  "answers sig = (case signal_of sig of Some (Connected _) \<Rightarrow> True | _ \<Rightarrow> False)"

text \<open>What a handled signal may have done to the call's answered device.\<close>

definition answered_ok ::
    "call_state \<Rightarrow> string \<Rightarrow> string \<Rightarrow> web_rtc_signal \<Rightarrow> call_state option \<Rightarrow> bool" where
  "answered_ok st user device sig r =
     (case r of
        None \<Rightarrow> True
      | Some st' \<Rightarrow> parties st' = parties st \<and>
          (case accepted_callee_device_id st of
             Some d \<Rightarrow> accepted_callee_device_id st' = Some d
           | None \<Rightarrow> accepted_callee_device_id st' = None \<or>
               accepted_callee_device_id st' = Some device \<and> role_of st user = Some Callee \<and> answers sig))"

lemma peer_device_parties:
  assumes "parties st' = parties st"
    and "role_of st user = Some Callee \<or> accepted_callee_device_id st' = accepted_callee_device_id st"
  shows "peer_device st' user device = peer_device st user device"
  using assms by (auto simp: peer_device_def parties_def role_of_def fun_eq_iff split: if_splits)

lemma fwd_after:
  assumes q: "quiet R R1" and st1: "calls R1 i = Some st1" and pd: "peer_device st1 user device = peer_device st user device"
    and run: "forward_signal E t i user device sig R1 = (R2, res)"
  shows "delivers_only (peer_device st user device) sig (form_of E sig) R R2" "calls R2 i = Some st1"
  using forward_delivers [OF st1 run] q pd st1 delivers_only_quiet [OF _ q quiet_refl]
  by (auto simp: same_calls_def)

lemma apply_signal_effect:
  assumes st: "calls R (signal_call_id sig) = Some st" and role: "role_of st user = Some r"
    and run: "apply_signal S t user device (Some r) sig R = (R', res)"
  shows "delivers_only (peer_device st user device) (Signal sig) (form_of (env S) (Signal sig)) R R' \<and>
    answered_ok st user device sig (calls R' (signal_call_id sig))"
proof -
  let ?i = "signal_call_id sig" and ?E = "env S"
  let ?P = "peer_device st user device"
  let ?fwd = "forward_signal ?E t ?i user device (Signal sig)"
  have same: "answered_ok st user device sig (Some st)" by (simp add: answered_ok_def split: option.split)
  have fwd: "delivers_only ?P (Signal sig) (form_of ?E (Signal sig)) R (fst (?fwd R1)) \<and> calls (fst (?fwd R1)) ?i = Some st1"
    if "quiet R R1" "calls R1 ?i = Some st1" "peer_device st1 user device = ?P" for R1 st1
    using fwd_after [OF that, of ?E t "Signal sig"] by (metis prod.collapse)
  show ?thesis
  proof (cases "signal_of sig")
    case None
    then show ?thesis using run st same by (auto simp: apply_signal_def quiet_delivers)
  next
    case (Some b)
    show ?thesis
    proof (cases b)
      case (Ringing x)
      let ?R1 = "if r = Callee then note_ringing ?E t ?i R else R"
      obtain st1 where "quiet R ?R1" "calls ?R1 ?i = Some st1" "parties st1 = parties st"
          "accepted_callee_device_id st1 = accepted_callee_device_id st"
        using note_ringing_frame [OF st, of ?E t] st by (cases "r = Callee") auto
      then show ?thesis
        using fwd [of ?R1 st1] peer_device_parties [of st1 st user device] run Some Ringing
        by (auto simp: apply_signal_def answered_ok_def Let_def split: option.splits)
    next
      case (Connected x)
      let ?dev = "if r = Callee then Some device else None"
      let ?R1 = "note_connected ?E t ?i ?dev R"
      obtain st1 where "quiet R ?R1" "calls ?R1 ?i = Some st1" "parties st1 = parties st"
          "accepted_callee_device_id st1 = (if accepted_callee_device_id st = None then ?dev else accepted_callee_device_id st)"
        using note_connected_frame [OF st, of ?E t ?dev] by blast
      moreover from this have "peer_device st1 user device = ?P"
        using role by (intro peer_device_parties) auto
      ultimately show ?thesis
        using fwd [of ?R1 st1] run Some Connected role
        by (auto simp: apply_signal_def answered_ok_def answers_def Let_def split: option.splits if_splits)
    next
      case (Busy x)
      have R': "R' = remove_call ?E ?i (fst (?fwd R))" using run Some Busy by (auto simp: apply_signal_def Let_def)
      show ?thesis
        unfolding R' using fwd [of R st] st delivers_only_quiet [OF _ quiet_refl remove_call_frame(1)]
        by (auto simp: answered_ok_def call_frames)
    next
      case (Hangup h)
      let ?R1 = "if hangup_reason h = Declined \<and> callee_user_id st = user
        then set_decline_cooldown S (caller_user_id st) (callee_user_id st) R else R"
      have R': "R' = remove_call ?E ?i (fst (?fwd ?R1))"
        using run Some Hangup st by (auto simp: apply_signal_def Let_def split: if_splits)
      have "quiet R ?R1" "calls ?R1 ?i = Some st"
        using st by (simp_all add: set_decline_cooldown_def quiet_def call_frames)
      then show ?thesis
        unfolding R' using fwd [of ?R1 st] delivers_only_quiet [OF _ quiet_refl remove_call_frame(1)]
        by (auto simp: answered_ok_def call_frames)
    qed (use run Some st same fwd [of R st] in \<open>auto simp: apply_signal_def quiet_delivers Let_def\<close>)
  qed
qed

text \<open>
  C8. A party's signal reaches the other party and nobody else. Whatever the signal and whatever
  Redis answers: it is put, at most once, on channels of the peer's device the call is routed to
  (any device of the callee until one has answered, exactly the calling device for the callee's
  signals, the sender's other devices when the account calls itself), everything published
  carries this signal for such a device, and nothing else is delivered. The parties of the call
  never change, and the device recorded as having answered changes only from none to the
  callee's own streaming device, by the callee's own \<open>Connected\<close>.
\<close>

theorem signals_reach_only_the_peer:
  assumes "calls R (signal_call_id sig) = Some st" "role_of st user = Some r"
    and "handle_outbound_signal S t user device (Some sig) R = (R', res)"
  shows "delivers_only (peer_device st user device) (Signal sig) (form_of (env S) (Signal sig)) R R' \<and>
    answered_ok st user device sig (calls R' (signal_call_id sig))"
proof (cases "sender_device_id sig \<noteq> [] \<and> \<not> eq_ignore_ascii_case (sender_device_id sig) device")
  case True
  then have "R' = R" using assms(3) by (simp add: handle_outbound_signal_def)
  then show ?thesis using assms(1) by (simp add: quiet_delivers answered_ok_def split: option.split)
next
  case False
  then have "apply_signal S t user device (Some r) sig R = (R', res)"
    using assms by (auto simp: handle_outbound_signal_def)
  from apply_signal_effect [OF assms(1,2) this] show ?thesis .
qed

section \<open>Starting a call\<close>

lemma incr_rate_frame:
  "incr_rate S key w l R = (R', r) \<Longrightarrow> quiet R R' \<and> same_calls R R'"
  by (auto simp: incr_rate_def quiet_def same_calls_def split: prod.splits)

lemma check_cooldown_frame:
  "check_decline_cooldown S u p R = (R', r) \<Longrightarrow> quiet R R' \<and> same_calls R R'"
  by (auto simp: check_decline_cooldown_def quiet_def same_calls_def split: prod.splits)

lemma get_user_call_quiet:
  assumes "get_user_call E u R = (R', r)" shows "quiet R R'"
proof -
  have ex: "quiet R R1" if "call_exists_in_redis E i R = (R1, b)" for R R1 b i
    using that by (auto simp: call_exists_in_redis_def quiet_def split: prod.splits)
  show ?thesis
  proof (cases "active_calls R u")
    case (Some i)
    obtain R1 b where e: "call_exists_in_redis E i R = (R1, b)" by fastforce
    have "quiet R R1" "quiet R (remove_call E i R1)"
      using ex [OF e] quiet_trans [OF ex [OF e] remove_call_frame(1)] by simp_all
    then show ?thesis
      using assms Some e by (cases b) (auto simp: get_user_call_def)
  next
    case None
    obtain s q where g: "rc_get (rd E) (redis R) (active_key u) = (s, q)" by fastforce
    have q0: "quiet R (R\<lparr>redis := s\<rparr>)" by (simp add: quiet_def)
    show ?thesis
    proof (cases "\<exists>i. q = Ok (Some i)")
      case True
      then obtain i where i: "q = Ok (Some i)" by blast
      obtain R2 b where e: "call_exists_in_redis E i (R\<lparr>redis := s\<rparr>) = (R2, b)" by fastforce
      have "quiet R R2" using quiet_trans [OF q0 ex [OF e]] .
      then show ?thesis
        using assms None g i e by (cases b) (auto simp: get_user_call_def quiet_def call_frames)
    next
      case False
      then show ?thesis
        using assms None g q0 by (auto simp: get_user_call_def Let_def split: sum.splits option.splits)
    qed
  qed
qed

lemma contact_gate_ok:
  assumes "contact_gate S caller callee = Ok x"
  shows "\<exists>db u v. db_pool S = Some db \<and> parse_uuid S caller = Some u \<and> parse_uuid S callee = Some v \<and>
    are_mutual_contacts db (contact_link_hmac S u) (contact_link_hmac S v) = Ok True \<and>
    is_blocked_by db v u = Ok False"
  using assms by (auto simp: contact_gate_def split: option.splits sum.splits bool.splits)

lemma contact_gate_err:
  "contact_gate S caller callee = Err e \<Longrightarrow>
     e = call_refused \<or> e = Status InvalidArgument ''Invalid user_id UUID''"
  by (auto simp: contact_gate_def split: option.splits sum.splits bool.splits)

lemma rate_gate_frame: "rate_gate res msg = (R', r) \<Longrightarrow> R' = fst res"
  by (auto simp: rate_gate_def split: prod.splits sum.splits)

lemma call_gates_quiet:
  assumes "call_gates S caller callee R = (R', r)" shows "quiet R R'"
proof -
  obtain R1 r1 where 1: "rate_gate (check_call_rate S caller R) ''Call rate limit exceeded'' = (R1, r1)" by fastforce
  obtain R2 r2 where 2: "rate_gate (check_peer_rate S caller callee R1) ''Too many calls to this peer'' = (R2, r2)" by fastforce
  obtain R3 r3 where 3: "rate_gate (check_decline_cooldown S caller callee R2)
      ''Callee declined recently (cooldown)'' = (R3, r3)" by fastforce
  obtain R4 b where 4: "is_user_busy (env S) callee R3 = (R4, b)" by fastforce
  have q1: "quiet R R1"
    using rate_gate_frame [OF 1] incr_rate_frame by (metis check_call_rate_def prod.collapse)
  have q2: "quiet R R2"
    using quiet_trans [OF q1] rate_gate_frame [OF 2] incr_rate_frame by (metis check_peer_rate_def prod.collapse)
  have q3: "quiet R R3"
    using quiet_trans [OF q2] rate_gate_frame [OF 3] check_cooldown_frame by (metis prod.collapse)
  have q4: "quiet R R4"
    using quiet_trans [OF q3] get_user_call_quiet 4 by (fastforce simp: is_user_busy_def split: prod.splits)
  from assms 1 2 3 4 q1 q2 q3 q4 show ?thesis
    by (auto simp: call_gates_def split: sum.splits)
qed

text \<open>
  C12. Whom a call can ring. When starting a call succeeds, the callee is a mutual contact of the
  caller who has not blocked them, as the database answered; and any refusal leaves every stream
  as it was, publishes nothing and pushes nothing. A caller cannot tell a block from a missing
  contact link or an unavailable check: the contact gate knows one refusal besides malformed ids.
\<close>

theorem calls_ring_contacts_only:
  assumes "initiate_call S t caller device req R = (R', pushes, res)"
  shows "(case res of
      Ok online \<Rightarrow> \<exists>db u v. db_pool S = Some db \<and> parse_uuid S caller = Some u \<and>
        parse_uuid S (req_callee_user_id req) = Some v \<and>
        are_mutual_contacts db (contact_link_hmac S u) (contact_link_hmac S v) = Ok True \<and>
        is_blocked_by db v u = Ok False
    | Err e \<Rightarrow> quiet R R' \<and> pushes = []) \<and>
    (\<forall>e. contact_gate S caller (req_callee_user_id req) = Err e \<longrightarrow>
       e = call_refused \<or> e = Status InvalidArgument ''Invalid user_id UUID'')"
proof -
  let ?callee = "req_callee_user_id req"
  have "case res of
      Ok online \<Rightarrow> \<exists>x. contact_gate S caller ?callee = Ok x | Err e \<Rightarrow> quiet R R' \<and> pushes = []"
  proof (cases "req_call_id req = [] \<or> ?callee = [] \<or> (\<exists>e. contact_gate S caller ?callee = Err e)")
    case True
    then show ?thesis using assms by (auto simp: initiate_call_def Let_def split: if_splits)
  next
    case False
    then obtain x where g: "contact_gate S caller ?callee = Ok x" by (cases "contact_gate S caller ?callee") auto
    obtain R1 q where c: "call_gates S caller ?callee R = (R1, q)" by fastforce
    then show ?thesis
    proof (cases q)
      case (Inl e)
      then show ?thesis using assms False g c call_gates_quiet [OF c] by (auto simp: initiate_call_def Let_def)
    next
      case (Inr y)
      then have "\<exists>online. res = Ok online"
        using assms False g c by (auto simp: initiate_call_def Let_def split: prod.splits if_splits)
      with g show ?thesis by auto
    qed
  qed
  then show ?thesis
    using contact_gate_ok [of S caller ?callee] contact_gate_err [of S caller ?callee]
    by (auto split: sum.splits)
qed

section \<open>The reaper\<close>

definition keyed :: "'s call_registry \<Rightarrow> bool" where
  "keyed R \<longleftrightarrow> (\<forall>i st. calls R i = Some st \<longrightarrow> call_id st = i)"

text \<open>
  A call the reaper must leave alone: younger than five minutes, with both parties heard from
  within a minute, and either answered, or ringing for at most thirty seconds or with a party
  heard from in the last thirty, or not yet ringing for at most forty-five seconds.
\<close>

definition healthy :: "wall \<Rightarrow> call_state \<Rightarrow> bool" where
  "healthy t st \<longleftrightarrow>
     unix_seconds t - created_at st \<le> 300 \<and>
     unix_seconds t - caller_last_keepalive_at st \<le> 60 \<and>
     unix_seconds t - callee_last_keepalive_at st \<le> 60 \<and>
     (case (answered_at_ms st, ringing_at_ms st) of
        (Some _, _) \<Rightarrow> True
      | (None, Some ringing) \<Rightarrow>
          i64_saturating_sub (unix_millis t) ringing \<le> 30000 \<or>
          unix_seconds t - caller_last_keepalive_at st \<le> 30 \<or>
          unix_seconds t - callee_last_keepalive_at st \<le> 30
      | (None, None) \<Rightarrow> i64_saturating_sub (unix_millis t) (offered_at_ms st) \<le> 45000)"

lemma reap_healthy: "reap t st = [] \<longleftrightarrow> healthy t st"
  by (auto simp: reap_def healthy_def Let_def not_less split: option.splits)

lemma reap_removes: "RemoveCall i \<in> set (reap t st) \<longleftrightarrow> i = call_id st \<and> \<not> healthy t st"
  unfolding reap_healthy [symmetric] by (auto simp: reap_def Let_def)

lemma run_action_calls:
  "calls (run_action E t a R) = (case a of RemoveCall i \<Rightarrow> (calls R)(i := None) | _ \<Rightarrow> calls R)"
proof -
  have "calls (fst (send_to_user E u d s R)) = calls R" for u d s R
    using send_to_user_delivers(2) [of E u d s R] by (metis prod.collapse same_calls_def)
  then show ?thesis by (cases a) (simp_all add: call_frames)
qed

lemma run_actions_calls:
  "calls (fold (run_action E t) as R) i = (if RemoveCall i \<in> set as then None else calls R i)"
  by (induction as arbitrary: R) (auto simp: run_action_calls split: cleanup_action.split)

lemma collect_actions_spec:
  assumes "collect_actions E t ids R = (R', as)" "keyed R" "calls R i = Some st"
  shows "calls R' i = Some st \<and> (RemoveCall i \<in> set as \<longleftrightarrow> i \<in> set ids \<and> \<not> healthy t st)"
  using assms
proof (induction ids arbitrary: R as)
  case (Cons j ids)
  obtain R1 r where l: "load_call_state E t j R = (R1, r)" by fastforce
  obtain as' where c: "collect_actions E t ids R1 = (R', as')"
    and as: "as = (case r of Some st \<Rightarrow> reap t st | None \<Rightarrow> []) @ as'"
    using Cons.prems(1) l by (auto split: prod.splits)
  note fr = load_frame(3) [OF l]
  have k: "keyed R1" and s: "calls R1 i = Some st"
    using fr Cons.prems(2,3) by (auto simp: keyed_def split: if_splits)
  have ih: "calls R' i = Some st \<and> (RemoveCall i \<in> set as' \<longleftrightarrow> i \<in> set ids \<and> \<not> healthy t st)"
    using Cons.IH [OF c k s] .
  have "RemoveCall i \<in> set (case r of Some st \<Rightarrow> reap t st | None \<Rightarrow> []) \<longleftrightarrow> i = j \<and> \<not> healthy t st"
    using fr Cons.prems(2,3) by (auto simp: reap_removes keyed_def)
  with ih as show ?case by auto
qed auto

text \<open>
  C23. The reaper removes exactly the calls that are not healthy. On a tick that gets the lock, a
  call of the registry that Redis lists as active survives if and only if it is younger than five
  minutes, both parties were heard from within a minute and its ringing or answering is not
  overdue; a call Redis does not list is not touched.
\<close>

theorem reaper_exact:
  assumes "keyed R" "try_acquire_cleanup_lock E R = (R1, True)" "list_active_call_ids E R1 = (R2, ids)"
    and "calls R i = Some st"
  shows "calls (cleanup_tick E t R) i = (if i \<in> set ids \<and> \<not> healthy t st then None else Some st)"
proof -
  have "calls R2 = calls R"
    using assms(2,3) by (auto simp: try_acquire_cleanup_lock_def list_active_call_ids_def split: prod.splits)
  then have R2: "keyed R2" "calls R2 i = Some st" using assms(1,4) by (simp_all add: keyed_def)
  obtain R3 as where c: "collect_actions E t ids R2 = (R3, as)" by fastforce
  from collect_actions_spec [OF c R2] show ?thesis
    using assms(2,3) c by (auto simp: cleanup_tick_def run_actions_calls)
qed

section \<open>Busy marks and callee ids\<close>

text \<open>
  C29. Ending one call frees a party that is in another. The busy check looks at the callee only,
  so a caller can start a second call; when the first of the two ends, the caller's busy mark,
  which by then names the second call, is removed, although the second call still exists.
\<close>

theorem ending_a_call_unmarks_another:
  assumes "i \<noteq> j"
  shows "let R1 = create_call E t i caller device first ms R;
      R2 = create_call E t j caller device second ms R1
    in active_calls R2 caller = Some j \<and> active_calls (remove_call E i R2) caller = None \<and>
      calls (remove_call E i R2) j \<noteq> None"
  using assms by (simp add: create_call_def remove_call_def call_frames Let_def)

subsection \<open>A small Redis\<close>

text \<open>A Redis that only knows which keys exist; nobody is online and counters never fill.\<close>

definition sample_redis :: "string list call_redis" where
  "sample_redis =
     \<lparr> rc_pipe = (\<lambda>s cmds. (fold (\<lambda>c ks. case c of
           HSET k _ \<Rightarrow> k # ks | SETEX k _ _ \<Rightarrow> k # ks | DEL k \<Rightarrow> filter (\<lambda>x. x \<noteq> k) ks | _ \<Rightarrow> ks) cmds s, Ok ())),
       rc_hgetall = (\<lambda>s k. (s, Ok [])), rc_get = (\<lambda>s k. (s, Ok None)),
       rc_exists = (\<lambda>s k. (s, Ok (k \<in> set s))), rc_smembers = (\<lambda>s k. (s, Ok [''c1''])),
       rc_scan_get = (\<lambda>s k. (s, Ok [])), rc_publish = (\<lambda>s c p. (s, Ok 0)),
       rc_incr_expire = (\<lambda>s k w. (s, Ok 1)), rc_set_nx = (\<lambda>s k v n. (s, Ok (Some ''OK''))) \<rparr>"

definition sample_env :: "string list call_env" where
  "sample_env = \<lparr> rd = sample_redis, instance_id = ''i1'', map_order = (\<lambda>x. x),
     encode_response = (\<lambda>_. ''r''), decode_response = (\<lambda>_. Err []), to_json = (\<lambda>_. Ok ''j''),
     from_json = (\<lambda>_. Err []), base64 = map (\<lambda>w. char_of (unat w)) \<rparr>"

definition sample_service :: "(string list, string) service" where
  "sample_service = \<lparr> env = sample_env, limits = rate_limit_default, peer_salt = [],
     db_pool = Some \<lparr> are_mutual_contacts = (\<lambda>_ _. Ok True), is_blocked_by = (\<lambda>_ _. Ok False) \<rparr>,
     contact_hmac_secret = [], notification_client = True,
     parse_uuid = (\<lambda>s. Some (map ascii_lower s)), uuid_text = (\<lambda>s. s),
     hmac_sha1 = (\<lambda>k m. k @ m), hmac_sha256 = (\<lambda>k m. k @ m) \<rparr>"

definition sample_registry :: "string list call_registry" where
  "sample_registry = \<lparr> calls = Map.empty, active_calls = Map.empty, user_channels = Map.empty,
     redis = [], published = [] \<rparr>"

definition sample_wall :: wall where
  "sample_wall = \<lparr> unix_seconds = 1000, unix_millis = 1000000 \<rparr>"

definition sample_call :: call_state where
  "sample_call = \<lparr> call_id = ''c1'', caller_user_id = ''a'', callee_user_id = ''b'',
     caller_device_id = ''d'', accepted_callee_device_id = None, created_at = 990,
     offered_at_ms = 990000, ringing_at_ms = None, answered_at_ms = None,
     caller_last_keepalive_at = 990, callee_last_keepalive_at = 990 \<rparr>"

definition sample_signal :: web_rtc_signal where
  "sample_signal = \<lparr> signal_call_id = ''c1'', signal_of = Some (Connected []),
     sender_device_id = [], signal_timestamp = 0 \<rparr>"

definition sample_request :: "string \<Rightarrow> initiate_request" where
  "sample_request callee = \<lparr> req_call_id = ''c1'', req_callee_user_id = callee, req_caller_name = [],
     req_caller_avatar = [], req_call_type = 1 \<rparr>"

theorem outsiders_change_nothing_witness:
  "quiet (sample_registry\<lparr>calls := [''c1'' \<mapsto> sample_call]\<rparr>)
     (fst (handle_outbound_signal sample_service sample_wall ''eve'' ''x'' (Some sample_signal)
       (sample_registry\<lparr>calls := [''c1'' \<mapsto> sample_call]\<rparr>)))"
  using outsiders_change_nothing [OF _ _ prod.collapse [symmetric], where
      S = sample_service and t = sample_wall and sig = sample_signal and
      R = "sample_registry\<lparr>calls := [''c1'' \<mapsto> sample_call]\<rparr>" and
      ?R1.0 = "sample_registry\<lparr>calls := [''c1'' \<mapsto> sample_call]\<rparr>" and st = sample_call and
      user = "''eve''" and device = "''x''"]
  by (simp add: sample_signal_def sample_call_def role_of_def)

theorem signals_reach_only_the_peer_witness:
  "answered_ok sample_call ''b'' ''phone'' sample_signal
     (calls (fst (handle_outbound_signal sample_service sample_wall ''b'' ''phone'' (Some sample_signal)
       (sample_registry\<lparr>calls := [''c1'' \<mapsto> sample_call]\<rparr>))) ''c1'')"
  using signals_reach_only_the_peer [OF _ _ prod.collapse [symmetric], where
      R = "sample_registry\<lparr>calls := [''c1'' \<mapsto> sample_call]\<rparr>" and sig = sample_signal and
      st = sample_call and user = "''b''" and r = Callee and S = sample_service and
      t = sample_wall and device = "''phone''"]
  by (simp add: sample_signal_def sample_call_def role_of_def)

theorem reaper_exact_witness:
  "calls (cleanup_tick sample_env sample_wall (sample_registry\<lparr>calls := [''c1'' \<mapsto> sample_call]\<rparr>)) ''c1''
   = Some sample_call"
  using reaper_exact [of "sample_registry\<lparr>calls := [''c1'' \<mapsto> sample_call]\<rparr>" sample_env
      "sample_registry\<lparr>calls := [''c1'' \<mapsto> sample_call]\<rparr>" "sample_registry\<lparr>calls := [''c1'' \<mapsto> sample_call]\<rparr>"
      "[''c1'']" "''c1''" sample_call sample_wall]
  by (simp add: keyed_def try_acquire_cleanup_lock_def list_active_call_ids_def sample_env_def
      sample_redis_def sample_registry_def sample_call_def healthy_def sample_wall_def i64_saturating_sub_def)

theorem ending_a_call_unmarks_another_witness:
  "active_calls (remove_call sample_env ''c1''
     (create_call sample_env sample_wall ''c2'' ''a'' ''d'' ''c'' 0
       (create_call sample_env sample_wall ''c1'' ''a'' ''d'' ''b'' 0 sample_registry))) ''a'' = None"
  using ending_a_call_unmarks_another [of "''c1''" "''c2''" sample_env sample_wall "''a''" "''d''" "''b''" 0
      sample_registry "''c''"] by (simp add: Let_def)

lemmas sample_defs = sample_service_def sample_env_def sample_redis_def sample_registry_def
  sample_request_def sample_wall_def

lemmas initiate_defs = initiate_call_def contact_gate_def call_gates_def rate_gate_def
  check_call_rate_def check_peer_rate_def check_decline_cooldown_def incr_rate_def is_user_busy_def
  get_user_call_def call_exists_in_redis_def list_online_devices_def create_call_def
  store_call_metadata_def run_pipe_def cooldown_key_def peer_bucket_def set_decline_cooldown_def Let_def


theorem calls_ring_contacts_only_witness:
  "\<exists>db. db_pool sample_service = Some db \<and> are_mutual_contacts db
     (contact_link_hmac sample_service ''a'') (contact_link_hmac sample_service ''b'') = Ok True"
proof -
  let ?run = "initiate_call sample_service sample_wall ''a'' ''d'' (sample_request ''b'') sample_registry"
  have ok: "snd (snd ?run) = Ok False" 
    by (simp add: sample_defs initiate_defs rate_limit_default_def as_bytes_def byte_of_def active_key_def call_key_def)
  obtain R' p r where run: "?run = (R', p, r)" by (metis prod_cases3)
  have "parse_uuid sample_service ''a'' = Some ''a''" "parse_uuid sample_service ''b'' = Some ''b''"
    by (simp_all add: sample_service_def ascii_lower_def)
  with calls_ring_contacts_only [OF run] ok run show ?thesis
    by (auto simp: sample_request_def)
qed

end
