(* ===== verification/Privacy_Pass.thy ===== *)
theory Privacy_Pass
  imports Ip_Addr "HOL-Library.Numeral_Type"
begin

text \<open>
  The Privacy Pass code of \<open>crates/construct-crypto/src/privacy_pass.rs\<close>: opening the sealed box
  that carries a token, deriving and checking a token from the issuer's scalar, and the batched
  proof that every evaluated point used the scalar the issuer published (a discrete-logarithm
  equality, or DLEQ, proof).

  The Ristretto group and its scalars come from \<open>curve25519_dalek\<close>. They are types of the classes
  \<open>ab_group_add\<close> and \<open>comm_ring_1\<close> with the operations of the crate as a record, and
  \<open>ristretto_ok\<close> states that multiplication by a scalar is linear, that encodings of 32 bytes
  decode to what was encoded, and that the group has prime order. Hashes, HKDF, X25519 and
  ChaCha20-Poly1305 are parameters without laws.
\<close>

record ('k, 'p) ristretto =
  from_bytes_mod_order :: "bytes \<Rightarrow> 'k"
  scalar_to_bytes :: "'k \<Rightarrow> bytes"
  from_canonical_bytes :: "bytes \<Rightarrow> 'k option"
  scalar_from_hash :: "bytes \<Rightarrow> 'k"
  point_from_hash :: "bytes \<Rightarrow> 'p"
  point_mul :: "'k \<Rightarrow> 'p \<Rightarrow> 'p"
  basepoint :: 'p
  compress :: "'p \<Rightarrow> bytes"
  decompress :: "bytes \<Rightarrow> 'p option"
  sha512 :: "bytes \<Rightarrow> bytes"
  hkdf_sha512 :: "bytes \<Rightarrow> bytes \<Rightarrow> nat \<Rightarrow> bytes"

definition scalars_ok :: "('k::comm_ring_1, 'p) ristretto \<Rightarrow> bool" where
  "scalars_ok R \<longleftrightarrow>
     (\<forall>x. length (scalar_to_bytes R x) = 32 \<and> from_canonical_bytes R (scalar_to_bytes R x) = Some x)"

definition encoding_ok :: "('k, 'p) ristretto \<Rightarrow> bool" where
  "encoding_ok R \<longleftrightarrow> (\<forall>p. length (compress R p) = 32 \<and> decompress R (compress R p) = Some p)"

definition linear_ok :: "('k::comm_ring_1, 'p::ab_group_add) ristretto \<Rightarrow> bool" where
  "linear_ok R \<longleftrightarrow>
     (\<forall>a b p. point_mul R (a + b) p = point_mul R a p + point_mul R b p) \<and>
     (\<forall>a p q. point_mul R a (p + q) = point_mul R a p + point_mul R a q) \<and>
     (\<forall>a b p. point_mul R (a * b) p = point_mul R a (point_mul R b p)) \<and>
     (\<forall>p. point_mul R 1 p = p)"

definition prime_order :: "('k::comm_ring_1, 'p::ab_group_add) ristretto \<Rightarrow> bool" where
  "prime_order R \<longleftrightarrow> (\<forall>a p. point_mul R a p = 0 \<longrightarrow> a = 0 \<or> p = 0)"

definition ristretto_ok :: "('k::comm_ring_1, 'p::ab_group_add) ristretto \<Rightarrow> bool" where
  "ristretto_ok R \<longleftrightarrow> scalars_ok R \<and> encoding_ok R \<and> linear_ok R \<and> prime_order R"

section \<open>The sealed box\<close>

datatype PrivacyPassError = SealedBoxTooShort | DecryptFailed | InvalidEphemeralKey

record 'x sealed_box =
  diffie_hellman :: "'x \<Rightarrow> bytes \<Rightarrow> bytes"
  hkdf_sha256 :: "bytes \<Rightarrow> bytes \<Rightarrow> nat \<Rightarrow> bytes option"
  chacha_decrypt :: "bytes \<Rightarrow> bytes \<Rightarrow> bytes \<Rightarrow> bytes option"

definition TOKEN_SEAL_INFO :: bytes where
  "TOKEN_SEAL_INFO = as_bytes ''construct-token-seal-v1''"

text \<open>\<open>ephemeral_pub(32) ++ nonce(12) ++ ciphertext ++ tag(16)\<close>.\<close>

definition open_sealed_token_bytes ::
  "'x sealed_box \<Rightarrow> bytes \<Rightarrow> 'x \<Rightarrow> (PrivacyPassError, bytes) result" where
  "open_sealed_token_bytes X sealed server_secret =
     (if length sealed < 32 + 12 + 16 then Err SealedBoxTooShort
      else
        let ephemeral_pub = take 32 sealed;
            nonce_bytes = take 12 (drop 32 sealed);
            ciphertext_and_tag = drop (32 + 12) sealed;
            shared_secret = diffie_hellman X server_secret ephemeral_pub
        in case hkdf_sha256 X shared_secret TOKEN_SEAL_INFO 32 of
             None \<Rightarrow> Err DecryptFailed
           | Some sym_key \<Rightarrow>
               (case chacha_decrypt X sym_key nonce_bytes ciphertext_and_tag of
                  None \<Rightarrow> Err DecryptFailed
                | Some plain \<Rightarrow> Ok plain))"

section \<open>Tokens\<close>

definition PP_HKDF_INFO :: bytes where
  "PP_HKDF_INFO = as_bytes ''ConstructPP-v1''"

definition hash_to_ristretto :: "('k, 'p) ristretto \<Rightarrow> bytes \<Rightarrow> 'p" where
  "hash_to_ristretto R data = point_from_hash R data"

definition derive_token :: "('k, 'p) ristretto \<Rightarrow> bytes \<Rightarrow> bytes \<Rightarrow> bytes" where
  "derive_token R n_compressed nonce = hkdf_sha512 R (n_compressed @ nonce) PP_HKDF_INFO 32"

definition verify_token :: "('k, 'p) ristretto \<Rightarrow> bytes \<Rightarrow> bytes \<Rightarrow> bytes \<Rightarrow> bool" where
  "verify_token R token nonce k_scalar_bytes =
     (let k = from_bytes_mod_order R k_scalar_bytes;
          t = hash_to_ristretto R nonce;
          n = point_mul R k t;
          expected = derive_token R (compress R n) nonce
      in expected = token)"

section \<open>The batched proof\<close>

definition DLEQ_DOMAIN :: bytes where
  "DLEQ_DOMAIN = as_bytes ''ConstructPP-DLEQ-v1''"

definition dleq_hash_to_scalar :: "('k, 'p) ristretto \<Rightarrow> bytes list \<Rightarrow> 'k" where
  "dleq_hash_to_scalar R parts = scalar_from_hash R (concat parts)"

definition decompress_nonidentity :: "('k, 'p::zero) ristretto \<Rightarrow> bytes \<Rightarrow> 'p option" where
  "decompress_nonidentity R b =
     (if length b \<noteq> 32 then None
      else case decompress R b of None \<Rightarrow> None | Some p \<Rightarrow> if p = 0 then None else Some p)"

definition issuer_public_key :: "('k, 'p) ristretto \<Rightarrow> bytes \<Rightarrow> bytes" where
  "issuer_public_key R k_scalar_bytes =
     compress R (point_mul R (from_bytes_mod_order R k_scalar_bytes) (basepoint R))"

fun decompress_pairs ::
  "('k, 'p::zero) ristretto \<Rightarrow> (bytes \<times> bytes) list \<Rightarrow> ('p \<times> 'p) list option" where
  "decompress_pairs R [] = Some []"
| "decompress_pairs R ((b, z) # rest) =
     (case decompress_nonidentity R b of
        None \<Rightarrow> None
      | Some bp \<Rightarrow>
          (case decompress_nonidentity R z of
             None \<Rightarrow> None
           | Some zp \<Rightarrow> map_option ((#) (bp, zp)) (decompress_pairs R rest)))"

definition u32_be_bytes :: "u32 \<Rightarrow> bytes" where
  "u32_be_bytes w = map (\<lambda>i. ucast (drop_bit (8 * i) w)) [3, 2, 1, 0]"

definition composite_seed :: "('k, 'p) ristretto \<Rightarrow> bytes \<Rightarrow> (bytes \<times> bytes) list \<Rightarrow> bytes" where
  "composite_seed R k_pub pairs =
     sha512 R (DLEQ_DOMAIN @ [0] @ k_pub @ concat (map (\<lambda>(b, z). b @ z) pairs))"

fun composite_sums ::
  "('k, 'p::plus) ristretto \<Rightarrow> bytes \<Rightarrow> nat \<Rightarrow> ((bytes \<times> bytes) \<times> ('p \<times> 'p)) list
     \<Rightarrow> 'p \<times> 'p \<Rightarrow> 'p \<times> 'p" where
  "composite_sums R seed i [] acc = acc"
| "composite_sums R seed i (((b, z), (bp, zp)) # rest) (m, zc) =
     (let idx = u32_be_bytes (word_of_nat i);
          d = dleq_hash_to_scalar R [DLEQ_DOMAIN, [1], seed, idx, b, z]
      in composite_sums R seed (i + 1) rest (m + point_mul R d bp, zc + point_mul R d zp))"

definition compute_composites ::
  "('k, 'p::ab_group_add) ristretto \<Rightarrow> bytes \<Rightarrow> bytes list \<Rightarrow> bytes list \<Rightarrow> ('p \<times> 'p) option" where
  "compute_composites R k_pub blinded evaluated =
     (if blinded = [] \<or> length blinded \<noteq> length evaluated then None
      else
        let pairs = zip blinded evaluated
        in case decompress_pairs R pairs of
             None \<Rightarrow> None
           | Some pts \<Rightarrow>
               Some (composite_sums R (composite_seed R k_pub pairs) 0 (zip pairs pts) (0, 0)))"

definition dleq_challenge ::
  "('k, 'p) ristretto \<Rightarrow> bytes \<Rightarrow> bytes \<Rightarrow> bytes \<Rightarrow> 'p \<Rightarrow> 'p \<Rightarrow> 'k" where
  "dleq_challenge R k_pub m_c zc_c a1 a2 =
     dleq_hash_to_scalar R [DLEQ_DOMAIN, [3], k_pub, m_c, zc_c, compress R a1, compress R a2]"

definition generate_dleq_proof ::
  "('k::comm_ring_1, 'p::ab_group_add) ristretto \<Rightarrow> bytes \<Rightarrow> bytes list \<Rightarrow> bytes list
     \<Rightarrow> bytes option" where
  "generate_dleq_proof R k_scalar_bytes blinded evaluated =
     (let k = from_bytes_mod_order R k_scalar_bytes;
          k_pub = issuer_public_key R k_scalar_bytes
      in case compute_composites R k_pub blinded evaluated of
           None \<Rightarrow> None
         | Some (m, zc) \<Rightarrow>
             (let m_c = compress R m;
                  zc_c = compress R zc;
                  t = dleq_hash_to_scalar R [DLEQ_DOMAIN, [2], scalar_to_bytes R k, m_c, zc_c];
                  a1 = point_mul R t (basepoint R);
                  a2 = point_mul R t m;
                  c = dleq_challenge R k_pub m_c zc_c a1 a2;
                  s = t + c * k
              in Some (scalar_to_bytes R c @ scalar_to_bytes R s)))"

definition verify_dleq_proof ::
  "('k, 'p::ab_group_add) ristretto \<Rightarrow> bytes \<Rightarrow> bytes list \<Rightarrow> bytes list \<Rightarrow> bytes \<Rightarrow> bool" where
  "verify_dleq_proof R issuer_public blinded evaluated proof_bytes =
     (case (from_canonical_bytes R (take 32 proof_bytes),
            from_canonical_bytes R (drop 32 proof_bytes)) of
        (Some c, Some s) \<Rightarrow>
          (if length issuer_public \<noteq> 32 then False
           else case decompress R issuer_public of
             None \<Rightarrow> False
           | Some k_point \<Rightarrow>
               (case compute_composites R issuer_public blinded evaluated of
                  None \<Rightarrow> False
                | Some (m, zc) \<Rightarrow>
                    (let a1p = point_mul R s (basepoint R) - point_mul R c k_point;
                         a2p = point_mul R s m - point_mul R c zc
                     in dleq_challenge R issuer_public (compress R m) (compress R zc) a1p a2p = c)))
      | _ \<Rightarrow> False)"

section \<open>The issuer's key\<close>

definition to_digit16 :: "char \<Rightarrow> nat option" where
  "to_digit16 c =
     (let n = of_char c in
      if 48 \<le> n \<and> n \<le> 57 then Some (n - 48)
      else if 97 \<le> n \<and> n \<le> 102 then Some (n - 87)
      else if 65 \<le> n \<and> n \<le> 70 then Some (n - 55)
      else None)"

fun hex_pairs :: "string \<Rightarrow> bytes option" where
  "hex_pairs (a # b # rest) =
     (case (to_digit16 a, to_digit16 b) of
        (Some hi, Some lo) \<Rightarrow> map_option ((#) (word_of_nat (16 * hi + lo))) (hex_pairs rest)
      | _ \<Rightarrow> None)"
| "hex_pairs _ = Some []"

definition issuer_key_from_hex :: "string \<Rightarrow> bytes option" where
  "issuer_key_from_hex hex_str =
     (let s = trim hex_str in
      if length s \<noteq> 64 \<or> \<not> (\<forall>c \<in> set s. to_digit16 c \<noteq> None) then None
      else hex_pairs s)"

section \<open>An honest batch is accepted\<close>

lemma ristretto_okD:
  assumes "ristretto_ok R"
  shows "length (scalar_to_bytes R x) = 32" "from_canonical_bytes R (scalar_to_bytes R x) = Some x"
    "length (compress R p) = 32" "decompress R (compress R p) = Some p"
    "point_mul R (a + b) p = point_mul R a p + point_mul R b p"
    "point_mul R a (p + q) = point_mul R a p + point_mul R a q"
    "point_mul R (a * b) p = point_mul R a (point_mul R b p)"
    "point_mul R 1 p = p"
  using assms
  by (auto simp: ristretto_ok_def scalars_ok_def encoding_ok_def linear_ok_def)

lemma point_mul_zero: "ristretto_ok R \<Longrightarrow> point_mul R a 0 = 0"
  using ristretto_okD(6) [of R a 0 0] by simp

lemma point_mul_commute:
  "ristretto_ok R \<Longrightarrow> point_mul R a (point_mul R b p) = point_mul R b (point_mul R a p)"
  by (metis mult.commute ristretto_okD(7))

text \<open>What the issuer returns for a batch: every point multiplied by its scalar.\<close>

definition evaluate_points :: "('k, 'p) ristretto \<Rightarrow> bytes \<Rightarrow> 'p list \<Rightarrow> bytes list" where
  "evaluate_points R k_bytes points =
     map (\<lambda>p. compress R (point_mul R (from_bytes_mod_order R k_bytes) p)) points"

text \<open>Points that decoded, with the bytes they were decoded from.\<close>

definition decoded_points :: "('k, 'p::zero) ristretto \<Rightarrow> bytes list \<Rightarrow> 'p list \<Rightarrow> bool" where
  "decoded_points R raws points \<longleftrightarrow> map (decompress_nonidentity R) raws = map Some points"

lemma decompress_nonidentity_compress:
  "ristretto_ok R \<Longrightarrow> p \<noteq> 0 \<Longrightarrow> decompress_nonidentity R (compress R p) = Some p"
  by (simp add: decompress_nonidentity_def ristretto_okD)

lemma decompress_nonidentity_nonzero:
  "decompress_nonidentity R b = Some p \<Longrightarrow> p \<noteq> 0"
  by (auto simp: decompress_nonidentity_def split: option.splits if_splits)

lemma decompress_pairs_evaluated:
  assumes R: "ristretto_ok R" and k: "from_bytes_mod_order R kb \<noteq> 0"
    and "decoded_points R raws points"
  shows "decompress_pairs R (zip raws (evaluate_points R kb points))
           = Some (map (\<lambda>p. (p, point_mul R (from_bytes_mod_order R kb) p)) points)"
  using assms(3)
proof (induction points arbitrary: raws)
  case Nil
  then show ?case by (simp add: decoded_points_def)
next
  case (Cons p points)
  then obtain raw raws' where raws: "raws = raw # raws'" and
      raw: "decompress_nonidentity R raw = Some p" and "decoded_points R raws' points"
    by (cases raws) (auto simp: decoded_points_def)
  let ?z = "point_mul R (from_bytes_mod_order R kb) p"
  from R k decompress_nonidentity_nonzero [OF raw] have "?z \<noteq> 0"
    by (auto simp: ristretto_ok_def prime_order_def)
  with Cons.IH [OF \<open>decoded_points R raws' points\<close>] raws raw show ?case
    by (simp add: evaluate_points_def decompress_nonidentity_compress [OF R])
qed

lemma composite_sums_linear:
  assumes R: "ristretto_ok R"
    and "\<forall>x \<in> set items. snd (snd x) = point_mul R k (fst (snd x))"
    and "zc = point_mul R k m"
    and "composite_sums R seed i items (m, zc) = (m', zc')"
  shows "zc' = point_mul R k m'"
  using assms(2-4)
proof (induction items arbitrary: i m zc)
  case (Cons x items)
  obtain b z bp zp where x: "x = ((b, z), (bp, zp))" by (metis surj_pair)
  define d where
    "d = dleq_hash_to_scalar R [DLEQ_DOMAIN, [1], seed, u32_be_bytes (word_of_nat i), b, z]"
  have "zc + point_mul R d zp = point_mul R k (m + point_mul R d bp)"
    using Cons.prems(1,2) x
    by (simp add: ristretto_okD(6) [OF R] point_mul_commute [OF R, of d k])
  with Cons.IH [of "zc + point_mul R d zp" "m + point_mul R d bp" "i + 1"] Cons.prems x show ?case
    by (simp add: Let_def d_def)
qed simp

lemma composites_evaluated:
  assumes R: "ristretto_ok R" and k: "from_bytes_mod_order R kb \<noteq> 0"
    and dec: "decoded_points R raws points" and "points \<noteq> []"
  shows "\<exists>m. compute_composites R k_pub raws (evaluate_points R kb points)
           = Some (m, point_mul R (from_bytes_mod_order R kb) m)"
proof -
  let ?k = "from_bytes_mod_order R kb" and ?ev = "evaluate_points R kb points"
  from dec have len: "length raws = length points"
    unfolding decoded_points_def by (metis length_map)
  let ?pts = "map (\<lambda>p. (p, point_mul R ?k p)) points"
  let ?items = "zip (zip raws ?ev) ?pts" and ?seed = "composite_seed R k_pub (zip raws ?ev)"
  obtain m zc where sums: "composite_sums R ?seed 0 ?items (0, 0) = (m, zc)" by fastforce
  have "\<forall>x \<in> set ?items. snd (snd x) = point_mul R ?k (fst (snd x))"
    by (auto dest!: set_zip_rightD)
  from composite_sums_linear [OF R this _ sums] have "zc = point_mul R ?k m"
    by (simp add: point_mul_zero [OF R])
  moreover have "compute_composites R k_pub raws ?ev = Some (m, zc)"
    using len assms(4) sums decompress_pairs_evaluated [OF R k dec]
    by (auto simp: compute_composites_def evaluate_points_def)
  ultimately show ?thesis by blast
qed

lemma honest_proof_accepted:
  assumes R: "ristretto_ok R" and k: "from_bytes_mod_order R kb \<noteq> 0"
    and dec: "decoded_points R raws points" and "points \<noteq> []"
  shows "\<exists>pf. generate_dleq_proof R kb raws (evaluate_points R kb points) = Some pf \<and>
           verify_dleq_proof R (issuer_public_key R kb) raws (evaluate_points R kb points) pf"
proof -
  define k where "k = from_bytes_mod_order R kb"
  let ?ev = "evaluate_points R kb points" and ?K = "issuer_public_key R kb" and ?G = "basepoint R"
  obtain m where m: "compute_composites R ?K raws ?ev = Some (m, point_mul R k m)"
    using composites_evaluated [OF assms] unfolding k_def by blast
  let ?mc = "compress R m" and ?zc = "compress R (point_mul R k m)"
  define t where "t = dleq_hash_to_scalar R [DLEQ_DOMAIN, [2], scalar_to_bytes R k, ?mc, ?zc]"
  define c where "c = dleq_challenge R ?K ?mc ?zc (point_mul R t ?G) (point_mul R t m)"
  let ?pf = "scalar_to_bytes R c @ scalar_to_bytes R (t + c * k)"
  have gen: "generate_dleq_proof R kb raws ?ev = Some ?pf"
    by (simp add: generate_dleq_proof_def m Let_def c_def t_def flip: k_def)
  have cancel: "point_mul R (t + c * k) p - point_mul R c (point_mul R k p) = point_mul R t p" for p
    by (simp add: ristretto_okD [OF R])
  have "decompress R ?K = Some (point_mul R k ?G)" "length ?K = 32"
    by (simp_all add: issuer_public_key_def ristretto_okD [OF R] k_def)
  then have "verify_dleq_proof R ?K raws ?ev ?pf"
    by (simp add: verify_dleq_proof_def ristretto_okD(1,2) [OF R] m cancel Let_def flip: c_def)
  with gen show ?thesis by blast
qed

text \<open>
  A client blinds the point of its nonce with a scalar \<open>r\<close>, and removes the blinding with the
  inverse of \<open>r\<close>; what it then derives is what the issuer's scalar gives directly.
\<close>

lemma unblinded_token_verifies:
  assumes R: "ristretto_ok R" and "rinv * r = 1"
  shows "verify_token R
           (derive_token R (compress R (point_mul R rinv
              (point_mul R (from_bytes_mod_order R kb) (point_mul R r (hash_to_ristretto R nonce)))))
              nonce) nonce kb"
proof -
  let ?t = "hash_to_ristretto R nonce" and ?k = "from_bytes_mod_order R kb"
  have "point_mul R rinv (point_mul R ?k (point_mul R r ?t)) = point_mul R (rinv * r * ?k) ?t"
    by (simp add: ristretto_okD(7) [OF R, symmetric] mult.assoc mult.commute mult.left_commute)
  with assms(2) show ?thesis by (simp add: verify_token_def Let_def)
qed

section \<open>A group that satisfies the laws\<close>

text \<open>The integers modulo three, with hashes that answer one.\<close>

definition sample_code :: "3 \<Rightarrow> bytes" where
  "sample_code x = (if x = 0 then 0 else if x = 1 then 1 else 2) # replicate 31 0"

definition sample_decode :: "bytes \<Rightarrow> 3 option" where
  "sample_decode b =
     (if b = sample_code 0 then Some 0 else if b = sample_code 1 then Some 1
      else if b = sample_code 2 then Some 2 else None)"

definition sample_ristretto :: "(3, 3) ristretto" where
  "sample_ristretto = \<lparr>
     from_bytes_mod_order = (\<lambda>b. case b of [] \<Rightarrow> 0 | w # _ \<Rightarrow> of_nat (unat w)),
     scalar_to_bytes = sample_code,
     from_canonical_bytes = sample_decode,
     scalar_from_hash = (\<lambda>_. 1),
     point_from_hash = (\<lambda>_. 1),
     point_mul = (*),
     basepoint = 1,
     compress = sample_code,
     decompress = sample_decode,
     sha512 = (\<lambda>b. b),
     hkdf_sha512 = (\<lambda>ikm info n. take n (ikm @ info))\<rparr>"

lemma three_cases:
  fixes x :: 3
  obtains "x = 0" | "x = 1" | "x = 2"
proof (cases x)
  case (of_int z)
  then have "z = 0 \<or> z = 1 \<or> z = 2" by auto
  with of_int that show thesis by auto
qed

lemma sample_decode_code: "sample_decode (sample_code x) = Some x"
  by (cases x rule: three_cases) (simp_all add: sample_decode_def sample_code_def)

lemma sample_ristretto_ok: "ristretto_ok sample_ristretto"
proof -
  have "length (sample_code x) = 32" for x by (simp add: sample_code_def)
  moreover have "a * p = 0 \<Longrightarrow> a = 0 \<or> p = 0" for a p :: 3
    by (cases a rule: three_cases; cases p rule: three_cases) simp_all
  ultimately show ?thesis
    by (simp add: ristretto_ok_def scalars_ok_def encoding_ok_def linear_ok_def prime_order_def
        sample_ristretto_def sample_decode_code algebra_simps)
qed

end
