(* ===== verification/Kv.thy ===== *)
theory Kv
  imports Prelude
begin

text \<open>
  The part of Redis that the token, replay and intake code uses: strings and sets under keys, with
  times to live. Redis is a service, so its commands are the fields of a record over an abstract
  state, and what the code relies on is written as laws about two ghost views of that state: the
  string, or the set, a key holds together with the moment it expires.

  The state carries Redis' own clock. A command, a pipeline or a Lua script is one round trip:
  the connection is asked first, time may pass there, and the round trip succeeds, fails before
  the server sees it, or runs on the server with its reply lost. The last case is why an error
  says nothing about whether the write happened.
\<close>

type_synonym key = string
type_synonym deadline = "nat option"

datatype link = Up | Down | ReplyLost

record 's kv =
  kv_now :: "'s \<Rightarrow> nat"
  kv_link :: "'s \<Rightarrow> 's \<times> link"
  kv_get :: "'s \<Rightarrow> key \<Rightarrow> string option"
  kv_set :: "'s \<Rightarrow> key \<Rightarrow> string \<Rightarrow> 's"
  kv_set_ex :: "'s \<Rightarrow> key \<Rightarrow> string \<Rightarrow> nat \<Rightarrow> 's"
  kv_incr_by :: "'s \<Rightarrow> key \<Rightarrow> int \<Rightarrow> ('s \<times> int) option"
  kv_persist :: "'s \<Rightarrow> key \<Rightarrow> 's"
  kv_del :: "'s \<Rightarrow> key \<Rightarrow> 's"
  kv_expire :: "'s \<Rightarrow> key \<Rightarrow> nat \<Rightarrow> 's option"
  kv_members :: "'s \<Rightarrow> key \<Rightarrow> bytes list"
  kv_sadd :: "'s \<Rightarrow> key \<Rightarrow> bytes \<Rightarrow> 's"

text \<open>
  One round trip. A script whose commands fail is aborted by Redis and answers an error; what it
  wrote before stays.
\<close>

definition round_trip ::
  "'s kv \<Rightarrow> ('s \<Rightarrow> 's \<times> 'a option) \<Rightarrow> 's \<Rightarrow> 's \<times> (unit, 'a) result" where
  "round_trip K script s =
     (case kv_link K s of
        (s0, Up) \<Rightarrow>
          (case script s0 of
             (s1, Some a) \<Rightarrow> (s1, Ok a)
           | (s1, None) \<Rightarrow> (s1, Err ()))
      | (s0, Down) \<Rightarrow> (s0, Err ())
      | (s0, ReplyLost) \<Rightarrow> (fst (script s0), Err ()))"

section \<open>What Redis documents\<close>

type_synonym 'v view = "key \<Rightarrow> ('v \<times> deadline) option"

text \<open>
  A key is readable before its deadline and gone after it; nothing is said of the second in
  which it expires.
\<close>

fun unexpired :: "nat \<Rightarrow> deadline \<Rightarrow> bool" where
  "unexpired t None = True"
| "unexpired t (Some d) = (t < d)"

fun expired :: "nat \<Rightarrow> deadline \<Rightarrow> bool" where
  "expired t None = False"
| "expired t (Some d) = (d < t)"

definition link_ok :: "'s kv \<Rightarrow> ('s \<Rightarrow> string view) \<Rightarrow> ('s \<Rightarrow> bytes set view) \<Rightarrow> bool" where
  "link_ok K V W \<longleftrightarrow>
     (\<forall>s. V (fst (kv_link K s)) = V s \<and> W (fst (kv_link K s)) = W s \<and>
          kv_now K s \<le> kv_now K (fst (kv_link K s)))"

definition get_ok :: "'s kv \<Rightarrow> ('s \<Rightarrow> string view) \<Rightarrow> bool" where
  "get_ok K V \<longleftrightarrow>
     (\<forall>s k. case V s k of
        None \<Rightarrow> kv_get K s k = None
      | Some (v, d) \<Rightarrow>
          kv_get K s k \<in> {None, Some v} \<and>
          (unexpired (kv_now K s) d \<longrightarrow> kv_get K s k = Some v) \<and>
          (expired (kv_now K s) d \<longrightarrow> kv_get K s k = None))"

definition set_ok :: "'s kv \<Rightarrow> ('s \<Rightarrow> string view) \<Rightarrow> ('s \<Rightarrow> bytes set view) \<Rightarrow> bool" where
  "set_ok K V W \<longleftrightarrow>
     (\<forall>s k v. V (kv_set K s k v) = (V s)(k \<mapsto> (v, None)) \<and> W (kv_set K s k v) = W s \<and>
              kv_now K (kv_set K s k v) = kv_now K s) \<and>
     (\<forall>s k v n. V (kv_set_ex K s k v n) = (V s)(k \<mapsto> (v, Some (kv_now K s + n))) \<and>
              W (kv_set_ex K s k v n) = W s \<and> kv_now K (kv_set_ex K s k v n) = kv_now K s)"

text \<open>
  \<open>INCRBY\<close> reads a decimal integer, creates the key when it is absent, keeps its deadline
  otherwise, and fails on any other value or when the sum leaves 64 bits.
\<close>

definition incr_ok :: "'s kv \<Rightarrow> ('s \<Rightarrow> string view) \<Rightarrow> ('s \<Rightarrow> bytes set view) \<Rightarrow> bool" where
  "incr_ok K V W \<longleftrightarrow>
     (\<forall>s k i. case kv_incr_by K s k i of
        None \<Rightarrow> (\<exists>v. kv_get K s k = Some v \<and>
                   (case parse_i64 v of None \<Rightarrow> True
                    | Some n \<Rightarrow> n + i < - (2 ^ 63) \<or> 2 ^ 63 \<le> n + i))
      | Some (s', m) \<Rightarrow>
          W s' = W s \<and> kv_now K s' = kv_now K s \<and>
          (case kv_get K s k of
             None \<Rightarrow> m = i \<and> V s' = (V s)(k \<mapsto> (show_int i, None))
           | Some v \<Rightarrow>
               (case parse_i64 v of
                  None \<Rightarrow> False
                | Some n \<Rightarrow> m = n + i \<and> - (2 ^ 63) \<le> m \<and> m < 2 ^ 63 \<and>
                    V s' = (V s)(k \<mapsto> (show_int m, snd (the (V s k)))))))"

definition del_ok :: "'s kv \<Rightarrow> ('s \<Rightarrow> string view) \<Rightarrow> ('s \<Rightarrow> bytes set view) \<Rightarrow> bool" where
  "del_ok K V W \<longleftrightarrow>
     (\<forall>s k. V (kv_del K s k) = (V s)(k := None) \<and> W (kv_del K s k) = (W s)(k := None) \<and>
            kv_now K (kv_del K s k) = kv_now K s)"

text \<open>
  \<open>EXPIRE\<close> keeps milliseconds in 64 bits: it refuses a time to live beyond that range, which lies
  between \<open>2 ^ 52\<close> and \<open>2 ^ 54\<close> seconds.
\<close>

definition redeadline :: "deadline \<Rightarrow> key \<Rightarrow> 'v view \<Rightarrow> 'v view" where
  "redeadline d k f = f(k := map_option (\<lambda>(v, _). (v, d)) (f k))"

definition ttl_ok :: "'s kv \<Rightarrow> ('s \<Rightarrow> string view) \<Rightarrow> ('s \<Rightarrow> bytes set view) \<Rightarrow> bool" where
  "ttl_ok K V W \<longleftrightarrow>
     (\<forall>s k n. case kv_expire K s k n of
        None \<Rightarrow> 2 ^ 52 \<le> n
      | Some s' \<Rightarrow> n < 2 ^ 54 \<and>
          V s' = redeadline (Some (kv_now K s + n)) k (V s) \<and>
          W s' = redeadline (Some (kv_now K s + n)) k (W s) \<and> kv_now K s' = kv_now K s) \<and>
     (\<forall>s k. V (kv_persist K s k) = redeadline None k (V s) \<and>
            W (kv_persist K s k) = redeadline None k (W s) \<and>
            kv_now K (kv_persist K s k) = kv_now K s)"

text \<open>\<open>SMEMBERS\<close> lists a set in some order; an absent key is the empty set.\<close>

definition sets_ok :: "'s kv \<Rightarrow> ('s \<Rightarrow> string view) \<Rightarrow> ('s \<Rightarrow> bytes set view) \<Rightarrow> bool" where
  "sets_ok K V W \<longleftrightarrow>
     (\<forall>s k. distinct (kv_members K s k) \<and>
        (case W s k of
           None \<Rightarrow> kv_members K s k = []
         | Some (m, d) \<Rightarrow>
             set (kv_members K s k) \<in> {{}, m} \<and>
             (unexpired (kv_now K s) d \<longrightarrow> set (kv_members K s k) = m) \<and>
             (expired (kv_now K s) d \<longrightarrow> kv_members K s k = []))) \<and>
     (\<forall>s k b. V (kv_sadd K s k b) = V s \<and> kv_now K (kv_sadd K s k b) = kv_now K s \<and>
        W (kv_sadd K s k b) =
          (W s)(k \<mapsto> (if kv_members K s k = [] then ({b}, None)
                      else (insert b (set (kv_members K s k)), snd (the (W s k))))))"

definition kv_ok :: "'s kv \<Rightarrow> ('s \<Rightarrow> string view) \<Rightarrow> ('s \<Rightarrow> bytes set view) \<Rightarrow> bool" where
  "kv_ok K V W \<longleftrightarrow>
     link_ok K V W \<and> get_ok K V \<and> set_ok K V W \<and> incr_ok K V W \<and> del_ok K V W \<and>
     ttl_ok K V W \<and> sets_ok K V W"


section \<open>Consequences\<close>

lemma kv_okD:
  assumes "kv_ok K V W"
  shows "link_ok K V W" "get_ok K V" "set_ok K V W" "incr_ok K V W" "del_ok K V W"
    "ttl_ok K V W" "sets_ok K V W"
  using assms by (simp_all add: kv_ok_def)

lemma set_views:
  assumes "kv_ok K V W"
  shows "V (kv_set K s k v) = (V s)(k \<mapsto> (v, None))"
    "W (kv_set K s k v) = W s"
    "kv_now K (kv_set K s k v) = kv_now K s"
    "V (kv_set_ex K s k v n) = (V s)(k \<mapsto> (v, Some (kv_now K s + n)))"
    "W (kv_set_ex K s k v n) = W s"
    "kv_now K (kv_set_ex K s k v n) = kv_now K s"
  using kv_okD(3) [OF assms] by (simp_all add: set_ok_def)

lemma del_views:
  assumes "kv_ok K V W"
  shows "V (kv_del K s k) = (V s)(k := None)"
    "W (kv_del K s k) = (W s)(k := None)"
    "kv_now K (kv_del K s k) = kv_now K s"
  using kv_okD(5) [OF assms] by (simp_all add: del_ok_def)

lemma persist_views:
  assumes "kv_ok K V W"
  shows "V (kv_persist K s k) = redeadline None k (V s)"
    "W (kv_persist K s k) = redeadline None k (W s)"
    "kv_now K (kv_persist K s k) = kv_now K s"
  using kv_okD(6) [OF assms] by (simp_all add: ttl_ok_def)

lemma expire_law:
  assumes "kv_ok K V W"
  shows "case kv_expire K s k n of
      None \<Rightarrow> 2 ^ 52 \<le> n
    | Some s' \<Rightarrow> n < 2 ^ 54 \<and> V s' = redeadline (Some (kv_now K s + n)) k (V s) \<and>
        W s' = redeadline (Some (kv_now K s + n)) k (W s) \<and> kv_now K s' = kv_now K s"
  using kv_okD(6) [OF assms] unfolding ttl_ok_def by blast

lemma expire_views:
  assumes "kv_ok K V W" and "kv_expire K s k n = Some s'"
  shows "V s' = redeadline (Some (kv_now K s + n)) k (V s)"
    "W s' = redeadline (Some (kv_now K s + n)) k (W s)" "kv_now K s' = kv_now K s"
  using expire_law [OF assms(1), where s = s and k = k and n = n] assms(2)
  by simp_all

lemma expire_runs:
  assumes "kv_ok K V W" and "n < 2 ^ 52"
  shows "\<exists>s'. kv_expire K s k n = Some s'"
  using expire_law [OF assms(1), where s = s and k = k and n = n] assms(2)
  by (auto split: option.splits)

lemma expire_refused:
  assumes "kv_ok K V W" and "2 ^ 54 \<le> n"
  shows "kv_expire K s k n = None"
  using expire_law [OF assms(1), where s = s and k = k and n = n] assms(2)
  by (cases "kv_expire K s k n") auto

lemma redeadline_other [simp]: "k' \<noteq> k \<Longrightarrow> redeadline d k f k' = f k'"
  by (simp add: redeadline_def)

lemma redeadline_same [simp]: "redeadline d k f k = map_option (\<lambda>(v, _). (v, d)) (f k)"
  by (simp add: redeadline_def)

lemma sadd_views:
  assumes "kv_ok K V W"
  shows "V (kv_sadd K s k b) = V s"
    "W (kv_sadd K s k b) =
       (W s)(k \<mapsto> (if kv_members K s k = [] then ({b}, None)
                   else (insert b (set (kv_members K s k)), snd (the (W s k)))))"
    "kv_now K (kv_sadd K s k b) = kv_now K s"
  using kv_okD(7) [OF assms] by (simp_all add: sets_ok_def)

lemmas kv_views = set_views del_views persist_views sadd_views

lemma get_someD:
  assumes "kv_ok K V W" and "kv_get K s k = Some v"
  shows "\<exists>d. V s k = Some (v, d)"
  using kv_okD(2) [OF assms(1), unfolded get_ok_def, THEN spec, THEN spec, of s k] assms(2)
  by (auto split: option.splits)

lemma get_noneD:
  assumes "kv_ok K V W" and "kv_get K s k = None" and "V s k = Some (v, d)"
  shows "\<not> unexpired (kv_now K s) d"
  using kv_okD(2) [OF assms(1), unfolded get_ok_def, THEN spec, THEN spec, of s k] assms(2,3)
  by auto

lemma get_unexpired:
  assumes "kv_ok K V W" and "V s k = Some (v, d)" and "unexpired (kv_now K s) d"
  shows "kv_get K s k = Some v"
  using get_noneD [OF assms(1) _ assms(2)] get_someD [OF assms(1)] assms(2,3)
  by (cases "kv_get K s k") fastforce+

lemma get_absent:
  assumes "kv_ok K V W" and "V s k = None"
  shows "kv_get K s k = None"
  using get_someD [OF assms(1)] assms(2) by (cases "kv_get K s k") fastforce+

lemma members_law:
  assumes "kv_ok K V W"
  shows "distinct (kv_members K s k) \<and>
    (case W s k of
       None \<Rightarrow> kv_members K s k = []
     | Some (m, d) \<Rightarrow>
         set (kv_members K s k) \<in> {{}, m} \<and>
         (unexpired (kv_now K s) d \<longrightarrow> set (kv_members K s k) = m) \<and>
         (expired (kv_now K s) d \<longrightarrow> kv_members K s k = []))"
  using kv_okD(7) [OF assms] unfolding sets_ok_def by blast

lemma members_absent:
  assumes "kv_ok K V W" and "W s k = None"
  shows "kv_members K s k = []"
  using members_law [OF assms(1), of s k] assms(2) by simp

lemma members_unexpired:
  assumes "kv_ok K V W" and "W s k = Some (m, d)" and "unexpired (kv_now K s) d"
  shows "set (kv_members K s k) = m \<and> distinct (kv_members K s k)"
  using members_law [OF assms(1), of s k] assms(2,3) by simp

lemma members_subset:
  assumes "kv_ok K V W" and "b \<in> set (kv_members K s k)"
  shows "\<exists>m d. W s k = Some (m, d) \<and> b \<in> m"
  using members_law [OF assms(1), of s k] assms(2) by (auto split: option.splits)

text \<open>What an increment did, whichever way it ended.\<close>

lemma incr_cases:
  assumes "kv_ok K V W"
  obtains (failed) v where "kv_incr_by K s k i = None" "kv_get K s k = Some v"
      "\<And>n. parse_i64 v = Some n \<Longrightarrow> n + i < - (2 ^ 63) \<or> 2 ^ 63 \<le> n + i"
  | (created) s' where "kv_incr_by K s k i = Some (s', i)" "kv_get K s k = None"
      "V s' = (V s)(k \<mapsto> (show_int i, None))" "W s' = W s" "kv_now K s' = kv_now K s"
  | (added) s' v n where "kv_incr_by K s k i = Some (s', n + i)" "kv_get K s k = Some v"
      "parse_i64 v = Some n" "n + i < 2 ^ 63"
      "V s' = (V s)(k \<mapsto> (show_int (n + i), snd (the (V s k))))" "W s' = W s"
      "kv_now K s' = kv_now K s"
proof -
  note law = kv_okD(4) [OF assms, unfolded incr_ok_def, THEN spec, THEN spec, THEN spec, of s k i]
  show thesis
  proof (cases "kv_incr_by K s k i")
    case None
    with law failed show thesis by (auto split: option.splits)
  next
    case (Some p)
    then obtain s' m where p: "kv_incr_by K s k i = Some (s', m)" by (cases p) auto
    show thesis
    proof (cases "kv_get K s k")
      case None
      with law p created [of s'] show thesis by simp
    next
      case (Some v)
      with law p obtain n where "parse_i64 v = Some n" by (auto split: option.splits)
      with law p Some added [of s' n v] show thesis by simp
    qed
  qed
qed

lemma incr_views:
  assumes K: "kv_ok K V W" and "kv_incr_by K s k i = Some (s', m)"
  shows "kv_now K s' = kv_now K s \<and> (\<forall>k'. k' \<noteq> k \<longrightarrow> V s' k' = V s k')"
  by (cases rule: incr_cases [OF K, of s k i]) (use assms(2) in auto)

text \<open>The ways a round trip ends: not run, run with its reply lost or failed, run and answered.\<close>

lemma round_trip_cases:
  assumes "kv_ok K V W" and "round_trip K script s = (s', r)"
  obtains (unseen) "r = Err ()" "V s' = V s" "W s' = W s" "kv_now K s \<le> kv_now K s'"
  | (unheard) s0 where "V s0 = V s" "W s0 = W s" "kv_now K s \<le> kv_now K s0"
      "s' = fst (script s0)" "r = Err ()"
  | (answered) s0 a where "V s0 = V s" "W s0 = W s" "kv_now K s \<le> kv_now K s0"
      "script s0 = (s', Some a)" "r = Ok a"
proof -
  obtain s0 l where l: "kv_link K s = (s0, l)" by (cases "kv_link K s") auto
  with kv_okD(1) [OF assms(1)] have s0: "V s0 = V s" "W s0 = W s" "kv_now K s \<le> kv_now K s0"
    by (metis fst_conv link_ok_def)+
  show thesis
  proof (cases l)
    case Up
    with assms(2) l s0 answered [of s0] unheard [of s0] show thesis
      by (cases "script s0") (auto simp: round_trip_def split: option.splits)
  next
    case Down
    with assms(2) l s0 unseen show thesis by (auto simp: round_trip_def)
  next
    case ReplyLost
    with assms(2) l s0 unheard [of s0] show thesis by (auto simp: round_trip_def)
  qed
qed

section \<open>A store that satisfies the laws\<close>

text \<open>
  A store in memory, for evaluating the model: maps with deadlines, a clock, and the behaviour of
  the connection on the coming round trips (time that passes, and how the round trip ends).
\<close>

record sample_store =
  ss_now :: nat
  ss_links :: "(nat \<times> link) list"
  ss_strings :: "string view"
  ss_sets :: "bytes list view"

definition ss_live :: "sample_store \<Rightarrow> ('v \<times> deadline) option \<Rightarrow> 'v option" where
  "ss_live s e = (case e of None \<Rightarrow> None
                  | Some (v, d) \<Rightarrow> if unexpired (ss_now s) d then Some v else None)"

definition ss_link :: "sample_store \<Rightarrow> sample_store \<times> link" where
  "ss_link s = (case ss_links s of [] \<Rightarrow> (s, Up)
     | (dt, l) # rest \<Rightarrow> (s\<lparr>ss_now := ss_now s + dt, ss_links := rest\<rparr>, l))"

definition ss_incr_by :: "sample_store \<Rightarrow> key \<Rightarrow> int \<Rightarrow> (sample_store \<times> int) option" where
  "ss_incr_by s k i =
     (case ss_live s (ss_strings s k) of
        None \<Rightarrow> Some (s\<lparr>ss_strings := (ss_strings s)(k \<mapsto> (show_int i, None))\<rparr>, i)
      | Some v \<Rightarrow>
          (case parse_i64 v of
             None \<Rightarrow> None
           | Some n \<Rightarrow>
               if - (2 ^ 63) \<le> n + i \<and> n + i < 2 ^ 63
               then Some (s\<lparr>ss_strings := (ss_strings s)
                             (k \<mapsto> (show_int (n + i), snd (the (ss_strings s k))))\<rparr>, n + i)
               else None))"

definition ss_members :: "sample_store \<Rightarrow> key \<Rightarrow> bytes list" where
  "ss_members s k = (case ss_live s (ss_sets s k) of None \<Rightarrow> [] | Some m \<Rightarrow> remdups m)"

definition ss_set_view :: "sample_store \<Rightarrow> bytes set view" where
  "ss_set_view s k = map_option (\<lambda>(m, d). (set m, d)) (ss_sets s k)"

text \<open>Redis answers every round trip.\<close>

definition always_up :: "'r kv \<Rightarrow> bool" where
  "always_up K \<longleftrightarrow> (\<forall>r. snd (kv_link K r) = Up)"

lemma always_up_link: "always_up K \<Longrightarrow> \<exists>r0. kv_link K r = (r0, Up)"
  by (cases "kv_link K r") (metis always_up_def snd_conv)

lemma up_round_trip:
  assumes "kv_ok K V W" and "always_up K"
  obtains s0 where "V s0 = V s" "W s0 = W s" "kv_now K s \<le> kv_now K s0"
    "\<And>script :: 's \<Rightarrow> 's \<times> 'a option. round_trip K script s =
       (case script s0 of (s1, Some a) \<Rightarrow> (s1, Ok a) | (s1, None) \<Rightarrow> (s1, Err ()))"
proof -
  obtain s0 where l: "kv_link K s = (s0, Up)" using always_up_link [OF assms(2)] by blast
  with kv_okD(1) [OF assms(1), unfolded link_ok_def, THEN spec, of s]
  have "V s0 = V s" "W s0 = W s" "kv_now K s \<le> kv_now K s0" by simp_all
  with that [of s0] l show thesis by (simp add: round_trip_def)
qed

definition sample_kv :: "sample_store kv" where
  "sample_kv = \<lparr>
     kv_now = ss_now,
     kv_link = ss_link,
     kv_get = (\<lambda>s k. ss_live s (ss_strings s k)),
     kv_set = (\<lambda>s k v. s\<lparr>ss_strings := (ss_strings s)(k \<mapsto> (v, None))\<rparr>),
     kv_set_ex = (\<lambda>s k v n. s\<lparr>ss_strings := (ss_strings s)(k \<mapsto> (v, Some (ss_now s + n)))\<rparr>),
     kv_incr_by = ss_incr_by,
     kv_persist = (\<lambda>s k. s\<lparr>ss_strings := redeadline None k (ss_strings s),
                           ss_sets := redeadline None k (ss_sets s)\<rparr>),
     kv_del = (\<lambda>s k. s\<lparr>ss_strings := (ss_strings s)(k := None),
                       ss_sets := (ss_sets s)(k := None)\<rparr>),
     kv_expire = (\<lambda>s k n.
        if n < 2 ^ 53
        then Some (s\<lparr>ss_strings := redeadline (Some (ss_now s + n)) k (ss_strings s),
                      ss_sets := redeadline (Some (ss_now s + n)) k (ss_sets s)\<rparr>)
        else None),
     kv_members = ss_members,
     kv_sadd = (\<lambda>s k b. s\<lparr>ss_sets := (ss_sets s)
                   (k \<mapsto> (b # ss_members s k,
                          if ss_members s k = [] then None else snd (the (ss_sets s k))))\<rparr>)\<rparr>"

definition empty_store :: "nat \<Rightarrow> (nat \<times> link) list \<Rightarrow> sample_store" where
  "empty_store t ls = \<lparr>ss_now = t, ss_links = ls, ss_strings = Map.empty, ss_sets = Map.empty\<rparr>"

lemmas sample_kv_eval = sample_kv_def ss_link_def ss_live_def ss_incr_by_def ss_members_def
  redeadline_def empty_store_def

lemma unexpired_not_expired: "unexpired t d \<Longrightarrow> \<not> expired t d"
  by (cases d) auto

lemma sample_kv_ok: "kv_ok sample_kv ss_strings ss_set_view"
  unfolding kv_ok_def
proof (intro conjI)
  show "link_ok sample_kv ss_strings ss_set_view"
    by (auto simp: link_ok_def sample_kv_def ss_link_def ss_set_view_def fun_eq_iff
        split: list.splits)
  show "get_ok sample_kv ss_strings"
    by (auto simp: get_ok_def sample_kv_def ss_live_def unexpired_not_expired split: option.splits)
  show "set_ok sample_kv ss_strings ss_set_view"
    by (auto simp: set_ok_def sample_kv_def ss_set_view_def fun_eq_iff)
  show "incr_ok sample_kv ss_strings ss_set_view"
    by (auto simp: incr_ok_def sample_kv_def ss_incr_by_def ss_set_view_def fun_eq_iff
        split: option.splits if_splits)
  show "del_ok sample_kv ss_strings ss_set_view"
    by (auto simp: del_ok_def sample_kv_def ss_set_view_def fun_eq_iff)
  show "ttl_ok sample_kv ss_strings ss_set_view"
    by (auto simp: ttl_ok_def sample_kv_def ss_set_view_def redeadline_def fun_eq_iff
        option.map_comp comp_def split_beta)
  show "sets_ok sample_kv ss_strings ss_set_view"
    by (auto simp: sets_ok_def sample_kv_def ss_set_view_def ss_members_def ss_live_def
        unexpired_not_expired fun_eq_iff split: option.splits if_splits)
qed

end
