(* ===== verification/Token_Issuance.thy ===== *)
theory Token_Issuance
  imports Privacy_Pass Kv
begin

text \<open>
  Issuing Privacy Pass tokens: \<open>IdentityGrpcService::issue_tokens\<close> of
  \<open>identity-service/src/main.rs\<close> with the helpers that pick the hourly cap and size a grant, and the
  counter it reserves from (\<open>crates/construct-queue/src/rate_limiting.rs\<close>).

  The request's access token is checked elsewhere; the handler is given the outcome. The database
  query, the \<open>uuid\<close> crate and the clock are parameters; times are in nanoseconds, and the clock
  answers each of its readings in turn.
\<close>

section \<open>The cap and the grant\<close>

definition hours_ns :: "int \<Rightarrow> int" where
  "hours_ns h = h * 3600 * 1000000000"

definition effective_issuance_cap :: "int option \<Rightarrow> int \<Rightarrow> int \<Rightarrow> u32 \<Rightarrow> u32 \<Rightarrow> u32 \<times> bool" where
  "effective_issuance_cap registered_at now maturity_hours young_cap full_cap =
     (let mature = (case registered_at of None \<Rightarrow> False
                    | Some t \<Rightarrow> now - t \<ge> hours_ns maturity_hours)
      in if mature then (full_cap, True) else (min young_cap full_cap, False))"

definition saturating_sub :: "u32 \<Rightarrow> u32 \<Rightarrow> u32" where
  "saturating_sub a b = (if b \<le> a then a - b else 0)"

definition issuance_grant :: "u32 \<Rightarrow> u32 \<Rightarrow> u32 \<Rightarrow> u32" where
  "issuance_grant already wanted cap = min (saturating_sub cap already) wanted"

section \<open>The hourly counter\<close>

definition privacy_pass_hour_key :: "string \<Rightarrow> int \<Rightarrow> key" where
  "privacy_pass_hour_key user_id timestamp =
     ''rate:pp_tokens:'' @ user_id @ '':'' @ show_int (timestamp div 3600)"

text \<open>The reply is read as \<open>Option<u32>\<close>; a value that is not one is an error.\<close>

definition token_issuance_count ::
  "'s kv \<Rightarrow> string \<Rightarrow> int \<Rightarrow> 's \<Rightarrow> 's \<times> (unit, u32) result" where
  "token_issuance_count K user_id timestamp =
     round_trip K (\<lambda>s.
       (s, case kv_get K s (privacy_pass_hour_key user_id timestamp) of
             None \<Rightarrow> Some 0
           | Some v \<Rightarrow> map_option word_of_nat (parse_unsigned 32 v)))"

definition SECONDS_PER_HOUR :: nat where
  "SECONDS_PER_HOUR = 3600"

definition reserve_script :: "'s kv \<Rightarrow> key \<Rightarrow> u32 \<Rightarrow> u32 \<Rightarrow> 's \<Rightarrow> 's \<times> u32 option" where
  "reserve_script K k grant cap s =
     (case (case kv_get K s k of None \<Rightarrow> Some 0 | Some v \<Rightarrow> parse_i64 v) of
        None \<Rightarrow> (s, None)
      | Some current \<Rightarrow>
          (if uint grant \<le> 0 \<or> current + uint grant > uint cap then (s, Some 0)
           else case kv_incr_by K s k (uint grant) of
                  None \<Rightarrow> (s, None)
                | Some (s1, newcount) \<Rightarrow>
                    (if newcount = uint grant
                     then case kv_expire K s1 k SECONDS_PER_HOUR of
                            None \<Rightarrow> (s1, None) | Some s2 \<Rightarrow> (s2, Some grant)
                     else (s1, Some grant))))"

definition try_reserve_token_issuance ::
  "'s kv \<Rightarrow> string \<Rightarrow> int \<Rightarrow> u32 \<Rightarrow> u32 \<Rightarrow> 's \<Rightarrow> 's \<times> (unit, u32) result" where
  "try_reserve_token_issuance K user_id timestamp grant cap =
     round_trip K (reserve_script K (privacy_pass_hour_key user_id timestamp) grant cap)"

section \<open>The handler\<close>

datatype 'st issue_error =
    Unavailable string
  | Unauthenticated 'st
  | InvalidArgument string
  | ResourceExhausted string

record issue_tokens_response =
  evaluated_points :: "bytes list"
  server_pubkey :: bytes
  dleq_proof :: bytes
  issuer_key_version :: u32

record ('k, 'p) issuer =
  group :: "('k, 'p) ristretto"
  token_issuer_key :: "bytes option"
  token_issuer_key_version :: u32
  maturity_hours :: int
  young_max_per_hour :: u32
  max_per_hour :: u32
  is_uuid :: "string \<Rightarrow> bool"
  earliest_registration :: "string \<Rightarrow> (unit, int option) result"

text \<open>Every point is checked before anything is reserved.\<close>

definition decode_point ::
  "('k, 'p::zero) ristretto \<Rightarrow> bytes \<Rightarrow> ('st issue_error, 'p \<times> bytes) result" where
  "decode_point R raw =
     (if length raw \<noteq> 32 then Err (InvalidArgument ''each blinded point must be exactly 32 bytes'')
      else case decompress R raw of
             None \<Rightarrow> Err (InvalidArgument ''blinded point: not on ristretto255'')
           | Some point \<Rightarrow>
               if point = 0 then Err (InvalidArgument ''blinded point: identity point not allowed'')
               else Ok (point, raw))"

fun decode_points ::
  "('k, 'p::zero) ristretto \<Rightarrow> bytes list \<Rightarrow> ('st issue_error, ('p \<times> bytes) list) result" where
  "decode_points R [] = Ok []"
| "decode_points R (raw # rest) =
     (case decode_point R raw of
        Err e \<Rightarrow> Err e
      | Ok p \<Rightarrow> (case decode_points R rest of Err e \<Rightarrow> Err e | Ok ps \<Rightarrow> Ok (p # ps)))"

text \<open>
  The reservation: read the counter, size the grant, compare and swap. A lost race is tried
  again, three times in all.
\<close>

fun reserve_attempts ::
  "'s kv \<Rightarrow> (nat \<Rightarrow> int) \<Rightarrow> string \<Rightarrow> u32 \<Rightarrow> u32 \<Rightarrow> nat \<Rightarrow> nat \<Rightarrow> 's
     \<Rightarrow> 's \<times> ('st issue_error, u32) result" where
  "reserve_attempts K clock user_id wanted cap attempt 0 s = (s, Ok 0)"
| "reserve_attempts K clock user_id wanted cap attempt (Suc left) s =
     (case token_issuance_count K user_id (clock (2 * attempt)) s of
        (s1, Err _) \<Rightarrow> (s1, Err (ResourceExhausted ''rate limit error''))
      | (s1, Ok already) \<Rightarrow>
          (let grant = issuance_grant already wanted cap in
           if grant = 0 then (s1, Ok 0)
           else case try_reserve_token_issuance K user_id (clock (2 * attempt + 1)) grant cap s1 of
                  (s2, Err _) \<Rightarrow> (s2, Err (ResourceExhausted ''rate limit error''))
                | (s2, Ok got) \<Rightarrow>
                    if got > 0 then (s2, Ok got)
                    else reserve_attempts K clock user_id wanted cap (attempt + 1) left s2))"

definition registered_at :: "('k, 'p) issuer \<Rightarrow> string \<Rightarrow> int option" where
  "registered_at I user_id =
     (if is_uuid I user_id
      then case earliest_registration I user_id of Err _ \<Rightarrow> None | Ok t \<Rightarrow> t
      else None)"

definition issue_tokens ::
  "('k::comm_ring_1, 'p::ab_group_add) issuer \<Rightarrow> 's kv \<Rightarrow> int \<Rightarrow> (nat \<Rightarrow> int)
     \<Rightarrow> ('st, string) result \<Rightarrow> bytes list \<Rightarrow> 's
     \<Rightarrow> 's \<times> ('st issue_error, issue_tokens_response) result" where
  "issue_tokens I K now clock access blinded_points s =
     (case token_issuer_key I of
        None \<Rightarrow> (s, Err (Unavailable ''privacy pass: token issuance not configured''))
      | Some k_bytes \<Rightarrow>
     (case access of
        Err e \<Rightarrow> (s, Err (Unauthenticated e))
      | Ok user_id \<Rightarrow>
     (if blinded_points = [] \<or> length blinded_points > 20
      then (s, Err (InvalidArgument ''blinded_points: must have 1-20 entries''))
      else
        let (effective_cap, mature) =
              effective_issuance_cap (registered_at I user_id) now (maturity_hours I)
                (young_max_per_hour I) (max_per_hour I)
        in case decode_points (group I) blinded_points of
             Err e \<Rightarrow> (s, Err e)
           | Ok decoded_all \<Rightarrow>
     (case reserve_attempts K clock user_id (word_of_nat (length decoded_all)) effective_cap 0 3 s of
        (s1, Err e) \<Rightarrow> (s1, Err e)
      | (s1, Ok grant) \<Rightarrow>
     (if grant = 0 then
        (s1, Err (ResourceExhausted (''token issuance rate limit exceeded ('' @
               show_nat (unat effective_cap) @ ''/hr'' @
               (if mature then '''' else '', new-account tier'') @ '')'')))
      else
        let decoded = take (unat grant) decoded_all;
            evaluated = evaluate_points (group I) k_bytes (map fst decoded);
            blinded32 = map snd decoded
        in (s1, Ok \<lparr>
              evaluated_points = evaluated,
              server_pubkey = issuer_public_key (group I) k_bytes,
              dleq_proof = (case generate_dleq_proof (group I) k_bytes blinded32 evaluated of
                              Some pf \<Rightarrow> pf | None \<Rightarrow> []),
              issuer_key_version = token_issuer_key_version I\<rparr>))))))"

section \<open>The answer to a batch\<close>

lemma decode_points_decoded:
  "decode_points R raws = (Ok ds :: ('st issue_error, _) result) \<Longrightarrow> decoded_points R raws (map fst ds) \<and> map snd ds = raws"
proof (induction raws arbitrary: ds)
  case (Cons raw raws)
  then obtain p ps where p: "decode_point R raw = (Ok p :: ('st issue_error, _) result)"
      and ps: "decode_points R raws = (Ok ps :: ('st issue_error, _) result)" and ds: "ds = p # ps"
    by (auto split: sum.splits)
  from p have "decompress_nonidentity R raw = Some (fst p)" "snd p = raw"
    by (auto simp: decode_point_def decompress_nonidentity_def split: if_splits option.splits)
  with Cons.IH [OF ps] ds show ?case by (simp add: decoded_points_def)
qed (simp add: decoded_points_def)

lemma reserve_script_grant:
  "reserve_script K k grant cap s = (s', Some got) \<Longrightarrow> got = 0 \<or> got = grant"
  by (auto simp: reserve_script_def split: option.splits if_splits)

lemma try_reserve_grant:
  "try_reserve_token_issuance K u t grant cap s = (s', Ok got) \<Longrightarrow> got = 0 \<or> got = grant"
  by (auto simp: try_reserve_token_issuance_def round_trip_def dest: reserve_script_grant
      split: prod.splits link.splits option.splits)

lemma reserve_attempts_grant:
  "reserve_attempts K clock u wanted cap j left s = (s', Ok got :: ('st issue_error, _) result) \<Longrightarrow> got \<le> wanted"
proof (induction left arbitrary: j s)
  case (Suc left)
  obtain s1 r where cnt: "token_issuance_count K u (clock (2 * j)) s = (s1, r)" by fastforce
  with Suc.prems obtain already where r: "r = Ok already" by (cases r) auto
  define g where "g = issuance_grant already wanted cap"
  have g: "g \<le> wanted" by (simp add: g_def issuance_grant_def)
  show ?case
  proof (cases "g = 0")
    case True
    with Suc.prems cnt r show ?thesis by (simp add: g_def)
  next
    case False
    obtain s2 q where res: "try_reserve_token_issuance K u (clock (2 * j + 1)) g cap s1 = (s2, q)"
      by fastforce
    with Suc.prems cnt r False obtain got' where q: "q = Ok got'"
      by (cases q) (auto simp: Let_def simp flip: g_def)
    show ?thesis
    proof (cases "got' > 0")
      case True
      with Suc.prems cnt r False res q have "got = got'" by (simp add: Let_def flip: g_def)
      with try_reserve_grant [OF res [unfolded q]] g True show ?thesis by auto
    next
      case no: False
      with Suc.prems cnt r False res q
      have "reserve_attempts K clock u wanted cap (j + 1) left s2 = (s', Ok got :: ('st issue_error, _) result)"
        by (simp add: Let_def flip: g_def)
      with Suc.IH show ?thesis by blast
    qed
  qed
qed simp

lemma issue_tokens_answer:
  fixes access :: "('st, string) result"
  assumes "issue_tokens I K now clock access bps s = (s', Ok resp)"
  obtains kb u ds and g :: u32 where "token_issuer_key I = Some kb" "access = Ok u"
    "bps \<noteq> []" "length bps \<le> 20"
    "decoded_points (group I) bps (map fst ds)" "map snd ds = bps"
    "0 < g" "unat g \<le> length ds"
    "evaluated_points resp = evaluate_points (group I) kb (map fst (take (unat g) ds))"
    "server_pubkey resp = issuer_public_key (group I) kb"
    "dleq_proof resp = (case generate_dleq_proof (group I) kb (take (unat g) bps)
       (evaluate_points (group I) kb (map fst (take (unat g) ds))) of Some pf \<Rightarrow> pf | None \<Rightarrow> [])"
proof -
  obtain cap mature where cap: "effective_issuance_cap (registered_at I (projr access)) now
      (maturity_hours I) (young_max_per_hour I) (max_per_hour I) = (cap, mature)" by fastforce
  from assms obtain kb where kb: "token_issuer_key I = Some kb"
    by (auto simp: issue_tokens_def split: option.splits)
  from assms kb obtain u where u: "access = Ok u"
    by (auto simp: issue_tokens_def split: sum.splits)
  from assms kb u have len: "bps \<noteq> []" "length bps \<le> 20"
    by (auto simp: issue_tokens_def split: if_splits)
  from assms kb u len cap obtain ds where
      ds: "decode_points (group I) bps = (Ok ds :: ('st issue_error, _) result)"
    by (auto simp: issue_tokens_def split: sum.splits if_splits)
  note dec = decode_points_decoded [OF ds]
  obtain s1 r where res: "reserve_attempts K clock u (word_of_nat (length ds)) cap 0 3 s
      = (s1, r :: ('st issue_error, _) result)" by fastforce
  from assms kb u len cap ds res obtain g where r: "r = Ok g" and g: "g \<noteq> 0"
    by (auto simp: issue_tokens_def split: sum.splits if_splits)
  from dec have "length ds = length bps" by (metis length_map)
  with reserve_attempts_grant [OF res [unfolded r]] len have "unat g \<le> length ds"
    by (simp add: word_le_nat_alt unsigned_of_nat take_bit_eq_mod)
  with that [of kb u ds g] assms kb u len cap ds res r g dec show thesis
    by (auto simp: issue_tokens_def word_neq_0_conv take_map [symmetric] Let_def
        split: if_splits)
qed

lemma decoded_points_take:
  "decoded_points R raws points \<Longrightarrow> decoded_points R (take n raws) (take n points)"
  by (simp add: decoded_points_def flip: take_map)

lemma decoded_points_nth:
  assumes R: "ristretto_ok R" and "decoded_points R raws points" and "i < length points"
    and "raws ! i = compress R p"
  shows "points ! i = p"
proof -
  from assms(2) have "length raws = length points" unfolding decoded_points_def by (metis length_map)
  with assms(2,3) have "decompress_nonidentity R (raws ! i) = Some (points ! i)"
    unfolding decoded_points_def by (metis nth_map)
  with assms(4) show ?thesis
    by (auto simp: decompress_nonidentity_def ristretto_okD(4) [OF R] split: if_splits)
qed

text \<open>
  C6. A batch of blinded points that the issuer answers is answered for a non-empty prefix of the
  request; the proof it carries verifies against the published commitment for exactly that prefix;
  and for every point that a client blinded honestly, removing the blinding from the answer gives a
  token that the redeeming service accepts for the client's nonce. The issuer's scalar must not be
  zero.
\<close>

theorem issued_batch_redeems:
  assumes "ristretto_ok (group I)" and "issue_tokens I K now clock access bps s = (s', Ok resp)"
    and "token_issuer_key I = Some kb" and "from_bytes_mod_order (group I) kb \<noteq> 0"
  shows "evaluated_points resp \<noteq> [] \<and> length (evaluated_points resp) \<le> length bps \<and>
    server_pubkey resp = issuer_public_key (group I) kb \<and>
    verify_dleq_proof (group I) (server_pubkey resp)
      (take (length (evaluated_points resp)) bps) (evaluated_points resp) (dleq_proof resp) \<and>
    (\<forall>i < length (evaluated_points resp). \<forall>nonce r rinv.
       rinv * r = 1 \<and>
       bps ! i = compress (group I) (point_mul (group I) r (hash_to_ristretto (group I) nonce)) \<longrightarrow>
       (\<exists>z. decompress (group I) (evaluated_points resp ! i) = Some z \<and>
          verify_token (group I)
            (derive_token (group I) (compress (group I) (point_mul (group I) rinv z)) nonce)
            nonce kb))"
proof -
  let ?R = "group I"
  note R = assms(1)
  obtain ds and g :: u32 where ds: "decoded_points ?R bps (map fst ds)" "map snd ds = bps"
      and g: "0 < g" "unat g \<le> length ds"
      and ev: "evaluated_points resp = evaluate_points ?R kb (map fst (take (unat g) ds))"
      and pub: "server_pubkey resp = issuer_public_key ?R kb"
      and pf: "dleq_proof resp = (case generate_dleq_proof ?R kb (take (unat g) bps)
        (evaluate_points ?R kb (map fst (take (unat g) ds))) of Some pf \<Rightarrow> pf | None \<Rightarrow> [])"
    using issue_tokens_answer [OF assms(2)] assms(3) by (metis option.inject)
  define pts where "pts = map fst (take (unat g) ds)"
  have len: "length (evaluated_points resp) = unat g" "length pts = unat g"
    using g(2) by (simp_all add: ev evaluate_points_def pts_def)
  from g(1) have pos: "0 < unat g" by (simp add: word_less_nat_alt)
  have dec: "decoded_points ?R (take (unat g) bps) pts"
    using decoded_points_take [OF ds(1)] by (simp add: pts_def take_map)
  have "pts \<noteq> []" using len(2) pos by auto
  from honest_proof_accepted [OF R assms(4) dec this]
  have proof_ok: "verify_dleq_proof ?R (server_pubkey resp) (take (unat g) bps)
      (evaluated_points resp) (dleq_proof resp)"
    by (auto simp: ev pub pf simp flip: pts_def)
  have redeem: "\<exists>z. decompress ?R (evaluated_points resp ! i) = Some z \<and> verify_token ?R
      (derive_token ?R (compress ?R (point_mul ?R rinv z)) nonce) nonce kb"
    if "i < unat g" "rinv * r = 1"
      "bps ! i = compress ?R (point_mul ?R r (hash_to_ristretto ?R nonce))" for i nonce r rinv
  proof -
    let ?B = "point_mul ?R r (hash_to_ristretto ?R nonce)"
    have "pts ! i = ?B"
      using decoded_points_nth [OF R dec] that(1,3) len(2) by simp
    then have "decompress ?R (evaluated_points resp ! i)
        = Some (point_mul ?R (from_bytes_mod_order ?R kb) ?B)"
      using that(1) len(2)
      by (simp add: ev evaluate_points_def ristretto_okD(4) [OF R] flip: pts_def)
    with unblinded_token_verifies [OF R that(2)] show ?thesis by blast
  qed
  have "unat g \<le> length bps" using g(2) ds(2) by (metis length_map)
  with pos len(1) pub proof_ok redeem show ?thesis by auto
qed

definition sample_issuer :: "(3, 3) issuer" where
  "sample_issuer = \<lparr>group = sample_ristretto, token_issuer_key = Some [2],
     token_issuer_key_version = 1, maturity_hours = 24, young_max_per_hour = 2, max_per_hour = 4,
     is_uuid = (\<lambda>_. True), earliest_registration = (\<lambda>_. Ok (Some 0))\<rparr>"

theorem issued_batch_redeems_witness:
  "\<exists>resp. snd (issue_tokens sample_issuer sample_kv 0 (\<lambda>_. 0) (Ok ''u'' :: (unit, string) result)
        [sample_code 2, sample_code 2, sample_code 2] (empty_store 0 [])) = Ok resp \<and>
     length (evaluated_points resp) = 2 \<and>
     verify_dleq_proof sample_ristretto (server_pubkey resp) [sample_code 2, sample_code 2]
       (evaluated_points resp) (dleq_proof resp)"
proof -
  let ?run = "issue_tokens sample_issuer sample_kv 0 (\<lambda>_. 0) (Ok ''u'' :: (unit, string) result)
        [sample_code 2, sample_code 2, sample_code 2] (empty_store 0 [])"
  have dec: "length (sample_code 2) = 32" by (simp add: sample_code_def)
  obtain resp where resp: "snd ?run = Ok resp" and len: "length (evaluated_points resp) = 2"
    by (simp add: issue_tokens_def sample_issuer_def sample_ristretto_def decode_point_def dec
        sample_decode_code         effective_issuance_cap_def registered_at_def hours_ns_def numeral_3_eq_3
        token_issuance_count_def try_reserve_token_issuance_def round_trip_def reserve_script_def
        sample_kv_eval issuance_grant_def saturating_sub_def evaluate_points_def Let_def
        SECONDS_PER_HOUR_def)
  have "ristretto_ok (group sample_issuer)" "token_issuer_key sample_issuer = Some [2]"
    "from_bytes_mod_order (group sample_issuer) [2] \<noteq> 0" "group sample_issuer = sample_ristretto"
    using sample_ristretto_ok by (simp_all add: sample_issuer_def sample_ristretto_def)
  from issued_batch_redeems [OF this(1) _ this(2,3), of sample_kv 0 "\<lambda>_. 0"
      "Ok ''u'' :: (unit, string) result" "[sample_code 2, sample_code 2, sample_code 2]"
      "empty_store 0 []" "fst ?run" resp] this(4) resp len
  show ?thesis by (metis numeral_2_eq_2 prod.collapse take0 take_Suc_Cons)
qed

section \<open>The hourly cap\<close>

lemma colon_not_in_show_nat: "CHR '':'' \<notin> set (show_nat n)"
proof
  assume "CHR '':'' \<in> set (show_nat n)"
  then obtain d where "d < 10" "CHR '':'' = digit_char d" using show_nat_digits by blast
  then have "digit_val (CHR '':'') = Some d" by simp
  then show False by (simp add: digit_val_def)
qed

lemma colon_not_in_show_int: "CHR '':'' \<notin> set (show_int i)"
  using colon_not_in_show_nat by (simp add: show_int_def)

lemma split_last_eq:
  fixes c :: char
  assumes "c \<notin> set r" "c \<notin> set r'" and "l @ c # r = l' @ c # r'"
  shows "l = l' \<and> r = r'"
proof -
  from assms(3) have "rev (l @ c # r) = rev (l' @ c # r')" by (rule arg_cong)
  then have "split_once c (rev r @ c # rev l) = split_once c (rev r' @ c # rev l')" by simp
  with assms(1,2) show ?thesis by simp
qed

lemma hour_key_inj:
  "privacy_pass_hour_key u t = privacy_pass_hour_key u' t' \<longleftrightarrow> u = u' \<and> t div 3600 = t' div 3600"
proof
  assume "privacy_pass_hour_key u t = privacy_pass_hour_key u' t'"
  then have "u @ CHR '':'' # show_int (t div 3600) = u' @ CHR '':'' # show_int (t' div 3600)"
    by (simp add: privacy_pass_hour_key_def)
  from split_last_eq [OF colon_not_in_show_int colon_not_in_show_int this]
  show "u = u' \<and> t div 3600 = t' div 3600" by simp
qed (auto simp: privacy_pass_hour_key_def)

text \<open>
  The counter of a user and an hour holds at least what was issued, never more than the cap, and
  does not expire within an hour of the start.
\<close>

definition counter_covers ::
  "'s kv \<Rightarrow> ('s \<Rightarrow> string view) \<Rightarrow> key \<Rightarrow> nat \<Rightarrow> nat \<Rightarrow> nat \<Rightarrow> 's \<Rightarrow> bool" where
  "counter_covers K V k t0 cap n s \<longleftrightarrow>
     t0 \<le> kv_now K s \<and>
     (V s k = None \<and> n = 0 \<or>
      (\<exists>m d. V s k = Some (show_int (int m), d) \<and> n \<le> m \<and> m \<le> cap \<and>
             (\<forall>x. d = Some x \<longrightarrow> t0 + SECONDS_PER_HOUR \<le> x)))"

lemma counter_covers_view:
  "counter_covers K V k t0 cap n s \<Longrightarrow> V s' k = V s k \<Longrightarrow> kv_now K s \<le> kv_now K s' \<Longrightarrow>
     counter_covers K V k t0 cap n s'"
  by (auto simp: counter_covers_def)

lemma counter_covers_mono:
  "counter_covers K V k t0 cap n s \<Longrightarrow> n' \<le> n \<Longrightarrow> counter_covers K V k t0 cap n' s"
  by (fastforce simp: counter_covers_def)

lemma reserve_script_views:
  assumes K: "kv_ok K V W" and "reserve_script K k grant cap s = (s', r)"
  shows "kv_now K s' = kv_now K s \<and> (\<forall>k'. k' \<noteq> k \<longrightarrow> V s' k' = V s k')"
proof (cases "kv_incr_by K s k (uint grant)")
  case None
  with assms(2) have "s' = s" by (auto simp: reserve_script_def split: option.splits if_splits)
  then show ?thesis by simp
next
  case (Some p)
  obtain s1 m where p: "p = (s1, m)" by fastforce
  with assms(2) Some consider "s' = s" | "s' = s1" | "kv_expire K s1 k SECONDS_PER_HOUR = Some s'"
    by (auto simp: reserve_script_def split: option.splits if_splits)
  then show ?thesis
    by cases (use incr_views [OF K Some [unfolded p]] expire_views [OF K] in auto)
qed

lemma reserve_script_covers:
  assumes K: "kv_ok K V W" and cov: "counter_covers K V k t0 M n s"
    and now: "kv_now K s < t0 + SECONDS_PER_HOUR" and cap: "unat cap \<le> M" "M < 2 ^ 32"
    and run: "reserve_script K k grant cap s = (s', r)"
  shows "counter_covers K V k t0 M (n + (case r of None \<Rightarrow> 0 | Some g \<Rightarrow> unat g)) s'"
proof -
  from cov consider (absent) "V s k = None" "n = 0"
    | (live) m d where "V s k = Some (show_int (int m), d)" "n \<le> m" "m \<le> M"
        "\<forall>x. d = Some x \<longrightarrow> t0 + SECONDS_PER_HOUR \<le> x"
    by (auto simp: counter_covers_def)
  then show ?thesis
  proof cases
    case absent
    note get = get_absent [OF K absent(1)]
    show ?thesis
    proof (cases "uint grant \<le> 0 \<or> uint grant > uint cap")
      case True
      with run get cov show ?thesis by (auto simp: reserve_script_def)
    next
      case False
      then obtain s1 where s1: "kv_incr_by K s k (uint grant) = Some (s1, uint grant)"
          "V s1 = (V s)(k \<mapsto> (show_int (uint grant), None))" "kv_now K s1 = kv_now K s"
        by (cases rule: incr_cases [OF K, of s k "uint grant"]) (use get in auto)
      from False have "uint grant \<le> uint cap" by simp
      then have "unat grant \<le> M" using cap(1)
        by (metis le_trans word_le_def word_le_nat_alt)
      moreover obtain s2 where s2: "kv_expire K s1 k SECONDS_PER_HOUR = Some s2"
        using expire_runs [OF K, of SECONDS_PER_HOUR s1 k] by (auto simp: SECONDS_PER_HOUR_def)
      moreover from False s1 run get s2 have "r = Some grant" "s' = s2"
        by (simp_all add: reserve_script_def)
      ultimately show ?thesis using s1 cov absent(2) expire_views [OF K s2]
        by (auto simp: counter_covers_def intro!: exI [of _ "unat grant"])
    qed
  next
    case live
    with now have "unexpired (kv_now K s) d" by (cases d) auto
    with get_unexpired [OF K live(1)] have get: "kv_get K s k = Some (show_int (int m))" by simp
    have num: "parse_i64 (show_int (int m)) = Some (int m)"
      using live(3) cap(2) by (intro parse_i64_show_int) auto
    show ?thesis
    proof (cases "uint grant \<le> 0 \<or> int m + uint grant > uint cap")
      case True
      with run have "s' = s \<and> r = Some 0"
        by (simp only: reserve_script_def get num option.case if_True prod.inject)
      with cov show ?thesis by simp
    next
      case False
      have "int (unat cap) \<le> int M" using cap(1) by (simp only: of_nat_le_iff)
      with False have sum: "int m + uint grant \<le> int M" by simp
      moreover have "int M < 2 ^ 63" using cap(2) by simp
      ultimately have "int m + uint grant < 2 ^ 63" by linarith
      moreover have "- (2 ^ 63) \<le> int m + uint grant" by (rule order_trans [of _ 0]) simp_all
      ultimately obtain s1 where s1: "kv_incr_by K s k (uint grant) = Some (s1, int m + uint grant)"
          "V s1 = (V s)(k \<mapsto> (show_int (int m + uint grant), d))" "kv_now K s1 = kv_now K s"
        by (cases rule: incr_cases [OF K, of s k "uint grant"]) (use get num live(1) in auto)
      define N where "N = m + unat grant"
      have N: "int m + uint grant = int N" by (simp add: N_def)
      with sum have "N \<le> M" by simp
      obtain s2 where s2: "kv_expire K s1 k SECONDS_PER_HOUR = Some s2"
        using expire_runs [OF K, of SECONDS_PER_HOUR s1 k] by (auto simp: SECONDS_PER_HOUR_def)
      from run have r: "r = Some grant" and s': "s' = s1 \<or> s' = s2"
        by (auto simp only: reserve_script_def get num option.case s1(1) s2 False if_False prod.case
            prod.inject split: if_splits)
      have v1: "V s1 k = Some (show_int (int N), d)" using s1(2) N by simp
      have "n + unat grant \<le> N" using live(2) by (simp add: N_def)
      with s' r v1 s1(3) \<open>N \<le> M\<close> live(4) cov expire_views [OF K s2] show ?thesis
        by (auto simp: counter_covers_def)
    qed
  qed
qed

definition granted :: "('e, u32) result \<Rightarrow> nat" where
  "granted r = (case r of Err _ \<Rightarrow> 0 | Ok g \<Rightarrow> unat g)"

lemma count_views:
  assumes "kv_ok K V W" and "token_issuance_count K u t s = (s', r)"
  shows "V s' = V s \<and> kv_now K s \<le> kv_now K s'"
  by (rule round_trip_cases [OF assms(1) assms(2) [unfolded token_issuance_count_def]]) auto

lemma try_reserve_covers:
  assumes K: "kv_ok K V W" and M: "M < 2 ^ 32" "unat cap \<le> M"
    and cov: "counter_covers K V (privacy_pass_hour_key u t) t0 M n s"
    and run: "try_reserve_token_issuance K u' t' grant cap s = (s', r)"
    and now: "kv_now K s' < t0 + SECONDS_PER_HOUR"
  shows "kv_now K s \<le> kv_now K s' \<and>
    counter_covers K V (privacy_pass_hour_key u t) t0 M
      (n + (if u' = u \<and> t' div 3600 = t div 3600 then granted r else 0)) s'"
proof -
  let ?k = "privacy_pass_hour_key u t" and ?k' = "privacy_pass_hour_key u' t'"
  have step: "kv_now K s \<le> kv_now K s1 \<and> counter_covers K V ?k t0 M
      (n + (if u' = u \<and> t' div 3600 = t div 3600 then granted r' else 0)) s1"
    if s0: "V s0 = V s" "kv_now K s \<le> kv_now K s0" and sc: "reserve_script K ?k' grant cap s0 = (s1, q)"
      and "s1 = s'" and r': "granted r' \<le> (case q of None \<Rightarrow> 0 | Some g \<Rightarrow> unat g)" for s0 s1 q
      and r' :: "(unit, u32) result"
  proof -
    note views = reserve_script_views [OF K sc]
    have cov0: "counter_covers K V ?k t0 M n s0" using counter_covers_view [OF cov] s0 by simp
    show ?thesis
    proof (cases "u' = u \<and> t' div 3600 = t div 3600")
      case True
      then have "?k' = ?k" by (simp add: hour_key_inj)
      with reserve_script_covers [OF K cov0 _ M(2,1), of grant s1 q] sc views now \<open>s1 = s'\<close>
      have "counter_covers K V ?k t0 M (n + (case q of None \<Rightarrow> 0 | Some g \<Rightarrow> unat g)) s1" by simp
      from counter_covers_mono [OF this, of "n + granted r'"] r' True views s0(2) show ?thesis by simp
    next
      case False
      then have "?k \<noteq> ?k'" by (auto simp: hour_key_inj)
      with views have "counter_covers K V ?k t0 M n s1"
        by (intro counter_covers_view [OF cov0]) simp_all
      with False views s0(2) show ?thesis by auto
    qed
  qed
  show ?thesis
  proof (rule round_trip_cases [OF K run [unfolded try_reserve_token_issuance_def]])
    assume "r = Err ()" "V s' = V s" "kv_now K s \<le> kv_now K s'"
    then show ?thesis using counter_covers_view [OF cov] by (simp add: granted_def)
  next
    fix s0
    assume "V s0 = V s" "kv_now K s \<le> kv_now K s0" "r = Err ()"
      "s' = fst (reserve_script K ?k' grant cap s0)"
    then show ?thesis
      using step [of s0 s' "snd (reserve_script K ?k' grant cap s0)" r] by (simp add: granted_def)
  next
    fix s0 a
    assume "V s0 = V s" "kv_now K s \<le> kv_now K s0" "r = Ok a"
      "reserve_script K ?k' grant cap s0 = (s', Some a)"
    then show ?thesis using step [of s0 s' "Some a" r] by (simp add: granted_def)
  qed
qed

lemma try_reserve_now:
  assumes K: "kv_ok K V W" and "try_reserve_token_issuance K u t grant cap s = (s', r)"
  shows "kv_now K s \<le> kv_now K s'"
proof (rule round_trip_cases [OF K assms(2) [unfolded try_reserve_token_issuance_def]])
  let ?k = "privacy_pass_hour_key u t"
  fix s0
  assume "kv_now K s \<le> kv_now K s0" "s' = fst (reserve_script K ?k grant cap s0)"
  with reserve_script_views [OF K prod.collapse [symmetric], of ?k grant cap s0]
  show ?thesis by simp
qed (use reserve_script_views [OF K] in auto)

lemma reserve_attempts_now:
  assumes K: "kv_ok K V W" and "reserve_attempts K clock u wanted cap j left s = (s', r)"
  shows "kv_now K s \<le> kv_now K s'"
  using assms(2)
proof (induction left arbitrary: j s)
  case (Suc left)
  obtain s1 c where cnt: "token_issuance_count K u (clock (2 * j)) s = (s1, c)" by fastforce
  define g where "g = issuance_grant (projr c) wanted cap"
  obtain s2 q where res: "try_reserve_token_issuance K u (clock (2 * j + 1)) g cap s1 = (s2, q)"
    by fastforce
  from Suc.prems cnt res
  have "s' = s1 \<or> s' = s2 \<or> reserve_attempts K clock u wanted cap (j + 1) left s2 = (s', r)"
    by (auto simp: g_def Let_def split: sum.splits if_splits)
  with count_views [OF K cnt] try_reserve_now [OF K res] Suc.IH [of "j + 1" s2] show ?case
    by fastforce
qed simp

lemma reserve_attempts_covers:
  assumes K: "kv_ok K V W" and M: "M < 2 ^ 32" "unat cap \<le> M"
    and hour: "\<forall>i. clock i div 3600 = t div 3600"
    and "counter_covers K V (privacy_pass_hour_key u t) t0 M n s"
    and "reserve_attempts K clock u' wanted cap j left s = (s', r)"
    and "kv_now K s' < t0 + SECONDS_PER_HOUR"
  shows "kv_now K s \<le> kv_now K s' \<and>
    counter_covers K V (privacy_pass_hour_key u t) t0 M (n + (if u' = u then granted r else 0)) s'"
  using assms(5-)
proof (induction left arbitrary: j s)
  case 0
  then show ?case by (auto simp: granted_def)
next
  case (Suc left)
  let ?cov = "counter_covers K V (privacy_pass_hour_key u t) t0 M"
  obtain s1 c where cnt: "token_issuance_count K u' (clock (2 * j)) s = (s1, c)" by fastforce
  note v1 = count_views [OF K cnt]
  have cov1: "?cov n s1" using counter_covers_view [OF Suc.prems(1)] v1 by simp
  show ?case
  proof (cases "\<exists>already. c = Ok already \<and> issuance_grant already wanted cap \<noteq> 0")
    case False
    with Suc.prems(2) cnt have "s' = s1" "granted r = 0"
      by (auto simp: granted_def Let_def split: sum.splits)
    with cov1 v1 show ?thesis by auto
  next
    case True
    then obtain already where c: "c = Ok already" by blast
    define g where "g = issuance_grant already wanted cap"
    obtain s2 q where res: "try_reserve_token_issuance K u' (clock (2 * j + 1)) g cap s1 = (s2, q)"
      by fastforce
    from True c have "g \<noteq> 0" by (simp add: g_def)
    with Suc.prems(2) cnt c res have run: "(case q of Err _ \<Rightarrow> (s2, Err (ResourceExhausted ''rate limit error''))
        | Ok got \<Rightarrow> if got > 0 then (s2, Ok got)
            else reserve_attempts K clock u' wanted cap (j + 1) left s2) = (s', r)"
      by (simp add: Let_def flip: g_def)
    note tr = try_reserve_covers [OF K M cov1 res]
    show ?thesis
    proof (cases "\<exists>got. q = Ok got \<and> \<not> got > 0")
      case True
      with run have rest: "reserve_attempts K clock u' wanted cap (j + 1) left s2 = (s', r)"
        and q: "granted q = 0" by (auto simp: granted_def word_gt_0)
      from reserve_attempts_now [OF K rest] Suc.prems(3)
      have "kv_now K s2 < t0 + SECONDS_PER_HOUR" by simp
      from tr [OF this] q have cov2: "?cov n s2" "kv_now K s1 \<le> kv_now K s2"
        by (simp_all split: if_splits)
      from Suc.IH [OF cov2(1) rest Suc.prems(3)] cov2(2) v1 show ?thesis by simp
    next
      case False
      with run have "s' = s2" "granted r = granted q"
        by (auto simp: granted_def split: sum.splits)
      with tr Suc.prems(3) hour v1 show ?thesis by auto
    qed
  qed
qed

text \<open>A history of requests, each with the clock its handler reads.\<close>

record 'st issue_request =
  rq_now :: int
  rq_clock :: "nat \<Rightarrow> int"
  rq_access :: "('st, string) result"
  rq_points :: "bytes list"

fun issue_all ::
  "('k::comm_ring_1, 'p::ab_group_add) issuer \<Rightarrow> 's kv \<Rightarrow> 'st issue_request list \<Rightarrow> 's
     \<Rightarrow> 's \<times> (('st, string) result \<times> ('st issue_error, issue_tokens_response) result) list" where
  "issue_all I K [] s = (s, [])"
| "issue_all I K (q # qs) s =
     (let (s1, r) = issue_tokens I K (rq_now q) (rq_clock q) (rq_access q) (rq_points q) s;
          (s2, rs) = issue_all I K qs s1
      in (s2, (rq_access q, r) # rs))"

fun issued_to ::
  "string \<Rightarrow> (('st, string) result \<times> ('st issue_error, issue_tokens_response) result) list \<Rightarrow> nat"
where
  "issued_to u [] = 0"
| "issued_to u ((a, r) # rest) =
     (case r of Err _ \<Rightarrow> 0 | Ok resp \<Rightarrow> if a = Ok u then length (evaluated_points resp) else 0) +
     issued_to u rest"

lemma issue_tokens_reserves:
  fixes access :: "('st, string) result"
  assumes "issue_tokens I K now clock access bps s = (s', r)"
  shows "(s' = s \<and> (\<exists>e. r = Err e)) \<or>
    (\<exists>u wanted cap q. access = Ok u \<and> unat cap \<le> unat (max_per_hour I) \<and>
       reserve_attempts K clock u wanted cap 0 3 s = (s', q :: ('st issue_error, u32) result) \<and>
       (\<forall>resp. r = Ok resp \<longrightarrow> length (evaluated_points resp) \<le> granted q))"
proof (cases "\<exists>kb u ds. token_issuer_key I = Some kb \<and> access = Ok u \<and> bps \<noteq> [] \<and>
    length bps \<le> 20 \<and> decode_points (group I) bps = (Ok ds :: ('st issue_error, _) result)")
  case False
  obtain cap mature where "effective_issuance_cap (registered_at I (projr access)) now
      (maturity_hours I) (young_max_per_hour I) (max_per_hour I) = (cap, mature)" by fastforce
  with False assms show ?thesis
    by (auto simp: issue_tokens_def split: option.splits sum.splits if_splits)
next
  case True
  then obtain kb u ds where ok: "token_issuer_key I = Some kb" "access = Ok u" "bps \<noteq> []"
      "length bps \<le> 20" "decode_points (group I) bps = (Ok ds :: ('st issue_error, _) result)"
    by blast
  obtain cap mature where cap: "effective_issuance_cap (registered_at I u) now
      (maturity_hours I) (young_max_per_hour I) (max_per_hour I) = (cap, mature)" by fastforce
  then have "cap \<le> max_per_hour I"
    by (auto simp: effective_issuance_cap_def Let_def split: if_splits)
  moreover obtain s1 q where res: "reserve_attempts K clock u (word_of_nat (length ds)) cap 0 3 s
      = (s1, q :: ('st issue_error, u32) result)" by fastforce
  moreover from assms ok cap res have "s' = s1"
    by (auto simp: issue_tokens_def Let_def split: sum.splits if_splits)
  moreover from assms ok cap res have "length (evaluated_points resp) \<le> granted q"
    if "r = Ok resp" for resp
    using that
    by (auto simp: issue_tokens_def granted_def evaluate_points_def Let_def
        split: sum.splits if_splits)
  ultimately show ?thesis using ok(2)
    by (intro disjI2 exI [of _ u] exI [of _ "word_of_nat (length ds)"] exI [of _ cap] exI [of _ q])
      (auto simp: word_le_nat_alt)
qed

lemma issue_all_now:
  assumes K: "kv_ok K V W"
  shows "issue_all I K qs s = (s', out) \<Longrightarrow> kv_now K s \<le> kv_now K s'"
proof (induction qs arbitrary: s out)
  case (Cons q qs)
  obtain s1 r where run: "issue_tokens I K (rq_now q) (rq_clock q) (rq_access q) (rq_points q) s
      = (s1, r)" by fastforce
  obtain s2 rs where rest: "issue_all I K qs s1 = (s2, rs)" by fastforce
  have "kv_now K s \<le> kv_now K s1"
    using issue_tokens_reserves [OF run] reserve_attempts_now [OF K] by auto
  moreover have "s' = s2" using Cons.prems run rest by simp
  ultimately show ?case using Cons.IH [of s1 rs] rest by simp
qed simp

lemma issue_all_covers:
  assumes K: "kv_ok K V W" and now: "kv_now K s' < t0 + SECONDS_PER_HOUR"
    and "\<forall>q \<in> set qs. \<forall>i. rq_clock q i div 3600 = t div 3600"
    and "counter_covers K V (privacy_pass_hour_key u t) t0 (unat (max_per_hour I)) n s"
    and "issue_all I K qs s = (s', out)"
  shows "counter_covers K V (privacy_pass_hour_key u t) t0 (unat (max_per_hour I))
           (n + issued_to u out) s'"
  using assms(3-)
proof (induction qs arbitrary: n s out)
  case (Cons q qs)
  let ?cov = "counter_covers K V (privacy_pass_hour_key u t) t0 (unat (max_per_hour I))"
  obtain s1 r where run: "issue_tokens I K (rq_now q) (rq_clock q) (rq_access q) (rq_points q) s
      = (s1, r)" by fastforce
  obtain s2 rs where rest: "issue_all I K qs s1 = (s2, rs)" by fastforce
  with Cons.prems(3) run have s2: "s2 = s'" and out: "out = (rq_access q, r) # rs" by auto
  define i where "i = (case r of Err _ \<Rightarrow> 0
    | Ok resp \<Rightarrow> if rq_access q = Ok u then length (evaluated_points resp) else 0)"
  have now1: "kv_now K s1 < t0 + SECONDS_PER_HOUR"
    using issue_all_now [OF K rest] s2 now by simp
  have hour: "\<forall>i. rq_clock q i div 3600 = t div 3600" using Cons.prems(1) by simp
  have M: "unat (max_per_hour I) < 2 ^ 32" using unsigned_less [where 'a = nat, of "max_per_hour I"] by simp
  have "?cov (n + i) s1"
    using issue_tokens_reserves [OF run]
  proof (elim disjE exE conjE)
    fix e
    assume "s1 = s" "r = Err e"
    with Cons.prems(2) show ?thesis by (simp add: i_def)
  next
    fix u' wanted and cap :: u32 and g :: "('f issue_error, u32) result"
    assume a: "rq_access q = Ok u'" "unat cap \<le> unat (max_per_hour I)"
      "reserve_attempts K (rq_clock q) u' wanted cap 0 3 s = (s1, g)"
      and le: "\<forall>resp. r = Ok resp \<longrightarrow> length (evaluated_points resp) \<le> granted g"
    from reserve_attempts_covers [OF K M a(2) hour Cons.prems(2) a(3) now1]
    have "?cov (n + (if u' = u then granted g else 0)) s1" by simp
    moreover have "i \<le> (if u' = u then granted g else 0)"
      using a(1) le by (auto simp: i_def split: sum.splits)
    ultimately show ?thesis by (meson add_left_mono counter_covers_mono)
  qed
  from Cons.IH [OF _ this] Cons.prems(1) rest s2 out show ?case by (simp add: i_def add.assoc)
qed simp

text \<open>
  C20. Within one hour, however the issuer is called and whatever fails on the way to Redis, a user
  is issued at most the hourly cap of tokens: over any sequence of requests whose clocks read the
  same hour, from a counter not yet there, during less than an hour of Redis' time, the points
  evaluated for the user number at most \<open>max_per_hour\<close>.
\<close>

theorem issuance_within_cap:
  assumes "kv_ok K V W" and "\<forall>q \<in> set qs. \<forall>i. rq_clock q i div 3600 = t div 3600"
    and "V s (privacy_pass_hour_key u t) = None" and "issue_all I K qs s = (s', out)"
    and "kv_now K s' < kv_now K s + SECONDS_PER_HOUR"
  shows "issued_to u out \<le> unat (max_per_hour I)"
proof -
  have "counter_covers K V (privacy_pass_hour_key u t) (kv_now K s) (unat (max_per_hour I)) 0 s"
    using assms(3) by (simp add: counter_covers_def)
  from issue_all_covers [OF assms(1,5,2) this assms(4)] show ?thesis
    by (auto simp: counter_covers_def)
qed

definition sample_request :: "string \<Rightarrow> bytes list \<Rightarrow> unit issue_request" where
  "sample_request u points = \<lparr>rq_now = 10 ^ 15, rq_clock = (\<lambda>_. 7200), rq_access = Ok u,
     rq_points = points\<rparr>"

lemmas reserve_attempts_numeral =
  reserve_attempts.simps(2) [where left = "pred_numeral k" for k, folded numeral_eq_Suc]

lemma parse_unsigned_show_int: "0 \<le> i \<Longrightarrow> i < 2 ^ w \<Longrightarrow> parse_unsigned w (show_int i) = Some (nat i)"
  by (simp add: show_int_def parse_show_nat nat_less_iff)

theorem issuance_within_cap_witness:
  "let out = snd (issue_all sample_issuer sample_kv
         [sample_request ''u'' [sample_code 2, sample_code 2, sample_code 2],
          sample_request ''v'' [sample_code 2],
          sample_request ''u'' [sample_code 2, sample_code 1]]
         (empty_store 0 [(5, Up), (5, Up), (5, Up), (5, Up), (5, Up), (5, Up)]))
   in issued_to ''u'' out = 4 \<and> issued_to ''u'' out \<le> unat (max_per_hour sample_issuer)"
proof -
  let ?qs = "[sample_request ''u'' [sample_code 2, sample_code 2, sample_code 2],
          sample_request ''v'' [sample_code 2],
          sample_request ''u'' [sample_code 2, sample_code 1]]"
    and ?s = "empty_store 0 [(5, Up), (5, Up), (5, Up), (5, Up), (5, Up), (5, Up)]"
  have dec: "length (sample_code x) = 32" for x by (simp add: sample_code_def)
  obtain s' out where run: "issue_all sample_issuer sample_kv ?qs ?s = (s', out)" by fastforce
  have "issued_to ''u'' out = 4 \<and> kv_now sample_kv s' = 30"
    using run
    by (auto simp: issue_tokens_def sample_issuer_def sample_ristretto_def decode_point_def dec
        sample_request_def sample_decode_code
        effective_issuance_cap_def registered_at_def hours_ns_def reserve_attempts_numeral
        token_issuance_count_def try_reserve_token_issuance_def round_trip_def reserve_script_def
        sample_kv_eval issuance_grant_def saturating_sub_def evaluate_points_def Let_def
        parse_unsigned_show_int parse_i64_show_int hour_key_inj SECONDS_PER_HOUR_def)
  with issuance_within_cap [OF sample_kv_ok _ _ run, of 7200 "''u''"] run
  show ?thesis
    by (simp add: sample_request_def empty_store_def sample_kv_def SECONDS_PER_HOUR_def)
qed

end
