(* ===== verification/Token_Redeem.thy ===== *)
theory Token_Redeem
  imports Privacy_Pass Kv "HOL-Library.Sublist"
begin

text \<open>
  Redeeming Privacy Pass tokens on sealed sends: \<open>messaging-service/src/token_redeem.rs\<close>. A token
  pays for one logical message: the first envelope spends the token and opens a unit under the
  client's spend id and the recipient, and later envelopes of the unit are covered, up to a cap.

  The handler makes up to three round trips to Redis (cover, spend, open), and other handlers run
  between them. The direct definition follows the source; \<open>redeem_step\<close> is the same handler as a
  machine that makes one round trip per step, and the relation \<open>redeem_system\<close> interleaves any
  number of such machines with other users of the store.
\<close>

section \<open>The source\<close>

definition SPENT_TTL_SECS :: nat where "SPENT_TTL_SECS = 30 * 24 * 60 * 60"
definition SPEND_UNIT_TTL_SECS :: nat where "SPEND_UNIT_TTL_SECS = 2 * 60 * 60"
definition MAX_ENVELOPES_PER_SPEND_UNIT :: int where "MAX_ENVELOPES_PER_SPEND_UNIT = 256"
definition SPEND_ID_LEN :: nat where "SPEND_ID_LEN = 32"

datatype TokenRedeemResult =
    RedeemOk
  | UnitCovered
  | MissingToken
  | TokenDecryptFailed
  | InvalidToken
  | DoubleSpent
  | UnitExhausted
  | RedisError
  | NotConfigured

definition as_label :: "TokenRedeemResult \<Rightarrow> string" where
  "as_label r = (case r of
      RedeemOk \<Rightarrow> ''ok''
    | UnitCovered \<Rightarrow> ''unit_covered''
    | MissingToken \<Rightarrow> ''missing_token''
    | TokenDecryptFailed \<Rightarrow> ''decrypt_failed''
    | InvalidToken \<Rightarrow> ''invalid_token''
    | DoubleSpent \<Rightarrow> ''double_spent''
    | UnitExhausted \<Rightarrow> ''unit_exhausted''
    | RedisError \<Rightarrow> ''redis_error''
    | NotConfigured \<Rightarrow> ''not_configured'')"

definition is_accept :: "TokenRedeemResult \<Rightarrow> bool" where
  "is_accept r \<longleftrightarrow> r = RedeemOk \<or> r = UnitCovered"

datatype UnitLookup = Covered | Exhausted | NeedToken | LookupError

text \<open>
  What the module is given: the group, the sealed box, SHA-256 and hexadecimal printing, and the
  two keys of this instance.
\<close>

record ('k, 'p, 'x) redeemer =
  rd_group :: "('k, 'p) ristretto"
  rd_box :: "'x sealed_box"
  sha256 :: "bytes \<Rightarrow> bytes"
  hex_encode :: "bytes \<Rightarrow> string"

definition normalize_spend_id :: "bytes \<Rightarrow> (unit, bytes option) result" where
  "normalize_spend_id raw =
     (if raw = [] then Ok None
      else if length raw \<noteq> SPEND_ID_LEN then Err ()
      else Ok (Some raw))"

definition unit_key :: "('k, 'p, 'x) redeemer \<Rightarrow> bytes \<Rightarrow> string \<Rightarrow> key" where
  "unit_key E spend_id recipient_user_id =
     ''pp:unit:'' @
       hex_encode E (sha256 E (spend_id @ as_bytes ''|'' @ as_bytes recipient_user_id))"

text \<open>
  The script that covers an envelope. Every value the code stores here is a decimal integer, which
  Lua's \<open>tonumber\<close> reads as \<^const>\<open>parse_i64\<close> does.
\<close>

definition cover_script :: "'s kv \<Rightarrow> key \<Rightarrow> 's \<Rightarrow> 's \<times> int option" where
  "cover_script K k s =
     (case kv_get K s k of
        None \<Rightarrow> (s, Some 0)
      | Some v \<Rightarrow>
          (case parse_i64 v of
             None \<Rightarrow> (s, Some 0)
           | Some n \<Rightarrow>
               if n \<ge> MAX_ENVELOPES_PER_SPEND_UNIT then (s, Some (- 1))
               else (case kv_incr_by K s k 1 of
                       None \<Rightarrow> (s, None)
                     | Some (s1, _) \<Rightarrow> (s1, Some 1))))"

definition try_cover_with_paid_unit ::
  "('k, 'p, 'x) redeemer \<Rightarrow> 's kv \<Rightarrow> bytes \<Rightarrow> string \<Rightarrow> 's \<Rightarrow> 's \<times> UnitLookup" where
  "try_cover_with_paid_unit E K spend_id recipient_user_id s =
     (let (s1, res) = round_trip K (cover_script K (unit_key E spend_id recipient_user_id)) s
      in (s1, case res of
                Ok n \<Rightarrow> if n = 1 then Covered else if n = - 1 then Exhausted else NeedToken
              | Err _ \<Rightarrow> LookupError))"

definition open_script :: "'s kv \<Rightarrow> key \<Rightarrow> 's \<Rightarrow> 's \<times> int option" where
  "open_script K k s =
     (if kv_get K s k = None then (kv_set_ex K s k ''1'' SPEND_UNIT_TTL_SECS, Some 1)
      else case kv_incr_by K s k 1 of
             None \<Rightarrow> (s, None)
           | Some (s1, _) \<Rightarrow> (s1, Some 0))"

definition open_spend_unit ::
  "('k, 'p, 'x) redeemer \<Rightarrow> 's kv \<Rightarrow> bytes \<Rightarrow> string \<Rightarrow> 's \<Rightarrow> 's \<times> (unit, unit) result" where
  "open_spend_unit E K spend_id recipient_user_id s =
     (let (s1, res) = round_trip K (open_script K (unit_key E spend_id recipient_user_id)) s
      in (s1, case res of Ok _ \<Rightarrow> Ok () | Err _ \<Rightarrow> Err ()))"

definition spent_key :: "('k, 'p, 'x) redeemer \<Rightarrow> bytes \<Rightarrow> key" where
  "spent_key E nonce = ''spent:'' @ hex_encode E (sha256 E nonce)"

text \<open>\<open>SET key 1 NX EX ttl\<close>: whether the key was set.\<close>

definition set_nx_ex :: "'s kv \<Rightarrow> key \<Rightarrow> string \<Rightarrow> nat \<Rightarrow> 's \<Rightarrow> 's \<times> bool option" where
  "set_nx_ex K k v ttl s =
     (if kv_get K s k = None then (kv_set_ex K s k v ttl, Some True) else (s, Some False))"

text \<open>The checks before the store is asked.\<close>

definition check_token ::
  "('k, 'p, 'x) redeemer \<Rightarrow> bytes \<Rightarrow> 'x \<Rightarrow> bytes \<Rightarrow> bytes \<Rightarrow> TokenRedeemResult option" where
  "check_token E token_issuer_key server_secret token_nonce token_bytes =
     (if token_nonce = [] \<or> token_bytes = [] then Some MissingToken
      else if length token_nonce \<noteq> 32 then Some InvalidToken
      else case open_sealed_token_bytes (rd_box E) token_bytes server_secret of
             Err _ \<Rightarrow> Some TokenDecryptFailed
           | Ok token \<Rightarrow>
               if length token \<noteq> 32 then Some InvalidToken
               else if \<not> verify_token (rd_group E) token token_nonce token_issuer_key
               then Some InvalidToken
               else None)"

definition redeem_token ::
  "('k, 'p, 'x) redeemer \<Rightarrow> 's kv \<Rightarrow> bytes \<Rightarrow> 'x \<Rightarrow> bytes \<Rightarrow> bytes \<Rightarrow> 's
     \<Rightarrow> 's \<times> TokenRedeemResult" where
  "redeem_token E K token_issuer_key server_secret token_nonce token_bytes s =
     (case check_token E token_issuer_key server_secret token_nonce token_bytes of
        Some r \<Rightarrow> (s, r)
      | None \<Rightarrow>
          (let (s1, res) =
             round_trip K (set_nx_ex K (spent_key E token_nonce) ''1'' SPENT_TTL_SECS) s
           in (s1, case res of
                     Ok True \<Rightarrow> RedeemOk
                   | Ok False \<Rightarrow> DoubleSpent
                   | Err _ \<Rightarrow> RedisError)))"

definition redeem_for_sealed_send ::
  "('k, 'p, 'x) redeemer \<Rightarrow> 's kv \<Rightarrow> bytes \<Rightarrow> 'x \<Rightarrow> bytes \<Rightarrow> bytes \<Rightarrow> bytes \<Rightarrow> string \<Rightarrow> 's
     \<Rightarrow> 's \<times> TokenRedeemResult" where
  "redeem_for_sealed_send E K token_issuer_key server_secret token_nonce token_bytes
       token_spend_id recipient_user_id s =
     (case normalize_spend_id token_spend_id of
        Err _ \<Rightarrow> (s, InvalidToken)
      | Ok spend_id \<Rightarrow>
          (let (s1, lookup) =
                 (case spend_id of
                    None \<Rightarrow> (s, NeedToken)
                  | Some sid \<Rightarrow> try_cover_with_paid_unit E K sid recipient_user_id s)
           in case lookup of
                Covered \<Rightarrow> (s1, UnitCovered)
              | Exhausted \<Rightarrow> (s1, UnitExhausted)
              | LookupError \<Rightarrow> (s1, RedisError)
              | NeedToken \<Rightarrow>
                  (let (s2, result) =
                     redeem_token E K token_issuer_key server_secret token_nonce token_bytes s1
                   in case spend_id of
                        Some sid \<Rightarrow>
                          if result = RedeemOk
                          then (fst (open_spend_unit E K sid recipient_user_id s2), result)
                          else (s2, result)
                      | None \<Rightarrow> (s2, result))))"

definition redeem_token_checked ::
  "('k, 'p, 'x) redeemer \<Rightarrow> 's kv \<Rightarrow> bytes option \<Rightarrow> 'x option \<Rightarrow> bytes \<Rightarrow> bytes \<Rightarrow> bytes \<Rightarrow> string
     \<Rightarrow> 's \<Rightarrow> 's \<times> TokenRedeemResult" where
  "redeem_token_checked E K token_issuer_key server_secret token_nonce token_bytes
       token_spend_id recipient_user_id s =
     (case (token_issuer_key, server_secret) of
        (Some k, Some secret) \<Rightarrow>
          redeem_for_sealed_send E K k secret token_nonce token_bytes token_spend_id
            recipient_user_id s
      | _ \<Rightarrow> (s, NotConfigured))"

section \<open>One round trip at a time\<close>

record 'x redemption =
  rm_key :: "bytes option"
  rm_secret :: "'x option"
  rm_nonce :: bytes
  rm_bytes :: bytes
  rm_spend_id :: bytes
  rm_recipient :: string

datatype phase = Arrived | Uncovered | Spent | Answered TokenRedeemResult

fun redeem_step ::
  "('k, 'p, 'x) redeemer \<Rightarrow> 's kv \<Rightarrow> 'x redemption \<Rightarrow> phase \<Rightarrow> 's \<Rightarrow> 's \<times> phase" where
  "redeem_step E K c Arrived s =
     (if rm_key c = None \<or> rm_secret c = None then (s, Answered NotConfigured)
      else case normalize_spend_id (rm_spend_id c) of
        Err _ \<Rightarrow> (s, Answered InvalidToken)
      | Ok None \<Rightarrow> (s, Uncovered)
      | Ok (Some sid) \<Rightarrow>
          (let (s1, lookup) = try_cover_with_paid_unit E K sid (rm_recipient c) s
           in (s1, case lookup of
                     Covered \<Rightarrow> Answered UnitCovered
                   | Exhausted \<Rightarrow> Answered UnitExhausted
                   | LookupError \<Rightarrow> Answered RedisError
                   | NeedToken \<Rightarrow> Uncovered)))"
| "redeem_step E K c Uncovered s =
     (let (s1, result) =
        redeem_token E K (the (rm_key c)) (the (rm_secret c)) (rm_nonce c) (rm_bytes c) s
      in (s1, if result = RedeemOk \<and> rm_spend_id c \<noteq> [] then Spent else Answered result))"
| "redeem_step E K c Spent s =
     (fst (open_spend_unit E K (rm_spend_id c) (rm_recipient c) s), Answered RedeemOk)"
| "redeem_step E K c (Answered r) s = (s, Answered r)"

text \<open>Run alone, the machine is the handler.\<close>

lemma redeem_steps:
  "((\<lambda>(s, ph). redeem_step E K c ph s) ^^ 3) (s, Arrived) =
     (let (s', r) = redeem_token_checked E K (rm_key c) (rm_secret c) (rm_nonce c) (rm_bytes c)
        (rm_spend_id c) (rm_recipient c) s in (s', Answered r))"
proof -
  let ?f = "\<lambda>(s, ph). redeem_step E K c ph s"
  have three: "(?f ^^ 3) x = ?f (?f (?f x))" for x by (simp add: numeral_3_eq_3)
  have sid: "normalize_spend_id (rm_spend_id c) = Ok (Some b) \<Longrightarrow> b = rm_spend_id c \<and> b \<noteq> []"
    "normalize_spend_id (rm_spend_id c) = Ok None \<Longrightarrow> rm_spend_id c = []" for b
    by (auto simp: normalize_spend_id_def split: if_splits)
  show ?thesis
    unfolding three redeem_token_checked_def redeem_for_sealed_send_def
    by (auto simp: Let_def dest!: sid split: option.splits sum.splits prod.splits UnitLookup.splits)
qed

section \<open>Handlers that run together\<close>

type_synonym ('s, 'x) redeem_config = "'s \<times> ('x redemption \<times> phase) list \<times> (bytes \<times> nat) list"

definition token_taken :: "phase \<Rightarrow> phase \<Rightarrow> bool" where
  "token_taken ph ph' \<longleftrightarrow> ph = Uncovered \<and> (ph' = Spent \<or> ph' = Answered RedeemOk)"

text \<open>
  A step is one round trip of one of the handlers, or anything else that happens to the store and
  leaves the keys of this module alone. The log records every nonce that was accepted, with the
  time at Redis.
\<close>

inductive redeem_system ::
  "('k, 'p, 'x) redeemer \<Rightarrow> 's kv \<Rightarrow> ('s \<Rightarrow> string view) \<Rightarrow> ('s, 'x) redeem_config
     \<Rightarrow> ('s, 'x) redeem_config \<Rightarrow> bool"
  for E :: "('k, 'p, 'x) redeemer" and K :: "'s kv" and V :: "'s \<Rightarrow> string view"
where
  handler: "i < length cs \<Longrightarrow> cs ! i = (c, ph) \<Longrightarrow> redeem_step E K c ph s = (s', ph') \<Longrightarrow>
    redeem_system E K V (s, cs, log)
      (s', cs[i := (c, ph')],
       if token_taken ph ph' then log @ [(rm_nonce c, kv_now K s')] else log)"
| elsewhere: "kv_now K s \<le> kv_now K s' \<Longrightarrow>
    (\<forall>k. prefix ''spent:'' k \<or> prefix ''pp:unit:'' k \<longrightarrow> V s' k = V s k) \<Longrightarrow>
    redeem_system E K V (s, cs, log) (s', cs, log)"

inductive_cases redeem_systemE: "redeem_system E K V (s, cs, log) cfg'"

definition arrivals :: "'x redemption list \<Rightarrow> ('x redemption \<times> phase) list" where
  "arrivals cs = map (\<lambda>c. (c, Arrived)) cs"

definition redeem_reaches ::
  "('k, 'p, 'x) redeemer \<Rightarrow> 's kv \<Rightarrow> ('s \<Rightarrow> string view) \<Rightarrow> 'x redemption list \<Rightarrow> 's
     \<Rightarrow> ('s, 'x) redeem_config \<Rightarrow> bool" where
  "redeem_reaches E K V cs s cfg \<longleftrightarrow> (redeem_system E K V)\<^sup>*\<^sup>* (s, arrivals cs, []) cfg"

lemma redeem_reaches_induct [consumes 1, case_names start handler elsewhere]:
  assumes "redeem_reaches E K V cs0 s0 (s, cs, log)"
    and "P s0 (arrivals cs0) []"
    and "\<And>s cs log i c ph s' ph'. redeem_reaches E K V cs0 s0 (s, cs, log) \<Longrightarrow> P s cs log \<Longrightarrow>
      i < length cs \<Longrightarrow> cs ! i = (c, ph) \<Longrightarrow> redeem_step E K c ph s = (s', ph') \<Longrightarrow>
      P s' (cs[i := (c, ph')]) (if token_taken ph ph' then log @ [(rm_nonce c, kv_now K s')] else log)"
    and "\<And>s cs log s'. P s cs log \<Longrightarrow> kv_now K s \<le> kv_now K s' \<Longrightarrow>
      \<forall>k. prefix ''spent:'' k \<or> prefix ''pp:unit:'' k \<longrightarrow> V s' k = V s k \<Longrightarrow> P s' cs log"
  shows "P s cs log"
proof -
  have "(redeem_system E K V)\<^sup>*\<^sup>* (s0, arrivals cs0, []) (s, cs, log)"
    using assms(1) by (simp add: redeem_reaches_def)
  then have "case (s, cs, log) of (s, cs, log) \<Rightarrow> P s cs log"
  proof (induction rule: rtranclp_induct)
    case base
    then show ?case using assms(2) by simp
  next
    case (step y z)
    obtain s1 cs1 log1 where y: "y = (s1, cs1, log1)" by (cases y)
    with step.IH have P: "P s1 cs1 log1" by simp
    have reach: "redeem_reaches E K V cs0 s0 (s1, cs1, log1)"
      using step.hyps(1) y by (simp add: redeem_reaches_def)
    show ?case
      by (rule redeem_systemE [OF step.hyps(2) [unfolded y]])
        (simp_all add: assms(3) [OF reach P] assms(4) [OF P])
  qed
  then show ?thesis by simp
qed

text \<open>Running the handlers by a schedule that says which one moves next.\<close>

definition move :: "('k, 'p, 'x) redeemer \<Rightarrow> 's kv \<Rightarrow> nat \<Rightarrow> ('s, 'x) redeem_config
    \<Rightarrow> ('s, 'x) redeem_config" where
  "move E K i cfg =
     (case cfg of (s, cs, log) \<Rightarrow>
        if i < length cs then
          (let (c, ph) = cs ! i; (s', ph') = redeem_step E K c ph s
           in (s', cs[i := (c, ph')],
               if token_taken ph ph' then log @ [(rm_nonce c, kv_now K s')] else log))
        else cfg)"

lemma move_reaches:
  assumes "redeem_reaches E K V cs s cfg"
  shows "redeem_reaches E K V cs s (move E K i cfg)"
proof -
  obtain s1 cs1 log where cfg: "cfg = (s1, cs1, log)" by (cases cfg)
  have "redeem_system E K V cfg (move E K i cfg)" if i: "i < length cs1"
  proof -
    obtain c ph where c: "cs1 ! i = (c, ph)" by fastforce
    obtain s' ph' where "redeem_step E K c ph s1 = (s', ph')" by fastforce
    from redeem_system.handler [OF i c this, of V log] this i c show ?thesis
      by (simp add: move_def cfg)
  qed
  with assms show ?thesis
    by (cases "i < length cs1") (auto simp: redeem_reaches_def move_def cfg)
qed

lemma schedule_reaches: "redeem_reaches E K V cs s (fold (move E K) is (s, arrivals cs, []))"
proof -
  have "redeem_reaches E K V cs s cfg \<Longrightarrow> redeem_reaches E K V cs s (fold (move E K) is cfg)" for cfg
    by (induction "is" arbitrary: cfg) (simp_all add: move_reaches)
  then show ?thesis by (simp add: redeem_reaches_def)
qed

section \<open>A nonce is accepted once\<close>

text \<open>The keys of the two tables never meet.\<close>

lemma spent_not_unit: "spent_key E n \<noteq> unit_key E' b r"
  by (simp add: spent_key_def unit_key_def)

lemma key_prefixes [simp]:
  "prefix ''spent:'' (spent_key E n)" "prefix ''pp:unit:'' (unit_key E b r)"
  by (simp_all add: spent_key_def unit_key_def)

text \<open>What each script may do to the store.\<close>

lemma cover_script_views:
  assumes K: "kv_ok K V W" and "cover_script K k s = (s', r)"
  shows "kv_now K s' = kv_now K s \<and> (\<forall>k'. k' \<noteq> k \<longrightarrow> V s' k' = V s k')"
proof (cases "s' = s")
  case False
  with assms(2) obtain m where "kv_incr_by K s k 1 = Some (s', m)"
    by (auto simp: cover_script_def split: option.splits if_splits)
  from incr_views [OF K this] show ?thesis .
qed simp

lemma open_script_views:
  assumes K: "kv_ok K V W" and "open_script K k s = (s', r)"
  shows "kv_now K s' = kv_now K s \<and> (\<forall>k'. k' \<noteq> k \<longrightarrow> V s' k' = V s k')"
proof (cases "s' = s \<or> s' = kv_set_ex K s k ''1'' SPEND_UNIT_TTL_SECS")
  case True
  then show ?thesis by (auto simp: kv_views [OF K])
next
  case False
  with assms(2) obtain m where "kv_incr_by K s k 1 = Some (s', m)"
    by (auto simp: open_script_def split: option.splits if_splits)
  from incr_views [OF K this] show ?thesis .
qed

lemma round_trip_keeps:
  assumes K: "kv_ok K V W" and run: "round_trip K script s = (s', r)"
    and script: "\<And>s s' r. script s = (s', r) \<Longrightarrow>
      kv_now K s' = kv_now K s \<and> (\<forall>k'. k' \<noteq> k \<longrightarrow> V s' k' = V s k')"
  shows "kv_now K s \<le> kv_now K s' \<and> (\<forall>k'. k' \<noteq> k \<longrightarrow> V s' k' = V s k')"
proof (rule round_trip_cases [OF K run])
  fix s0
  assume "V s0 = V s" "kv_now K s \<le> kv_now K s0" "s' = fst (script s0)"
  then show ?thesis using script [of s0 "fst (script s0)" "snd (script s0)"] by simp
next
  fix s0 a
  assume "V s0 = V s" "kv_now K s \<le> kv_now K s0" "script s0 = (s', Some a)"
  then show ?thesis using script by fastforce
qed simp_all

lemma cover_keeps:
  assumes K: "kv_ok K V W" and "try_cover_with_paid_unit E K b r s = (s', l)"
  shows "kv_now K s \<le> kv_now K s' \<and> (\<forall>k'. k' \<noteq> unit_key E b r \<longrightarrow> V s' k' = V s k')"
proof -
  obtain res where "round_trip K (cover_script K (unit_key E b r)) s = (s', res)"
    using assms(2) by (auto simp: try_cover_with_paid_unit_def split: prod.splits)
  from round_trip_keeps [OF K this cover_script_views [OF K]] show ?thesis by simp
qed

lemma open_keeps:
  assumes K: "kv_ok K V W" and "open_spend_unit E K b r s = (s', l)"
  shows "kv_now K s \<le> kv_now K s' \<and> (\<forall>k'. k' \<noteq> unit_key E b r \<longrightarrow> V s' k' = V s k')"
proof -
  obtain res where "round_trip K (open_script K (unit_key E b r)) s = (s', res)"
    using assms(2) by (auto simp: open_spend_unit_def split: prod.splits)
  from round_trip_keeps [OF K this open_script_views [OF K]] show ?thesis by simp
qed

text \<open>A spent nonce: a key whose deadline is no earlier than thirty days after the acceptance.\<close>

definition spent_since ::
  "('k, 'p, 'x) redeemer \<Rightarrow> ('s \<Rightarrow> string view) \<Rightarrow> 's \<Rightarrow> bytes \<times> nat \<Rightarrow> bool" where
  "spent_since E V s e \<longleftrightarrow>
     (\<exists>v d. V s (spent_key E (fst e)) = Some (v, Some d) \<and> snd e + SPENT_TTL_SECS \<le> d)"

lemma redeem_token_spends:
  assumes K: "kv_ok K V W" and run: "redeem_token E K kb sec nonce tb s = (s', r)"
  shows "kv_now K s \<le> kv_now K s' \<and>
    (\<forall>k'. k' \<noteq> spent_key E nonce \<longrightarrow> V s' k' = V s k') \<and>
    (\<forall>n t. spent_since E V s (n, t) \<and> t \<le> kv_now K s \<longrightarrow> spent_since E V s' (n, t)) \<and>
    (r = RedeemOk \<longrightarrow> spent_since E V s' (nonce, kv_now K s') \<and>
       check_token E kb sec nonce tb = None \<and>
       (\<forall>t. spent_since E V s (nonce, t) \<longrightarrow> t + SPENT_TTL_SECS \<le> kv_now K s'))"
proof -
  let ?k = "spent_key E nonce" and ?script = "set_nx_ex K (spent_key E nonce) ''1'' SPENT_TTL_SECS"
  have script: "kv_now K s1 = kv_now K s0 \<and> (\<forall>k'. k' \<noteq> ?k \<longrightarrow> V s1 k' = V s0 k') \<and>
      (\<forall>n t. spent_since E V s0 (n, t) \<and> t \<le> kv_now K s0 \<longrightarrow> spent_since E V s1 (n, t)) \<and>
      (q = Some True \<longrightarrow> spent_since E V s1 (nonce, kv_now K s1) \<and>
         (\<forall>t. spent_since E V s0 (nonce, t) \<longrightarrow> t + SPENT_TTL_SECS \<le> kv_now K s1))"
    if "?script s0 = (s1, q)" for s0 s1 q
  proof (cases "kv_get K s0 ?k")
    case None
    with that have s1: "s1 = kv_set_ex K s0 ?k ''1'' SPENT_TTL_SECS" and q: "q = Some True"
      by (simp_all add: set_nx_ex_def)
    have "t + SPENT_TTL_SECS \<le> kv_now K s0" if "spent_since E V s0 (nonce, t)" for t
      using that get_noneD [OF K None] by (fastforce simp: spent_since_def)
    with s1 q show ?thesis
      by (auto simp: kv_views [OF K] spent_since_def)
  next
    case (Some v)
    with that show ?thesis by (auto simp: set_nx_ex_def)
  qed
  show ?thesis
  proof (cases "check_token E kb sec nonce tb")
    case (Some r')
    have "r' \<noteq> RedeemOk" using Some
      by (auto simp: check_token_def split: if_splits sum.splits)
    with Some run show ?thesis by (auto simp: redeem_token_def)
  next
    case None
    then obtain res where rt: "round_trip K ?script s = (s', res)"
      and res: "r = RedeemOk \<longleftrightarrow> res = Ok True"
      using run by (auto simp: redeem_token_def split: prod.splits sum.splits bool.splits)
    show ?thesis
    proof (rule round_trip_cases [OF K rt])
      assume "res = Err ()" "V s' = V s" "kv_now K s \<le> kv_now K s'"
      then show ?thesis using res by (auto simp: spent_since_def)
    next
      fix s0
      assume "V s0 = V s" "kv_now K s \<le> kv_now K s0" "s' = fst (?script s0)" "res = Err ()"
      then show ?thesis using script [of s0 s' "snd (?script s0)"] res
        by (auto simp: spent_since_def)
    next
      fix s0 a
      assume "V s0 = V s" "kv_now K s \<le> kv_now K s0" "?script s0 = (s', Some a)" "res = Ok a"
      then show ?thesis using script [of s0 s' "Some a"] res None
        by (auto simp: spent_since_def)
    qed
  qed
qed

lemma spent_since_unit:
  "(\<forall>k'. k' \<noteq> unit_key E b r \<longrightarrow> V s' k' = V s k') \<Longrightarrow> spent_since E V s' e = spent_since E V s e"
  by (simp add: spent_since_def spent_not_unit)

definition holds_token :: "phase \<Rightarrow> bool" where
  "holds_token ph \<longleftrightarrow> ph = Spent \<or> ph = Answered RedeemOk"

definition keyed :: "'x redemption \<Rightarrow> bool" where
  "keyed c \<longleftrightarrow> rm_key c \<noteq> None \<and> rm_secret c \<noteq> None"

text \<open>What one step does to the spent nonces, in every phase.\<close>

lemma redeem_step_spends:
  assumes K: "kv_ok K V W" and run: "redeem_step E K c ph s = (s', ph')"
  shows "kv_now K s \<le> kv_now K s' \<and>
    (\<forall>n t. spent_since E V s (n, t) \<and> t \<le> kv_now K s \<longrightarrow> spent_since E V s' (n, t)) \<and>
    (token_taken ph ph' \<longrightarrow> spent_since E V s' (rm_nonce c, kv_now K s') \<and>
       check_token E (the (rm_key c)) (the (rm_secret c)) (rm_nonce c) (rm_bytes c) = None \<and>
       (\<forall>t. spent_since E V s (rm_nonce c, t) \<longrightarrow> t + SPENT_TTL_SECS \<le> kv_now K s'))"
proof (cases ph)
  case Arrived
  consider "s' = s" | sid l where "try_cover_with_paid_unit E K sid (rm_recipient c) s = (s', l)"
    using run Arrived by (auto split: if_splits sum.splits option.splits prod.splits)
  then show ?thesis
  proof cases
    case 2
    note keeps = cover_keeps [OF K 2]
    with spent_since_unit [of E sid "rm_recipient c" V s' s] Arrived show ?thesis
      by (auto simp: token_taken_def)
  qed (use Arrived in \<open>auto simp: token_taken_def\<close>)
next
  case Uncovered
  then obtain r where r: "redeem_token E K (the (rm_key c)) (the (rm_secret c)) (rm_nonce c)
      (rm_bytes c) s = (s', r)" and "token_taken ph ph' \<longrightarrow> r = RedeemOk"
    using run by (auto simp: token_taken_def split: prod.splits if_splits)
  with redeem_token_spends [OF K r] show ?thesis by blast
next
  case Spent
  then obtain l where "open_spend_unit E K (rm_spend_id c) (rm_recipient c) s = (s', l)"
    using run by (metis fst_conv prod.collapse redeem_step.simps(3))
  from open_keeps [OF K this] spent_since_unit [of E "rm_spend_id c" "rm_recipient c" V s' s] Spent
  show ?thesis by (auto simp: token_taken_def)
next
  case (Answered r)
  with run show ?thesis by (auto simp: token_taken_def)
qed

lemma redeem_step_phases:
  assumes "redeem_step E K c ph s = (s', ph')"
  shows "(ph \<noteq> Arrived \<and> ph \<noteq> Answered NotConfigured \<longrightarrow> keyed c) \<Longrightarrow>
      (ph' \<noteq> Arrived \<and> ph' \<noteq> Answered NotConfigured \<longrightarrow> keyed c)"
    and "holds_token ph' \<longleftrightarrow> holds_token ph \<or> token_taken ph ph'"
    and "token_taken ph ph' \<Longrightarrow> \<not> holds_token ph"
  using assms
  by (cases ph; auto simp: keyed_def holds_token_def token_taken_def
      split: if_splits sum.splits option.splits prod.splits UnitLookup.splits)+

lemma length_filter_update:
  assumes "i < length xs"
  shows "length (filter P (xs[i := y])) + (if P (xs ! i) then 1 else 0)
       = length (filter P xs) + (if P y then 1 else 0)"
proof -
  have "xs = take i xs @ xs ! i # drop (Suc i) xs" using assms by (rule id_take_nth_drop)
  then have "length (filter P xs)
      = length (filter P (take i xs @ xs ! i # drop (Suc i) xs))" by simp
  with assms show ?thesis by (simp add: upd_conv_take_nth_drop)
qed

definition spend_once ::
  "('k, 'p, 'x) redeemer \<Rightarrow> 's kv \<Rightarrow> ('s \<Rightarrow> string view) \<Rightarrow> 'x redemption list
     \<Rightarrow> 's \<Rightarrow> ('x redemption \<times> phase) list \<Rightarrow> (bytes \<times> nat) list \<Rightarrow> bool" where
  "spend_once E K V cs0 s cs log \<longleftrightarrow>
     map fst cs = cs0 \<and>
     (\<forall>(c, ph) \<in> set cs. ph \<noteq> Arrived \<and> ph \<noteq> Answered NotConfigured \<longrightarrow> keyed c) \<and>
     length log = length (filter (\<lambda>(c, ph). holds_token ph) cs) \<and>
     (\<forall>e \<in> set log. spent_since E V s e \<and> snd e \<le> kv_now K s) \<and>
     (\<forall>i j. i < j \<and> j < length log \<and> fst (log ! i) = fst (log ! j) \<longrightarrow>
        snd (log ! i) + SPENT_TTL_SECS \<le> snd (log ! j)) \<and>
     (\<forall>e \<in> set log. \<exists>c \<in> set cs0. keyed c \<and> rm_nonce c = fst e \<and>
        check_token E (the (rm_key c)) (the (rm_secret c)) (rm_nonce c) (rm_bytes c) = None)"

lemma spend_once_handler:
  assumes K: "kv_ok K V W" and inv: "spend_once E K V cs0 s cs log"
    and i: "i < length cs" "cs ! i = (c, ph)" and run: "redeem_step E K c ph s = (s', ph')"
  shows "spend_once E K V cs0 s' (cs[i := (c, ph')])
    (if token_taken ph ph' then log @ [(rm_nonce c, kv_now K s')] else log)"
proof -
  let ?cs = "cs[i := (c, ph')]"
  let ?log = "if token_taken ph ph' then log @ [(rm_nonce c, kv_now K s')] else log"
  note sp = redeem_step_spends [OF K run] and phs = redeem_step_phases [OF run]
  have calls: "map fst cs = cs0"
    and keys: "\<forall>(c, ph) \<in> set cs. ph \<noteq> Arrived \<and> ph \<noteq> Answered NotConfigured \<longrightarrow> keyed c"
    and len: "length log = length (filter (\<lambda>(c, ph). holds_token ph) cs)"
    and since: "\<forall>e \<in> set log. spent_since E V s e \<and> snd e \<le> kv_now K s"
    and gaps: "\<forall>i j. i < j \<and> j < length log \<and> fst (log ! i) = fst (log ! j) \<longrightarrow>
        snd (log ! i) + SPENT_TTL_SECS \<le> snd (log ! j)"
    and valid: "\<forall>e \<in> set log. \<exists>c \<in> set cs0. keyed c \<and> rm_nonce c = fst e \<and>
        check_token E (the (rm_key c)) (the (rm_secret c)) (rm_nonce c) (rm_bytes c) = None"
    using inv unfolding spend_once_def by blast+
  have mem: "(c, ph) \<in> set cs" using i by (metis nth_mem)
  then have c0: "c \<in> set cs0" using calls by force
  have "keyed c" if "ph \<noteq> Arrived" "ph \<noteq> Answered NotConfigured" using keys mem that by blast
  with phs(1) have "ph' \<noteq> Arrived \<and> ph' \<noteq> Answered NotConfigured \<longrightarrow> keyed c" by blast
  then have keys': "\<forall>(c, ph) \<in> set ?cs. ph \<noteq> Arrived \<and> ph \<noteq> Answered NotConfigured \<longrightarrow> keyed c"
    using keys set_update_subset_insert [of cs i "(c, ph')"] by blast
  have calls': "map fst ?cs = cs0"
    using calls i by (simp add: map_update) (metis fst_conv list_update_id nth_map)
  have len': "length ?log = length (filter (\<lambda>(c, ph). holds_token ph) ?cs)"
    using length_filter_update [OF i(1), of "\<lambda>(c, ph). holds_token ph" "(c, ph')"] i(2) phs(2,3) len
    by (auto split: if_splits)
  have old: "spent_since E V s' e \<and> snd e \<le> kv_now K s'" if "e \<in> set log" for e
  proof -
    from since that have "spent_since E V s e" "snd e \<le> kv_now K s" by blast+
    with sp show ?thesis by (cases e) auto
  qed
  have since': "\<forall>e \<in> set ?log. spent_since E V s' e \<and> snd e \<le> kv_now K s'"
    using old sp by auto
  have gap: "snd e + SPENT_TTL_SECS \<le> kv_now K s'"
    if "token_taken ph ph'" "e \<in> set log" "fst e = rm_nonce c" for e
    using that since sp by (metis prod.collapse)
  have gaps': "\<forall>i j. i < j \<and> j < length ?log \<and> fst (?log ! i) = fst (?log ! j) \<longrightarrow>
      snd (?log ! i) + SPENT_TTL_SECS \<le> snd (?log ! j)"
    using gaps gap by (auto simp: nth_append less_Suc_eq)
  have "keyed c" if "token_taken ph ph'" using keys mem that by (auto simp: token_taken_def)
  with valid c0 sp have valid': "\<forall>e \<in> set ?log. \<exists>c \<in> set cs0. keyed c \<and> rm_nonce c = fst e \<and>
      check_token E (the (rm_key c)) (the (rm_secret c)) (rm_nonce c) (rm_bytes c) = None" by auto
  from calls' keys' len' since' gaps' valid' show ?thesis unfolding spend_once_def by blast
qed

lemma spend_once_reaches:
  assumes K: "kv_ok K V W" and "redeem_reaches E K V cs0 s0 (s, cs, log)"
  shows "spend_once E K V cs0 s cs log"
  using assms(2)
proof (induction rule: redeem_reaches_induct)
  case start
  show ?case by (auto simp: spend_once_def arrivals_def holds_token_def filter_empty_conv comp_def)
next
  case (handler s cs log i c ph s' ph')
  then show ?case using spend_once_handler [OF K] by blast
next
  case (elsewhere s cs log s')
  have "spent_since E V s' e = spent_since E V s e" for e
    using elsewhere(3) by (simp add: spent_since_def)
  with elsewhere(1,2) show ?case by (fastforce simp: spend_once_def)
qed


definition sample_redeemer :: "(3, 3, unit) redeemer" where
  "sample_redeemer = \<lparr>rd_group = sample_ristretto,
     rd_box = \<lparr>diffie_hellman = (\<lambda>_ b. b), hkdf_sha256 = (\<lambda>ikm info n. Some ikm),
       chacha_decrypt = (\<lambda>k n c. Some (sample_code 2))\<rparr>,
     sha256 = (\<lambda>b. b), hex_encode = (\<lambda>b. replicate (length b) CHR ''0'')\<rparr>"

definition sample_redemption :: "bytes \<Rightarrow> unit redemption" where
  "sample_redemption spend_id = \<lparr>rm_key = Some [2], rm_secret = Some (),
     rm_nonce = replicate 32 7, rm_bytes = replicate 60 0, rm_spend_id = spend_id,
     rm_recipient = ''bob''\<rparr>"

lemma sample_token: "check_token sample_redeemer [2] () (replicate 32 7) (replicate 60 0) = None"
  by (simp add: check_token_def sample_redeemer_def open_sealed_token_bytes_def verify_token_def
      hash_to_ristretto_def derive_token_def sample_ristretto_def sample_code_def Let_def)


end
