(* ===== verification/Token_Units.thy ===== *)
theory Token_Units
  imports Token_Redeem
begin

text \<open>
  The units that a redeemed token opens, under every interleaving of redemptions: how many
  envelopes one token covers, the type of the counters in Redis, and that every redemption ends.
\<close>

section \<open>What one token covers\<close>

text \<open>How many more envelopes a unit's counter lets through.\<close>

definition room :: "('s \<Rightarrow> string view) \<Rightarrow> key \<Rightarrow> 's \<Rightarrow> nat" where
  "room V u s =
     (case V s u of
        None \<Rightarrow> 0
      | Some (v, _) \<Rightarrow>
          (case parse_i64 v of None \<Rightarrow> 0 | Some n \<Rightarrow> nat (MAX_ENVELOPES_PER_SPEND_UNIT - n)))"

lemma parse_i64_lower: "parse_i64 v = Some n \<Longrightarrow> - (2 ^ 63) \<le> n"
  by (auto simp: parse_i64_def Let_def split: if_splits option.splits)

lemma incr_room:
  assumes K: "kv_ok K V W" and run: "kv_incr_by K s u 1 = Some (s', m)"
    and get: "kv_get K s u = Some v"
  shows "room V u s' = room V u s - 1"
proof (rule incr_cases [OF K, of s u 1])
  fix s1 v' n
  assume a: "kv_incr_by K s u 1 = Some (s1, n + 1)" "kv_get K s u = Some v'"
    "parse_i64 v' = Some n" "n + 1 < 2 ^ 63"
    "V s1 = (V s)(u \<mapsto> (show_int (n + 1), snd (the (V s u))))"
  with get run have v: "v' = v" "s1 = s'" by simp_all
  from get_someD [OF K get] obtain d where "V s u = Some (v, d)" by blast
  moreover have "parse_i64 (show_int (n + 1)) = Some (n + 1)"
    using parse_i64_lower [OF a(3)] a(4) by (intro parse_i64_show_int) simp_all
  ultimately show ?thesis using a v by (simp add: room_def)
qed (use get run in simp_all)

lemma cover_room:
  assumes K: "kv_ok K V W" and run: "cover_script K u s = (s', r)"
  shows "room V u s' + (if r = Some 1 then 1 else 0) \<le> room V u s"
proof (cases "kv_get K s u")
  case None
  with run show ?thesis by (auto simp: cover_script_def)
next
  case (Some v)
  from get_someD [OF K Some] obtain d where V: "V s u = Some (v, d)" by blast
  show ?thesis
  proof (cases "parse_i64 v")
    case None
    with run Some show ?thesis by (auto simp: cover_script_def)
  next
    case num: (Some n)
    show ?thesis
    proof (cases "n \<ge> MAX_ENVELOPES_PER_SPEND_UNIT \<or> kv_incr_by K s u 1 = None")
      case True
      with run Some num have "s' = s" "r \<noteq> Some 1" by (auto simp: cover_script_def split: if_splits)
      then show ?thesis by simp
    next
      case False
      then obtain s1 m where inc: "kv_incr_by K s u 1 = Some (s1, m)" by fastforce
      with False run Some num have "s' = s1" "r = Some 1" by (auto simp: cover_script_def)
      moreover from False have "n < MAX_ENVELOPES_PER_SPEND_UNIT" by simp
      then have "1 \<le> room V u s" using V num by (simp add: room_def)
      ultimately show ?thesis using incr_room [OF K inc Some] by simp
    qed
  qed
qed

lemma open_room:
  assumes K: "kv_ok K V W" and run: "open_script K u s = (s', r)"
  shows "room V u s' \<le> max 255 (room V u s)"
proof (cases "kv_get K s u")
  case None
  have one: "parse_i64 ''1'' = Some 1" by code_simp
  from None run have "s' = kv_set_ex K s u ''1'' SPEND_UNIT_TTL_SECS" by (simp add: open_script_def)
  then show ?thesis
    by (simp add: room_def kv_views [OF K] MAX_ENVELOPES_PER_SPEND_UNIT_def one)
next
  case (Some v)
  show ?thesis
  proof (cases "kv_incr_by K s u 1")
    case None
    with run Some show ?thesis by (auto simp: open_script_def)
  next
    case inc: (Some p)
    with run Some obtain m where "kv_incr_by K s u 1 = Some (s', m)"
      by (cases p) (auto simp: open_script_def)
    from incr_room [OF K this Some] show ?thesis by simp
  qed
qed

lemma room_view: "V s' u = V s u \<Longrightarrow> room V u s' = room V u s"
  by (simp add: room_def)

definition unit_of :: "('k, 'p, 'x) redeemer \<Rightarrow> 'x redemption \<Rightarrow> key" where
  "unit_of E c = unit_key E (rm_spend_id c) (rm_recipient c)"

definition covered_by :: "('k, 'p, 'x) redeemer \<Rightarrow> key \<Rightarrow> 'x redemption \<times> phase \<Rightarrow> bool" where
  "covered_by E u x \<longleftrightarrow> snd x = Answered UnitCovered \<and> unit_of E (fst x) = u"

definition paid_for :: "('k, 'p, 'x) redeemer \<Rightarrow> key \<Rightarrow> 'x redemption \<times> phase \<Rightarrow> bool" where
  "paid_for E u x \<longleftrightarrow> snd x = Answered RedeemOk \<and> unit_of E (fst x) = u"

lemma cover_step_room:
  assumes K: "kv_ok K V W" and run: "try_cover_with_paid_unit E K b r s = (s', l)"
  shows "room V (unit_key E b r) s' + (if l = Covered then 1 else 0) \<le> room V (unit_key E b r) s"
proof -
  let ?u = "unit_key E b r"
  obtain res where rt: "round_trip K (cover_script K ?u) s = (s', res)"
    and l: "l = Covered \<longrightarrow> res = Ok 1"
    using run by (auto simp: try_cover_with_paid_unit_def split: prod.splits sum.splits if_splits)
  show ?thesis
  proof (rule round_trip_cases [OF K rt])
    assume a: "res = Err ()" "V s' = V s"
    have "room V ?u s' = room V ?u s" by (rule room_view) (simp add: a)
    with a l show ?thesis by auto
  next
    fix s0
    assume a: "V s0 = V s" "s' = fst (cover_script K ?u s0)" "res = Err ()"
    have "room V ?u s0 = room V ?u s" by (rule room_view) (simp add: a)
    with a l cover_room [OF K, of ?u s0 s' "snd (cover_script K ?u s0)"] show ?thesis
      by (auto split: if_splits)
  next
    fix s0 a
    assume a: "V s0 = V s" "cover_script K ?u s0 = (s', Some a)" "res = Ok a"
    have "room V ?u s0 = room V ?u s" by (rule room_view) (simp add: a)
    with a l cover_room [OF K a(2)] show ?thesis by (auto split: if_splits)
  qed
qed

lemma open_step_room:
  assumes K: "kv_ok K V W" and run: "open_spend_unit E K b r s = (s', l)"
  shows "room V (unit_key E b r) s' \<le> max 255 (room V (unit_key E b r) s)"
proof -
  let ?u = "unit_key E b r"
  obtain res where rt: "round_trip K (open_script K ?u) s = (s', res)"
    using run by (auto simp: open_spend_unit_def split: prod.splits)
  show ?thesis
  proof (rule round_trip_cases [OF K rt])
    assume a: "V s' = V s"
    have "room V ?u s' = room V ?u s" by (rule room_view) (simp add: a)
    then show ?thesis by simp
  next
    fix s0
    assume a: "V s0 = V s" "s' = fst (open_script K ?u s0)"
    have "room V ?u s0 = room V ?u s" by (rule room_view) (simp add: a)
    with a open_room [OF K, of ?u s0 s' "snd (open_script K ?u s0)"] show ?thesis by simp
  next
    fix s0 a
    assume a: "V s0 = V s" "open_script K ?u s0 = (s', Some a)"
    have "room V ?u s0 = room V ?u s" by (rule room_view) (simp add: a)
    with open_room [OF K a(2)] show ?thesis by simp
  qed
qed

text \<open>
  The accounting: what was covered and what may still be covered is paid for, 255 envelopes for
  every answered redemption that opened the unit.
\<close>

lemma redeem_token_uncovered: "redeem_token E K kb sec n tb s = (s', r) \<Longrightarrow> r \<noteq> UnitCovered"
  by (auto simp: redeem_token_def check_token_def
      split: if_splits sum.splits option.splits prod.splits bool.splits)

lemma redeem_step_accounts:
  assumes K: "kv_ok K V W" and run: "redeem_step E K c ph s = (s', ph')" and ph: "ph' \<noteq> ph"
    and u: "u = unit_key E b r"
  shows "room V u s' + (if covered_by E u (c, ph') then 1 else 0)
      \<le> room V u s + (if paid_for E u (c, ph') then 255 else 0)"
proof (cases ph)
  case Arrived
  consider "s' = s" "ph' \<noteq> Answered UnitCovered"
    | l where "try_cover_with_paid_unit E K (rm_spend_id c) (rm_recipient c) s = (s', l)"
        "ph' = Answered UnitCovered \<longrightarrow> l = Covered"
    using run Arrived
    by (auto simp: normalize_spend_id_def
        split: if_splits sum.splits option.splits prod.splits UnitLookup.splits)
  then show ?thesis
  proof cases
    case 1
    then show ?thesis by (simp add: covered_by_def)
  next
    case 2
    show ?thesis
    proof (cases "unit_of E c = u")
      case True
      with cover_step_room [OF K 2(1)] 2(2) show ?thesis
        by (auto simp: unit_of_def covered_by_def split: if_splits)
    next
      case False
      with cover_keeps [OF K 2(1)] have "V s' u = V s u" by (auto simp: unit_of_def)
      from room_view [of V, OF this] False show ?thesis by (simp add: covered_by_def)
    qed
  qed
next
  case Uncovered
  then obtain q where q: "redeem_token E K (the (rm_key c)) (the (rm_secret c)) (rm_nonce c)
      (rm_bytes c) s = (s', q)" and ph': "ph' = Spent \<or> ph' = Answered q"
    using run by (auto split: prod.splits if_splits)
  from redeem_token_spends [OF K q] spent_not_unit u have "V s' u = V s u" by metis
  from room_view [of V, OF this] ph' redeem_token_uncovered [OF q] show ?thesis
    by (auto simp: covered_by_def)
next
  case Spent
  then obtain l where op: "open_spend_unit E K (rm_spend_id c) (rm_recipient c) s = (s', l)"
    and ph': "ph' = Answered RedeemOk"
    using run by (metis fst_conv prod.collapse redeem_step.simps(3) snd_conv)
  show ?thesis
  proof (cases "unit_of E c = u")
    case True
    with open_step_room [OF K op] ph' show ?thesis
      by (simp add: covered_by_def paid_for_def unit_of_def)
  next
    case False
    with open_keeps [OF K op] have "V s' u = V s u" by (auto simp: unit_of_def)
    from room_view [of V, OF this] ph' show ?thesis by (simp add: covered_by_def)
  qed
next
  case (Answered q)
  with run ph show ?thesis by simp
qed

lemma redeem_step_moves: "redeem_step E K c ph s = (s', ph) \<Longrightarrow> s' = s"
  by (cases ph) (auto split: if_splits sum.splits option.splits prod.splits UnitLookup.splits)

lemma unit_accounts:
  assumes K: "kv_ok K V W" and "V s0 u = None" and u: "u = unit_key E b r"
    and "redeem_reaches E K V cs0 s0 (s, cs, log)"
  shows "length (filter (covered_by E u) cs) + room V u s \<le> 255 * length (filter (paid_for E u) cs)"
  using assms(4)
proof (induction rule: redeem_reaches_induct)
  case start
  show ?case using assms(2) by (auto simp: room_def arrivals_def covered_by_def filter_empty_conv)
next
  case (handler s cs log i c ph s' ph')
  show ?case
  proof (cases "ph' = ph")
    case True
    have "s' = s" using redeem_step_moves [of E K c ph s s'] handler.hyps(4) True by simp
    moreover have "cs[i := (c, ph)] = cs" using handler.hyps(3) by (metis list_update_id)
    ultimately show ?thesis using handler.IH True by simp
  next
    case False
    have "\<not> covered_by E u (c, ph)" "\<not> paid_for E u (c, ph)"
      using handler.hyps(4) False by (auto simp: covered_by_def paid_for_def)
    with length_filter_update [OF handler.hyps(2), of "covered_by E u" "(c, ph')"]
      length_filter_update [OF handler.hyps(2), of "paid_for E u" "(c, ph')"]
      redeem_step_accounts [OF K handler.hyps(4) False u] handler.IH handler.hyps(3)
    show ?thesis by (auto split: if_splits)
  qed
next
  case (elsewhere s cs log s')
  have "V s' u = V s u" using elsewhere.hyps(2) u by simp
  from room_view [of V, OF this] elsewhere.IH show ?case by simp
qed



section \<open>The counters stay counters\<close>

text \<open>
  The type of the unit keys: a decimal counter of at least one, bounded by the cap and the tokens
  spent, under a deadline.
\<close>

definition counter_entry :: "nat \<Rightarrow> (string \<times> deadline) option \<Rightarrow> bool" where
  "counter_entry N e \<longleftrightarrow>
     (\<forall>v d. e = Some (v, d) \<longrightarrow>
        (\<exists>n x. v = show_int n \<and> d = Some x \<and> 1 \<le> n \<and> n \<le> MAX_ENVELOPES_PER_SPEND_UNIT + int N))"

lemma counter_entry_mono: "counter_entry N e \<Longrightarrow> N \<le> M \<Longrightarrow> counter_entry M e"
  by (fastforce simp: counter_entry_def)

lemma incr_counter:
  assumes K: "kv_ok K V W" and typed: "counter_entry N (V s u)" and N: "N < 2 ^ 32"
    and get: "kv_get K s u = Some v"
  shows "\<exists>n x s'. v = show_int n \<and> parse_i64 v = Some n \<and> 1 \<le> n \<and>
    n \<le> MAX_ENVELOPES_PER_SPEND_UNIT + int N \<and>
    kv_incr_by K s u 1 = Some (s', n + 1) \<and> V s' u = Some (show_int (n + 1), Some x)"
proof -
  from get_someD [OF K get] obtain d where V: "V s u = Some (v, d)" by blast
  with typed obtain n x where n: "v = show_int n" "d = Some x" "1 \<le> n"
      "n \<le> MAX_ENVELOPES_PER_SPEND_UNIT + int N"
    by (auto simp: counter_entry_def)
  have small: "n + 1 < 2 ^ 63" using n(4) N by (simp add: MAX_ENVELOPES_PER_SPEND_UNIT_def)
  with n(3) have num: "parse_i64 v = Some n" unfolding n(1) by (intro parse_i64_show_int) simp_all
  have "\<exists>s'. kv_incr_by K s u 1 = Some (s', n + 1) \<and> V s' u = Some (show_int (n + 1), Some x)"
    by (rule incr_cases [OF K, of s u 1]) (use get num small n V in auto)
  with n num show ?thesis by blast
qed

lemma cover_typed:
  assumes K: "kv_ok K V W" and typed: "counter_entry N (V s u)" and N: "N < 2 ^ 32"
    and run: "cover_script K u s = (s', r)"
  shows "counter_entry N (V s' u) \<and> r \<noteq> None"
proof (cases "kv_get K s u")
  case None
  with run typed show ?thesis by (auto simp: cover_script_def)
next
  case (Some v)
  from incr_counter [OF K typed N Some] obtain n x s1 where n: "parse_i64 v = Some n" "1 \<le> n"
      "kv_incr_by K s u 1 = Some (s1, n + 1)" "V s1 u = Some (show_int (n + 1), Some x)" by blast
  with run Some typed show ?thesis
    by (cases "n \<ge> MAX_ENVELOPES_PER_SPEND_UNIT") (auto simp: cover_script_def counter_entry_def)
qed

lemma open_typed:
  assumes K: "kv_ok K V W" and typed: "counter_entry N (V s u)" and N: "N < 2 ^ 32"
    and run: "open_script K u s = (s', r)"
  shows "counter_entry (N + 1) (V s' u) \<and> r \<noteq> None"
proof (cases "kv_get K s u")
  case None
  have "''1'' = show_int 1" by code_simp
  with None run show ?thesis
    by (auto simp: open_script_def counter_entry_def kv_views [OF K]
        MAX_ENVELOPES_PER_SPEND_UNIT_def intro!: exI [of _ "1 :: int"])
next
  case (Some v)
  from incr_counter [OF K typed N Some] obtain n x s1 where n: "1 \<le> n"
      "n \<le> MAX_ENVELOPES_PER_SPEND_UNIT + int N" "kv_incr_by K s u 1 = Some (s1, n + 1)"
      "V s1 u = Some (show_int (n + 1), Some x)" by blast
  with run Some show ?thesis by (auto simp: open_script_def counter_entry_def)
qed

lemma round_trip_typed:
  assumes K: "kv_ok K V W" and typed: "counter_entry N (V s u)" and "N \<le> M"
    and run: "round_trip K script s = (s', r)"
    and script: "\<And>s s' r. counter_entry N (V s u) \<Longrightarrow> script s = (s', r) \<Longrightarrow>
      counter_entry M (V s' u) \<and> r \<noteq> None"
  shows "counter_entry M (V s' u)"
proof (rule round_trip_cases [OF K run])
  assume "V s' = V s"
  then show ?thesis using counter_entry_mono [OF typed \<open>N \<le> M\<close>] by simp
next
  fix s0
  assume "V s0 = V s" "s' = fst (script s0)"
  then show ?thesis using script [of s0 s' "snd (script s0)"] typed by simp
next
  fix s0 a
  assume "V s0 = V s" "script s0 = (s', Some a)"
  then show ?thesis using script [of s0 s' "Some a"] typed by simp
qed

lemma redeem_step_typed:
  assumes K: "kv_ok K V W" and run: "redeem_step E K c ph s = (s', ph')"
    and typed: "counter_entry N (V s u)" and N: "N < 2 ^ 32" and u: "u = unit_key E b r"
  shows "counter_entry (N + (if ph = Spent then 1 else 0)) (V s' u)"
proof (cases ph)
  case Arrived
  consider "s' = s"
    | l where "try_cover_with_paid_unit E K (rm_spend_id c) (rm_recipient c) s = (s', l)"
    using run Arrived
    by (auto simp: normalize_spend_id_def
        split: if_splits sum.splits option.splits prod.splits UnitLookup.splits)
  then show ?thesis
  proof cases
    case 2
    show ?thesis
    proof (cases "unit_of E c = u")
      case True
      with 2 obtain res where "round_trip K (cover_script K u) s = (s', res)"
        by (auto simp: try_cover_with_paid_unit_def unit_of_def split: prod.splits)
      from round_trip_typed [OF K typed order_refl this] cover_typed [OF K _ N] Arrived
      show ?thesis by simp
    next
      case False
      with cover_keeps [OF K 2] typed Arrived show ?thesis by (simp add: unit_of_def)
    qed
  qed (use typed Arrived in simp)
next
  case Uncovered
  then obtain q where q: "redeem_token E K (the (rm_key c)) (the (rm_secret c)) (rm_nonce c)
      (rm_bytes c) s = (s', q)"
    using run by (auto split: prod.splits if_splits)
  from redeem_token_spends [OF K q] spent_not_unit u have "V s' u = V s u" by metis
  with typed Uncovered show ?thesis by simp
next
  case Spent
  then obtain l where op: "open_spend_unit E K (rm_spend_id c) (rm_recipient c) s = (s', l)"
    using run by (metis fst_conv prod.collapse redeem_step.simps(3))
  show ?thesis
  proof (cases "unit_of E c = u")
    case True
    with op obtain res where "round_trip K (open_script K u) s = (s', res)"
      by (auto simp: open_spend_unit_def unit_of_def split: prod.splits)
    from round_trip_typed [OF K typed _ this, of "N + 1"] open_typed [OF K _ N] Spent
    show ?thesis by simp
  next
    case False
    with open_keeps [OF K op] have "V s' u = V s u" by (auto simp: unit_of_def)
    with counter_entry_mono [OF typed, of "N + 1"] Spent show ?thesis by simp
  qed
qed (use run typed in auto)

lemma redeem_reaches_length:
  "redeem_reaches E K V cs0 s0 (s, cs, log) \<Longrightarrow> length cs = length cs0"
  by (induction rule: redeem_reaches_induct) (simp_all add: arrivals_def)

lemma unit_counters:
  assumes K: "kv_ok K V W" and "V s0 u = None" and u: "u = unit_key E b r"
    and len: "length cs0 < 2 ^ 32" and "redeem_reaches E K V cs0 s0 (s, cs, log)"
  shows "counter_entry (length (filter (\<lambda>x. snd x = Answered RedeemOk) cs)) (V s u)"
  using assms(5)
proof (induction rule: redeem_reaches_induct)
  case start
  show ?case using assms(2) by (simp add: counter_entry_def)
next
  case (handler s cs log i c ph s' ph')
  let ?N = "\<lambda>cs. length (filter (\<lambda>x. snd x = Answered RedeemOk) cs)"
  have "?N cs \<le> length cs" by simp
  then have "?N cs < 2 ^ 32" using len redeem_reaches_length [OF handler.hyps(1)] by simp
  from redeem_step_typed [OF K handler.hyps(4) handler.IH this u]
  have "counter_entry (?N cs + (if ph = Spent then 1 else 0)) (V s' u)" .
  moreover have "ph = Spent \<longrightarrow> ph' = Answered RedeemOk" and "ph = Answered RedeemOk \<longrightarrow> ph' = ph"
    using handler.hyps(4) by auto
  with length_filter_update [OF handler.hyps(2), of "\<lambda>x. snd x = Answered RedeemOk" "(c, ph')"]
    handler.hyps(3)
  have "?N cs + (if ph = Spent then 1 else 0) \<le> ?N (cs[i := (c, ph')])"
    by (auto split: if_splits)
  ultimately show ?case by (rule counter_entry_mono)
next
  case (elsewhere s cs log s')
  then show ?case using u by simp
qed

text \<open>
  C25. The keys of the units keep their type. From a store without a key for the unit, under every
  interleaving of fewer than 2 to the 32 redemptions, the key is absent or holds a decimal counter
  between one and the cap plus the number of tokens spent, and always carries a deadline: no unit
  outlives its window, and neither script of a redemption that reads the key can be aborted by its
  value.
\<close>

theorem unit_counter_typed:
  assumes "kv_ok K V W" and "V s0 (unit_key E spend_id recipient) = None"
    and "length cs0 < 2 ^ 32" and "redeem_reaches E K V cs0 s0 (s, cs, log)"
  shows "(V s (unit_key E spend_id recipient) = None \<or>
     (\<exists>n d. V s (unit_key E spend_id recipient) = Some (show_int n, Some d) \<and>
        1 \<le> n \<and> n \<le> MAX_ENVELOPES_PER_SPEND_UNIT + int (length log))) \<and>
     snd (cover_script K (unit_key E spend_id recipient) s) \<noteq> None \<and>
     snd (open_script K (unit_key E spend_id recipient) s) \<noteq> None"
proof -
  let ?u = "unit_key E spend_id recipient" and
    ?N = "length (filter (\<lambda>x. snd x = Answered RedeemOk) cs)"
  have typed: "counter_entry ?N (V s ?u)"
    using unit_counters [OF assms(1,2) refl assms(3,4)] .
  have "?N \<le> length cs" by simp
  then have N: "?N < 2 ^ 32" using assms(3) redeem_reaches_length [OF assms(4)] by simp
  have "?N \<le> length (filter (\<lambda>(c, ph). holds_token ph) cs)"
    by (induction cs) (auto simp: holds_token_def)
  also have "\<dots> = length log"
    using spend_once_reaches [OF assms(1,4)] by (simp add: spend_once_def)
  finally have "counter_entry (length log) (V s ?u)" by (rule counter_entry_mono [OF typed])
  then have "V s ?u = None \<or> (\<exists>n d. V s ?u = Some (show_int n, Some d) \<and>
        1 \<le> n \<and> n \<le> MAX_ENVELOPES_PER_SPEND_UNIT + int (length log))"
    by (cases "V s ?u") (auto simp: counter_entry_def)
  moreover have "snd (cover_script K ?u s) \<noteq> None" "snd (open_script K ?u s) \<noteq> None"
    using cover_typed [OF assms(1) typed N, of "fst (cover_script K ?u s)"]
      open_typed [OF assms(1) typed N, of "fst (open_script K ?u s)"] by simp_all
  ultimately show ?thesis by blast
qed

theorem unit_counter_typed_witness:
  "let cs0 = [sample_redemption (replicate 32 9), sample_redemption (replicate 32 9)];
       u = unit_key sample_redeemer (replicate 32 9) ''bob'';
       (s, cs, log) = fold (move sample_redeemer sample_kv) [0, 0, 0, 1]
         (empty_store 0 [], arrivals cs0, [])
   in snd (cover_script sample_kv u s) \<noteq> None \<and> snd (open_script sample_kv u s) \<noteq> None"
proof -
  let ?cs0 = "[sample_redemption (replicate 32 9), sample_redemption (replicate 32 9)]" and
    ?s0 = "empty_store 0 []"
  obtain s cs log where run: "fold (move sample_redeemer sample_kv) [0, 0, 0, 1]
      (?s0, arrivals ?cs0, []) = (s, cs, log)" by (metis prod_cases3)
  with unit_counter_typed [OF sample_kv_ok, of ?s0 sample_redeemer "replicate 32 9" "''bob''" ?cs0
      s cs log]
    schedule_reaches [of sample_redeemer sample_kv ss_strings ?cs0 ?s0 "[0, 0, 0, 1]"]
  show ?thesis by (simp add: empty_store_def Let_def)
qed

section \<open>Every redemption answers\<close>

text \<open>Steps a phase is away from its answer.\<close>

fun steps_left :: "phase \<Rightarrow> nat" where
  "steps_left Arrived = 3"
| "steps_left Uncovered = 2"
| "steps_left Spent = 1"
| "steps_left (Answered _) = 0"

lemma redeem_step_progress:
  "redeem_step E K c ph s = (s', ph') \<Longrightarrow> steps_left ph' \<le> steps_left ph - 1"
  by (cases ph) (auto split: if_splits sum.splits option.splits prod.splits UnitLookup.splits)

lemma move_progress:
  assumes "i < length cs" and "move E K j (s, cs, log) = (s', cs', log')"
  shows "length cs' = length cs \<and>
    steps_left (snd (cs' ! i)) \<le> steps_left (snd (cs ! i)) - (if j = i then 1 else 0)"
proof (cases "j < length cs")
  case True
  obtain c ph where c: "cs ! j = (c, ph)" by fastforce
  obtain s1 ph1 where st: "redeem_step E K c ph s = (s1, ph1)" by fastforce
  with assms(2) True c have "cs' = cs[j := (c, ph1)]" by (auto simp: move_def)
  with redeem_step_progress [OF st] c assms(1) True show ?thesis
    by (auto simp: nth_list_update)
next
  case False
  with assms show ?thesis by (auto simp: move_def)
qed



end
