(* ===== verification/Intake.thy ===== *)
theory Intake
  imports Privacy_Pass Kv
begin

text \<open>
  Intake credentials: \<open>messaging-service/src/intake.rs\<close>. A recipient publishes tags per day
  (epoch) under a key generation; an envelope that presents one of them owes no token. The
  publishing script, the check of a presented tag and the state query are modelled over the laws
  of Redis; SHA-256 and hexadecimal printing are parameters.

  Epochs and times are 64-bit words whose arithmetic wraps, as the release build's does.
\<close>

section \<open>Outcomes\<close>

definition INTAKE_TAG_LEN :: nat where "INTAKE_TAG_LEN = 16"
definition INTAKE_EPOCH_SECONDS :: u64 where "INTAKE_EPOCH_SECONDS = 86400"
definition INTAKE_TAG_GRACE_EPOCHS :: u64 where "INTAKE_TAG_GRACE_EPOCHS = 1"
definition MAX_PUBLISHED_EPOCHS :: nat where "MAX_PUBLISHED_EPOCHS = 14"
definition MAX_TAGS_PER_EPOCH :: nat where "MAX_TAGS_PER_EPOCH = 32"

datatype UnrecognisedReason = NoServerKey | UnsealFailed | WrongLength | NothingPublished | NoMatch

datatype IntakeCheck = Vouched | Absent | Unrecognised UnrecognisedReason | IntakeUnavailable

datatype IntakeVerdict = VerdictUnspecified | Accepted | NoTag | NotAccepted | Unchecked

definition verdict :: "IntakeCheck \<Rightarrow> IntakeVerdict" where
  "verdict c = (case c of
      Vouched \<Rightarrow> Accepted
    | Absent \<Rightarrow> NoTag
    | Unrecognised r \<Rightarrow>
        (case r of
           NoMatch \<Rightarrow> NotAccepted
         | NothingPublished \<Rightarrow> NotAccepted
         | WrongLength \<Rightarrow> NotAccepted
         | NoServerKey \<Rightarrow> Unchecked
         | UnsealFailed \<Rightarrow> Unchecked)
    | IntakeUnavailable \<Rightarrow> Unchecked)"

definition unrecognised_reason :: "IntakeCheck \<Rightarrow> UnrecognisedReason option" where
  "unrecognised_reason c = (case c of Unrecognised r \<Rightarrow> Some r | _ \<Rightarrow> None)"

definition owes_token :: "IntakeCheck \<Rightarrow> bool" where
  "owes_token c \<longleftrightarrow> c \<noteq> Vouched"

section \<open>Keys and epochs\<close>

definition intake_epoch :: "u64 \<Rightarrow> u64" where
  "intake_epoch unix_seconds = unix_seconds div INTAKE_EPOCH_SECONDS"

record digests =
  dg_sha256 :: "bytes \<Rightarrow> bytes"
  dg_hex :: "bytes \<Rightarrow> string"

definition canonical_account :: "string \<Rightarrow> string" where
  "canonical_account user_id = map ascii_lower (trim user_id)"

definition account_epoch_digest :: "digests \<Rightarrow> string \<Rightarrow> u64 \<Rightarrow> string" where
  "account_epoch_digest D recipient_user_id epoch =
     dg_hex D (dg_sha256 D (as_bytes (canonical_account recipient_user_id) @ as_bytes ''|'' @
       u64_be_bytes epoch))"

definition tag_key :: "digests \<Rightarrow> string \<Rightarrow> u64 \<Rightarrow> key" where
  "tag_key D recipient_user_id epoch =
     ''intake:v2:'' @ account_epoch_digest D recipient_user_id epoch"

definition legacy_tag_key :: "digests \<Rightarrow> string \<Rightarrow> u64 \<Rightarrow> key" where
  "legacy_tag_key D recipient_user_id epoch =
     ''intake:'' @ account_epoch_digest D recipient_user_id epoch"

definition generation_key :: "digests \<Rightarrow> string \<Rightarrow> key" where
  "generation_key D account_user_id =
     ''intake:gen:'' @
       dg_hex D (dg_sha256 D (as_bytes (canonical_account account_user_id) @ as_bytes ''|generation''))"

definition tag_ttl_seconds :: "u64 \<Rightarrow> u64 \<Rightarrow> u64 option" where
  "tag_ttl_seconds epoch now_epoch =
     (let last_live_epoch = epoch + INTAKE_TAG_GRACE_EPOCHS in
      if last_live_epoch < now_epoch then None
      else Some ((last_live_epoch + 1 - now_epoch) * INTAKE_EPOCH_SECONDS))"

definition acceptable_epochs :: "u64 \<Rightarrow> u64 list" where
  "acceptable_epochs now_epoch =
     now_epoch # (if INTAKE_TAG_GRACE_EPOCHS \<le> now_epoch then [now_epoch - 1] else [])"

section \<open>Checking a credential\<close>

definition tag_matches :: "bytes \<Rightarrow> bytes \<Rightarrow> bool" where
  "tag_matches presented stored =
     (if length presented \<noteq> INTAKE_TAG_LEN \<or> length stored \<noteq> INTAKE_TAG_LEN then False
      else presented = stored)"

definition any_tag_matches :: "bytes \<Rightarrow> bytes list \<Rightarrow> bool" where
  "any_tag_matches presented stored =
     foldl (\<lambda>found candidate. tag_matches presented candidate \<or> found) False stored"

text \<open>
  The lookup per epoch: two round trips, both made before either is looked at.
\<close>

fun lookup_epochs ::
  "digests \<Rightarrow> 's kv \<Rightarrow> bytes \<Rightarrow> string \<Rightarrow> u64 list \<Rightarrow> bool \<Rightarrow> 's \<Rightarrow> 's \<times> IntakeCheck" where
  "lookup_epochs D K presented recipient [] any_published s =
     (s, Unrecognised (if any_published then NoMatch else NothingPublished))"
| "lookup_epochs D K presented recipient (epoch # epochs) any_published s =
     (let (s1, members) =
            round_trip K (\<lambda>s. (s, Some (kv_members K s (tag_key D recipient epoch)))) s;
          (s2, legacy) =
            round_trip K (\<lambda>s. (s, Some (kv_get K s (legacy_tag_key D recipient epoch)))) s1
      in case (members, legacy) of
           (Ok ms, Ok l) \<Rightarrow>
             (let stored = ms @ (case l of None \<Rightarrow> [] | Some v \<Rightarrow> [as_bytes v])
              in if any_tag_matches presented stored then (s2, Vouched)
                 else lookup_epochs D K presented recipient epochs
                        (any_published \<or> ms \<noteq> [] \<or> l \<noteq> None) s2)
         | _ \<Rightarrow> (s2, IntakeUnavailable))"

definition check_intake_credential ::
  "digests \<Rightarrow> 'x sealed_box \<Rightarrow> 's kv \<Rightarrow> 'x option \<Rightarrow> bytes \<Rightarrow> string \<Rightarrow> u64 \<Rightarrow> 's
     \<Rightarrow> 's \<times> IntakeCheck" where
  "check_intake_credential D X K server_secret intake_tag_sealed recipient_user_id now_unix s =
     (if intake_tag_sealed = [] then (s, Absent)
      else case server_secret of
        None \<Rightarrow> (s, Unrecognised NoServerKey)
      | Some secret \<Rightarrow>
          (case open_sealed_token_bytes X intake_tag_sealed secret of
             Err _ \<Rightarrow> (s, Unrecognised UnsealFailed)
           | Ok presented \<Rightarrow>
               if length presented \<noteq> INTAKE_TAG_LEN then (s, Unrecognised WrongLength)
               else lookup_epochs D K presented recipient_user_id
                      (acceptable_epochs (intake_epoch now_unix)) False s))"

section \<open>Publishing\<close>

record publishable_tag =
  pt_epoch :: u64
  pt_tag :: bytes
  pt_ttl :: u64

definition publishable_tags :: "(u64 \<times> bytes) list \<Rightarrow> u64 \<Rightarrow> publishable_tag list" where
  "publishable_tags entries now_unix =
     (let now_epoch = intake_epoch now_unix in
      List.map_filter (\<lambda>(epoch, tag).
          map_option (\<lambda>ttl. \<lparr>pt_epoch = epoch, pt_tag = tag, pt_ttl = ttl\<rparr>)
            (tag_ttl_seconds epoch now_epoch))
        (filter (\<lambda>(_, tag). length tag = INTAKE_TAG_LEN) (take MAX_PUBLISHED_EPOCHS entries)))"

text \<open>The loop of \<open>PUBLISH_SCRIPT\<close> over (set key, legacy key, tag, time to live).\<close>

fun publish_entries ::
  "'s kv \<Rightarrow> nat \<Rightarrow> bool \<Rightarrow> (key \<times> key \<times> bytes \<times> u64) list \<Rightarrow> key list \<Rightarrow> nat \<Rightarrow> 's
     \<Rightarrow> 's \<times> nat option" where
  "publish_entries K cap replace [] cleared accepted s = (s, Some accepted)"
| "publish_entries K cap replace ((set_key, legacy_key, tag, ttl) # rest) cleared accepted s =
     (let (s1, cleared1) =
            (if replace \<and> set_key \<notin> set cleared
             then (kv_del K (kv_del K s set_key) legacy_key, set_key # cleared)
             else (s, cleared))
      in if tag \<in> set (kv_members K s1 set_key) \<or> length (kv_members K s1 set_key) < cap
         then case kv_expire K (kv_sadd K s1 set_key tag) set_key (unat ttl) of
                None \<Rightarrow> (kv_sadd K s1 set_key tag, None)
              | Some s2 \<Rightarrow> publish_entries K cap replace rest cleared1 (accepted + 1) s2
         else publish_entries K cap replace rest cleared1 accepted s1)"

definition publish_script ::
  "'s kv \<Rightarrow> key \<Rightarrow> u32 \<Rightarrow> nat \<Rightarrow> (key \<times> key \<times> bytes \<times> u64) list \<Rightarrow> 's
     \<Rightarrow> 's \<times> (int \<times> nat \<times> int) option" where
  "publish_script K gen_key generation cap entries s =
     (case (case kv_get K s gen_key of None \<Rightarrow> Some 0 | Some v \<Rightarrow> parse_i64 v) of
        None \<Rightarrow> (s, None)
      | Some current \<Rightarrow>
          (if uint generation < current then (s, Some (current, 0, current))
           else
             let replace = uint generation > current;
                 s1 = (if replace then kv_set K s gen_key (show_int (uint generation))
                       else if uint generation > 0 then kv_persist K s gen_key
                       else s);
                 (s2, accepted) = publish_entries K cap replace entries [] 0 s1
             in (s2, map_option (\<lambda>n. (max current (uint generation), n, current)) accepted)))"

datatype PublishOutcome =
    FirstGeneration | Rotated | Added | AddedPreGeneration | RefusedPreGeneration | RefusedStale

definition publish_outcome :: "u32 \<Rightarrow> u32 \<Rightarrow> PublishOutcome" where
  "publish_outcome before sent =
     (if sent > before then (if before = 0 then FirstGeneration else Rotated)
      else if sent = before then (if before = 0 then AddedPreGeneration else Added)
      else if sent = 0 then RefusedPreGeneration else RefusedStale)"

definition as_u32 :: "int \<Rightarrow> u32 option" where
  "as_u32 i = (if 0 \<le> i \<and> i < 2 ^ 32 then Some (word_of_int i) else None)"

definition entry_of :: "digests \<Rightarrow> string \<Rightarrow> publishable_tag \<Rightarrow> key \<times> key \<times> bytes \<times> u64" where
  "entry_of D account t =
     (tag_key D account (pt_epoch t), legacy_tag_key D account (pt_epoch t), pt_tag t, pt_ttl t)"

definition publish_tags ::
  "digests \<Rightarrow> 's kv \<Rightarrow> string \<Rightarrow> u32 \<Rightarrow> publishable_tag list \<Rightarrow> 's
     \<Rightarrow> 's \<times> (unit, u32 \<times> u32 \<times> PublishOutcome) result" where
  "publish_tags D K account generation tags s =
     (let (s1, reply) = round_trip K
            (publish_script K (generation_key D account) generation MAX_TAGS_PER_EPOCH
               (map (entry_of D account) tags)) s
      in (s1, case reply of
                Err e \<Rightarrow> Err e
              | Ok (after, accepted, before) \<Rightarrow>
                  (case (as_u32 after, as_u32 (int accepted), as_u32 before) of
                     (Some a, Some n, Some b) \<Rightarrow> Ok (a, n, publish_outcome b generation)
                   | _ \<Rightarrow> Err ())))"

text \<open>The handler \<open>publish_intake_tags\<close>, for the authenticated account.\<close>

definition publish_intake_tags ::
  "digests \<Rightarrow> 's kv \<Rightarrow> string \<Rightarrow> u32 \<Rightarrow> (u64 \<times> bytes) list \<Rightarrow> u64 \<Rightarrow> 's
     \<Rightarrow> 's \<times> (unit, u32 \<times> u32) result" where
  "publish_intake_tags D K account generation entries now_unix s =
     (let (s1, r) = publish_tags D K account generation (publishable_tags entries now_unix) s
      in (s1, case r of Err e \<Rightarrow> Err e
                | Ok (current_generation, accepted, _) \<Rightarrow> Ok (accepted, current_generation)))"

definition intake_state ::
  "digests \<Rightarrow> 's kv \<Rightarrow> string \<Rightarrow> u64 \<Rightarrow> 's \<Rightarrow> 's \<times> (unit, u32 \<times> bool) result" where
  "intake_state D K account now_unix s =
     (let epoch = intake_epoch now_unix in
      round_trip K (\<lambda>s.
        (s, let tags = length (kv_members K s (tag_key D account epoch));
                legacy = (kv_get K s (legacy_tag_key D account epoch) \<noteq> None)
            in case kv_get K s (generation_key D account) of
                 None \<Rightarrow> Some (0, tags > 0 \<or> legacy)
               | Some v \<Rightarrow> (case parse_unsigned 32 v of
                             None \<Rightarrow> None
                           | Some g \<Rightarrow> Some (word_of_nat g, tags > 0 \<or> legacy)))) s)"

section \<open>Keys that stay apart\<close>

text \<open>
  Hexadecimal text has hexadecimal digits only, and the digests of one account's epochs do not
  collide.
\<close>

definition hex_digits :: "char set" where
  "hex_digits = set ''0123456789abcdef''"

definition digests_ok :: "digests \<Rightarrow> string \<Rightarrow> bool" where
  "digests_ok D account \<longleftrightarrow>
     (\<forall>b. set (dg_hex D b) \<subseteq> hex_digits) \<and>
     (\<forall>e e'. account_epoch_digest D account e = account_epoch_digest D account e' \<longrightarrow> e = e')"

lemma hex_not_prefixed:
  assumes "digests_ok D account"
  shows "dg_hex D b \<noteq> CHR ''v'' # xs" "dg_hex D b \<noteq> CHR ''g'' # xs"
proof -
  have "set (dg_hex D b) \<subseteq> hex_digits" using assms by (simp add: digests_ok_def)
  then show "dg_hex D b \<noteq> CHR ''v'' # xs" "dg_hex D b \<noteq> CHR ''g'' # xs"
    by (auto simp: hex_digits_def)
qed

lemma intake_keys_apart:
  assumes "digests_ok D account"
  shows "tag_key D account e = tag_key D account e' \<longleftrightarrow> e = e'"
    "legacy_tag_key D account e = legacy_tag_key D account e' \<longleftrightarrow> e = e'"
    "legacy_tag_key D account e \<noteq> tag_key D account e'"
    "tag_key D account e' \<noteq> legacy_tag_key D account e"
    "generation_key D account \<noteq> tag_key D account e"
    "generation_key D account \<noteq> legacy_tag_key D account e"
    "tag_key D account e \<noteq> generation_key D account"
    "legacy_tag_key D account e \<noteq> generation_key D account"
proof -
  note hex = hex_not_prefixed [OF assms]
  show "tag_key D account e = tag_key D account e' \<longleftrightarrow> e = e'"
    "legacy_tag_key D account e = legacy_tag_key D account e' \<longleftrightarrow> e = e'"
    using assms by (auto simp: tag_key_def legacy_tag_key_def digests_ok_def)
  show "legacy_tag_key D account e \<noteq> tag_key D account e'"
    "tag_key D account e' \<noteq> legacy_tag_key D account e"
    by (simp_all add: tag_key_def legacy_tag_key_def account_epoch_digest_def hex hex [symmetric])
  show "generation_key D account \<noteq> tag_key D account e"
    "tag_key D account e \<noteq> generation_key D account"
    by (simp_all add: generation_key_def tag_key_def)
  show "generation_key D account \<noteq> legacy_tag_key D account e"
    "legacy_tag_key D account e \<noteq> generation_key D account"
    by (simp_all add: generation_key_def legacy_tag_key_def account_epoch_digest_def hex hex [symmetric])
qed

section \<open>What a replacing publish stores\<close>

definition tags_for :: "publishable_tag list \<Rightarrow> u64 \<Rightarrow> bytes set" where
  "tags_for ts e = pt_tag ` {t \<in> set ts. pt_epoch t = e}"

definition replaced_at ::
  "digests \<Rightarrow> ('s \<Rightarrow> string view) \<Rightarrow> ('s \<Rightarrow> bytes set view) \<Rightarrow> string \<Rightarrow> nat \<Rightarrow> publishable_tag list
     \<Rightarrow> u64 \<Rightarrow> 's \<Rightarrow> bool" where
  "replaced_at D V W account now ts e s \<longleftrightarrow>
     V s (legacy_tag_key D account e) = None \<and>
     (\<exists>t \<in> set ts. pt_epoch t = e \<and>
        W s (tag_key D account e) = Some (tags_for ts e, Some (now + unat (pt_ttl t))))"

definition replaced ::
  "digests \<Rightarrow> 's kv \<Rightarrow> ('s \<Rightarrow> string view) \<Rightarrow> ('s \<Rightarrow> bytes set view) \<Rightarrow> string \<Rightarrow> 's
     \<Rightarrow> publishable_tag list \<Rightarrow> 's \<Rightarrow> bool" where
  "replaced D K V W account s0 ts s \<longleftrightarrow>
     kv_now K s = kv_now K s0 \<and>
     (\<forall>e. if e \<in> pt_epoch ` set ts then replaced_at D V W account (kv_now K s0) ts e s
          else W s (tag_key D account e) = W s0 (tag_key D account e) \<and>
               V s (legacy_tag_key D account e) = V s0 (legacy_tag_key D account e))"

lemma tags_for_snoc:
  "tags_for (ts @ [t]) e = (if pt_epoch t = e then insert (pt_tag t) (tags_for ts e) else tags_for ts e)"
  by (auto simp: tags_for_def)

lemma card_tags_for: "card (tags_for ts e) \<le> length ts"
proof -
  have "card (tags_for ts e) \<le> card {t \<in> set ts. pt_epoch t = e}"
    unfolding tags_for_def by (rule card_image_le) simp
  also have "\<dots> \<le> card (set ts)" by (rule card_mono) auto
  finally show ?thesis using card_length le_trans by blast
qed

lemma publish_entry_replaces:
  assumes K: "kv_ok K V W" and D: "digests_ok D account"
    and rep: "replaced D K V W account s0 done s"
    and live: "\<forall>t \<in> set done. 0 < pt_ttl t" and len: "length done < cap"
    and cleared: "set cleared = tag_key D account ` pt_epoch ` set done"
    and k: "k = tag_key D account (pt_epoch t)" and l: "l = legacy_tag_key D account (pt_epoch t)"
    and s1: "s1 = (if k \<notin> set cleared then kv_del K (kv_del K s k) l else s)"
  shows "length (kv_members K s1 k) < cap \<and>
    (\<forall>s2. kv_expire K (kv_sadd K s1 k (pt_tag t)) k (unat (pt_ttl t)) = Some s2 \<longrightarrow>
       replaced D K V W account s0 (done @ [t]) s2)"
proof -
  note apart = intake_keys_apart [OF D]
  have new: "k \<notin> set cleared \<longleftrightarrow> pt_epoch t \<notin> pt_epoch ` set done"
    using cleared k apart(1) by auto
  let ?e = "pt_epoch t" and ?S = "tags_for done (pt_epoch t)"
  have now: "kv_now K s = kv_now K s0" "kv_now K s1 = kv_now K s0"
    using rep by (simp_all add: replaced_def s1 kv_views [OF K])
  have others: "W s1 (tag_key D account e') = W s (tag_key D account e')"
    "V s1 (legacy_tag_key D account e') = V s (legacy_tag_key D account e')" if "e' \<noteq> ?e" for e'
    using that apart by (simp_all add: s1 k l kv_views [OF K])
  have mem: "set (kv_members K s1 k) = ?S \<and> distinct (kv_members K s1 k) \<and> V s1 l = None"
  proof (cases "?e \<in> pt_epoch ` set done")
    case True
    then have at: "replaced_at D V W account (kv_now K s0) done ?e s"
      using rep unfolding replaced_def by metis
    then obtain t' where t': "t' \<in> set done"
        "W s k = Some (?S, Some (kv_now K s0 + unat (pt_ttl t')))"
      by (auto simp: replaced_at_def k)
    have "0 < unat (pt_ttl t')" using live t'(1) by (simp add: word_less_nat_alt)
    then have "unexpired (kv_now K s) (Some (kv_now K s0 + unat (pt_ttl t')))"
      using now by simp
    from members_unexpired [OF K t'(2) this] at new True show ?thesis
      by (simp add: s1 replaced_at_def l)
  next
    case False
    then have "W s1 k = None" "V s1 l = None" using new by (simp_all add: s1 kv_views [OF K])
    moreover have "{t' \<in> set done. pt_epoch t' = ?e} = {}" using False
      by (metis (mono_tags, lifting) Collect_empty_eq imageI)
    then have "?S = {}" by (simp add: tags_for_def)
    ultimately show ?thesis using members_absent [OF K \<open>W s1 k = None\<close>] by simp
  qed
  then have "length (kv_members K s1 k) = card ?S" by (metis distinct_card)
  then have room: "length (kv_members K s1 k) < cap"
    using card_tags_for [of "done" ?e] len by linarith
  have "replaced D K V W account s0 (done @ [t]) s2"
    if s2: "kv_expire K (kv_sadd K s1 k (pt_tag t)) k (unat (pt_ttl t)) = Some s2" for s2
  proof -
    note ex = expire_views [OF K s2]
    have "\<exists>d. W (kv_sadd K s1 k (pt_tag t)) k = Some (insert (pt_tag t) ?S, d)"
      using mem by (auto simp: kv_views [OF K])
    then have "W s2 k = Some (insert (pt_tag t) ?S, Some (kv_now K s0 + unat (pt_ttl t)))"
      using now by (auto simp: ex kv_views(15) [OF K])
    moreover have "V s2 l = None" using mem apart(3) by (simp add: ex kv_views [OF K] k l)
    ultimately have this_epoch: "replaced_at D V W account (kv_now K s0) (done @ [t]) ?e s2"
      by (auto simp: replaced_at_def k l tags_for_snoc)
    show ?thesis
      unfolding replaced_def
    proof (intro conjI allI)
      show "kv_now K s2 = kv_now K s0" using now by (simp add: ex kv_views [OF K])
      fix e'
      have keep: "W s2 (tag_key D account e') = W s (tag_key D account e')"
        "V s2 (legacy_tag_key D account e') = V s (legacy_tag_key D account e')" if "e' \<noteq> ?e"
        using others [OF that] that apart by (simp_all add: ex kv_views [OF K] k)
      show "if e' \<in> pt_epoch ` set (done @ [t])
          then replaced_at D V W account (kv_now K s0) (done @ [t]) e' s2
          else W s2 (tag_key D account e') = W s0 (tag_key D account e') \<and>
            V s2 (legacy_tag_key D account e') = V s0 (legacy_tag_key D account e')"
      proof (cases "e' = ?e")
        case False
        have "if e' \<in> pt_epoch ` set done then replaced_at D V W account (kv_now K s0) done e' s
            else W s (tag_key D account e') = W s0 (tag_key D account e') \<and>
                 V s (legacy_tag_key D account e') = V s0 (legacy_tag_key D account e')"
          using rep unfolding replaced_def by blast
        with False keep [OF False] show ?thesis
          by (auto simp: replaced_at_def tags_for_snoc split: if_splits)
      qed (use this_epoch in simp)
    qed
  qed
  with room show ?thesis by blast
qed

lemma publish_entries_replaces:
  assumes K: "kv_ok K V W" and D: "digests_ok D account"
    and "replaced D K V W account s0 done s"
    and "\<forall>t \<in> set (done @ rest). 0 < pt_ttl t" and "length (done @ rest) \<le> cap"
    and "set cleared = tag_key D account ` pt_epoch ` set done"
    and "publish_entries K cap True (map (entry_of D account) rest) cleared acc s = (s', Some n)"
  shows "replaced D K V W account s0 (done @ rest) s' \<and> n = acc + length rest"
  using assms(3-)
proof (induction rest arbitrary: "done" cleared acc s)
  case (Cons t rest)
  define k where "k = tag_key D account (pt_epoch t)"
  define l where "l = legacy_tag_key D account (pt_epoch t)"
  define s1 where "s1 = (if k \<notin> set cleared then kv_del K (kv_del K s k) l else s)"
  define cleared1 where "cleared1 = (if k \<notin> set cleared then k # cleared else cleared)"
  have ent: "entry_of D account t = (k, l, pt_tag t, pt_ttl t)"
    by (simp add: entry_of_def k_def l_def)
  have live: "\<forall>t \<in> set done. 0 < pt_ttl t" and len: "length done < cap"
    using Cons.prems(2,3) by auto
  note step = publish_entry_replaces [OF K D Cons.prems(1) live len Cons.prems(4) k_def l_def s1_def]
  obtain s2 where s2: "kv_expire K (kv_sadd K s1 k (pt_tag t)) k (unat (pt_ttl t)) = Some s2"
    and rest: "publish_entries K cap True (map (entry_of D account) rest) cleared1 (acc + 1) s2
      = (s', Some n)"
    using Cons.prems(5) step
    by (cases "k \<in> set cleared") (auto simp: ent s1_def cleared1_def split: option.splits)
  have cl: "set cleared1 = tag_key D account ` pt_epoch ` set (done @ [t])"
    using Cons.prems(4) by (auto simp: cleared1_def k_def)
  have "replaced D K V W account s0 (done @ [t]) s2" using step s2 by blast
  from Cons.IH [OF this _ _ cl rest] Cons.prems(2,3) show ?case by simp
qed simp

text \<open>A publish above the account's generation replaces the epochs it names and no others.\<close>

lemma publish_outcome_replaces:
  "publish_outcome before sent \<in> {FirstGeneration, Rotated} \<longleftrightarrow> before < sent"
  by (auto simp: publish_outcome_def)

lemma publish_tags_replaces:
  assumes K: "kv_ok K V W" and D: "digests_ok D account"
    and run: "publish_tags D K account g tags s = (s', Ok (after, n, oc))"
    and oc: "oc \<in> {FirstGeneration, Rotated}"
    and tags: "\<forall>t \<in> set tags. 0 < pt_ttl t" "length tags \<le> MAX_TAGS_PER_EPOCH"
  shows "kv_now K s \<le> kv_now K s' \<and>
    (\<forall>e. if e \<in> pt_epoch ` set tags then replaced_at D V W account (kv_now K s') tags e s'
         else W s' (tag_key D account e) = W s (tag_key D account e) \<and>
              V s' (legacy_tag_key D account e) = V s (legacy_tag_key D account e))"
proof -
  let ?entries = "map (entry_of D account) tags" and ?gk = "generation_key D account"
  let ?script = "publish_script K ?gk g MAX_TAGS_PER_EPOCH ?entries"
  note apart = intake_keys_apart [OF D]
  obtain reply where rt: "round_trip K ?script s = (s', reply)"
    using run by (auto simp: publish_tags_def Let_def split: prod.splits)
  from run rt obtain a acc b w where reply: "reply = Ok (a, acc, b)"
    and w: "as_u32 b = Some w" and "oc = publish_outcome w g"
    by (auto simp: publish_tags_def Let_def split: sum.splits option.splits)
  with oc have "w < g" by (metis publish_outcome_replaces)
  with w have less: "b < uint g"
    by (auto simp: as_u32_def word_less_def uint_word_of_int take_bit_eq_mod split: if_splits)
  show ?thesis
  proof (rule round_trip_cases [OF K rt])
    fix s0 x
    assume s0: "V s0 = V s" "W s0 = W s" "kv_now K s \<le> kv_now K s0"
      and sc: "?script s0 = (s', Some x)" and x: "reply = Ok x"
    define s1 where "s1 = kv_set K s0 ?gk (show_int (uint g))"
    from sc x reply obtain m where
        pe: "publish_entries K MAX_TAGS_PER_EPOCH True ?entries [] 0 s1 = (s', Some m)"
      using less by (auto simp: publish_script_def s1_def Let_def split: option.splits if_splits prod.splits)
    have "replaced D K V W account s1 [] s1" by (simp add: replaced_def)
    from publish_entries_replaces [OF K D this _ _ _ pe] tags
    have rep: "replaced D K V W account s1 tags s'" by simp
    have now: "kv_now K s' = kv_now K s1" and "kv_now K s1 = kv_now K s0"
      using rep by (simp_all add: replaced_def s1_def kv_views [OF K])
    moreover have "W s1 (tag_key D account e) = W s (tag_key D account e) \<and>
        V s1 (legacy_tag_key D account e) = V s (legacy_tag_key D account e)" for e
      using apart(5) apart(6) [of e] s0 by (auto simp: s1_def kv_views [OF K])
    ultimately show ?thesis using rep s0(3) unfolding replaced_def by metis
  qed (use reply in simp_all)
qed

section \<open>What a check sees\<close>

lemma any_tag_matches_iff:
  "any_tag_matches p stored \<longleftrightarrow> length p = INTAKE_TAG_LEN \<and> p \<in> set stored"
proof -
  have "foldl (\<lambda>found c. tag_matches p c \<or> found) b stored \<longleftrightarrow>
      b \<or> (length p = INTAKE_TAG_LEN \<and> p \<in> set stored)" for b
    by (induction stored arbitrary: b) (auto simp: tag_matches_def)
  then show ?thesis by (simp add: any_tag_matches_def)
qed

lemma tag_key_canonical:
  "canonical_account r = canonical_account a \<Longrightarrow> tag_key D r e = tag_key D a e"
  "canonical_account r = canonical_account a \<Longrightarrow> legacy_tag_key D r e = legacy_tag_key D a e"
  by (simp_all add: tag_key_def legacy_tag_key_def account_epoch_digest_def)

lemma read_keeps:
  assumes "kv_ok K V W" and "round_trip K (\<lambda>s. (s, f s)) s = (s', r)"
  shows "V s' = V s \<and> W s' = W s \<and> kv_now K s \<le> kv_now K s' \<and> (\<forall>a. r = Ok a \<longrightarrow> f s' = Some a)"
  by (rule round_trip_cases [OF assms]) auto

lemma lookup_epochs_sound:
  assumes K: "kv_ok K V W"
  shows "lookup_epochs D K p r es b s = (s', Vouched) \<Longrightarrow>
    \<exists>e \<in> set es. (\<exists>m d. W s (tag_key D r e) = Some (m, d) \<and> p \<in> m) \<or>
      (\<exists>v d. V s (legacy_tag_key D r e) = Some (v, d) \<and> p = as_bytes v)"
proof (induction es arbitrary: b s)
  case (Cons e es)
  obtain s1 ms where m: "round_trip K (\<lambda>s. (s, Some (kv_members K s (tag_key D r e)))) s = (s1, ms)"
    by fastforce
  obtain s2 l where l: "round_trip K (\<lambda>s. (s, Some (kv_get K s (legacy_tag_key D r e)))) s1 = (s2, l)"
    by fastforce
  note rm = read_keeps [OF K m] and rl = read_keeps [OF K l]
  from Cons.prems m l obtain ms' l' where ok: "ms = Ok ms'" "l = Ok l'"
    by (auto split: sum.splits)
  define stored where "stored = ms' @ (case l' of None \<Rightarrow> [] | Some v \<Rightarrow> [as_bytes v])"
  show ?case
  proof (cases "any_tag_matches p stored")
    case True
    then have "p \<in> set ms' \<or> (\<exists>v. l' = Some v \<and> p = as_bytes v)"
      by (auto simp: any_tag_matches_iff stored_def split: option.splits)
    then show ?thesis
    proof
      assume "p \<in> set ms'"
      then have "p \<in> set (kv_members K s1 (tag_key D r e))" using rm ok by simp
      from members_subset [OF K this] rm show ?thesis by auto
    next
      assume "\<exists>v. l' = Some v \<and> p = as_bytes v"
      then obtain v where "kv_get K s2 (legacy_tag_key D r e) = Some v" "p = as_bytes v"
        using rl ok by auto
      with get_someD [OF K this(1)] rm rl show ?thesis by auto
    qed
  next
    case False
    with Cons.prems m l ok have "lookup_epochs D K p r es (b \<or> ms' \<noteq> [] \<or> l' \<noteq> None) s2 = (s', Vouched)"
      by (simp add: Let_def flip: stored_def)
    from Cons.IH [OF this] rm rl show ?thesis by auto
  qed
qed simp

lemma lookup_epochs_now:
  assumes K: "kv_ok K V W"
  shows "lookup_epochs D K p r es b s = (s', c) \<Longrightarrow> kv_now K s \<le> kv_now K s'"
proof (induction es arbitrary: b s)
  case (Cons e es)
  obtain s1 ms where m: "round_trip K (\<lambda>s. (s, Some (kv_members K s (tag_key D r e)))) s = (s1, ms)"
    by fastforce
  obtain s2 l where l: "round_trip K (\<lambda>s. (s, Some (kv_get K s (legacy_tag_key D r e)))) s1 = (s2, l)"
    by fastforce
  from Cons.prems m l have "s' = s2 \<or> (\<exists>b. lookup_epochs D K p r es b s2 = (s', c))"
    by (auto simp: Let_def split: sum.splits if_splits)
  with Cons.IH read_keeps [OF K m] read_keeps [OF K l] show ?case by fastforce
qed simp

lemma unexpired_mono: "unexpired t d \<Longrightarrow> t' \<le> t \<Longrightarrow> unexpired t' d"
  by (cases d) auto

lemma lookup_epochs_complete:
  assumes K: "kv_ok K V W" and p: "length p = INTAKE_TAG_LEN" "p \<in> m"
  shows "lookup_epochs D K p r es b s = (s', c) \<Longrightarrow> e \<in> set es \<Longrightarrow>
    W s (tag_key D r e) = Some (m, d) \<Longrightarrow> unexpired (kv_now K s') d \<Longrightarrow>
    c = Vouched \<or> c = IntakeUnavailable"
proof (induction es arbitrary: b s)
  case (Cons e' es)
  obtain s1 ms where m: "round_trip K (\<lambda>s. (s, Some (kv_members K s (tag_key D r e')))) s = (s1, ms)"
    by fastforce
  obtain s2 l where l: "round_trip K (\<lambda>s. (s, Some (kv_get K s (legacy_tag_key D r e')))) s1 = (s2, l)"
    by fastforce
  note rm = read_keeps [OF K m] and rl = read_keeps [OF K l]
  show ?case
  proof (cases "\<exists>ms' l'. ms = Ok ms' \<and> l = Ok l'")
    case False
    with Cons.prems(1) m l show ?thesis by (auto split: sum.splits)
  next
    case True
    then obtain ms' l' where ok: "ms = Ok ms'" "l = Ok l'" by blast
    define stored where "stored = ms' @ (case l' of None \<Rightarrow> [] | Some v \<Rightarrow> [as_bytes v])"
    show ?thesis
    proof (cases "any_tag_matches p stored")
      case True
      with Cons.prems(1) m l ok show ?thesis by (simp add: Let_def flip: stored_def)
    next
      case no: False
      with Cons.prems(1) m l ok
      have rest: "lookup_epochs D K p r es (b \<or> ms' \<noteq> [] \<or> l' \<noteq> None) s2 = (s', c)"
        by (simp add: Let_def flip: stored_def)
      have "e \<noteq> e'"
      proof
        assume "e = e'"
        have "unexpired (kv_now K s1) d"
          using Cons.prems(4) lookup_epochs_now [OF K rest] rl by (auto elim: unexpired_mono)
        with members_unexpired [OF K, of s1 "tag_key D r e'" m d] Cons.prems(3) rm \<open>e = e'\<close>
        have "set (kv_members K s1 (tag_key D r e')) = m" by simp
        with rm ok(1) p no show False by (simp add: any_tag_matches_iff stored_def)
      qed
      with Cons.prems(2-4) rm rl show ?thesis by (intro Cons.IH [OF rest]) auto
    qed
  qed
qed simp

section \<open>Rotation\<close>

lemma publishable_ttl:
  assumes "t \<in> set (publishable_tags entries now)"
  shows "tag_ttl_seconds (pt_epoch t) (intake_epoch now) = Some (pt_ttl t) \<and>
    length (pt_tag t) = INTAKE_TAG_LEN \<and> (pt_epoch t, pt_tag t) \<in> set entries"
  using assms
  by (auto simp: publishable_tags_def map_filter_def Let_def dest: in_set_takeD split: option.splits)

lemma publishable_length: "length (publishable_tags entries now) \<le> MAX_PUBLISHED_EPOCHS"
proof -
  have "length (List.map_filter f xs) \<le> length xs" for f :: "u64 \<times> bytes \<Rightarrow> publishable_tag option" and xs
    by (simp add: map_filter_def)
  then have "length (publishable_tags entries now)
      \<le> length (filter (\<lambda>(_, tag). length tag = INTAKE_TAG_LEN) (take MAX_PUBLISHED_EPOCHS entries))"
    by (simp add: publishable_tags_def Let_def)
  also have "\<dots> \<le> length (take MAX_PUBLISHED_EPOCHS entries)" by (rule length_filter_le)
  finally show ?thesis by simp
qed

text \<open>Epochs within reason have a time to live that did not wrap.\<close>

lemma tag_ttl_exact:
  assumes "tag_ttl_seconds e now = Some ttl" and "e < 2 ^ 40"
  shows "unat now \<le> unat e + 1 \<and> unat ttl = (unat e + 2 - unat now) * 86400"
proof -
  have small: "unat e < 2 ^ 40" using assms(2) by (simp add: word_less_nat_alt)
  have e1: "unat (e + 1) = unat e + 1"
    using small unat_add_lem [of e 1] by simp
  have e2: "unat (e + 1 + 1) = unat e + 2"
    using small e1 unat_add_lem [of "e + 1" 1] by simp
  from assms(1) have now: "now \<le> e + 1" and ttl: "ttl = (e + 1 + 1 - now) * 86400"
    by (auto simp: tag_ttl_seconds_def INTAKE_TAG_GRACE_EPOCHS_def INTAKE_EPOCH_SECONDS_def Let_def
        split: if_splits)
  have now': "unat now \<le> unat e + 1" using now e1 by (simp add: word_le_nat_alt)
  then have "unat (e + 1 + 1 - now) = unat e + 2 - unat now"
    using e2 unat_sub [of now "e + 1 + 1"] by (simp add: word_le_nat_alt)
  moreover have "(unat e + 2 - unat now) * 86400 < 2 ^ 64" using small by simp
  ultimately have "unat ttl = (unat e + 2 - unat now) * 86400"
    using unat_mult_lem [of "e + 1 + 1 - now" 86400] by (simp add: ttl)
  with now' show ?thesis by simp
qed

lemma publishable_live:
  assumes "\<forall>(e, _) \<in> set entries. e < 2 ^ 40"
  shows "\<forall>t \<in> set (publishable_tags entries now). 0 < pt_ttl t"
proof
  fix t
  assume t: "t \<in> set (publishable_tags entries now)"
  from publishable_ttl [OF t] assms tag_ttl_exact [of "pt_epoch t" "intake_epoch now" "pt_ttl t"]
  have "0 < unat (pt_ttl t)" by auto
  then show "0 < pt_ttl t" by (simp add: word_less_nat_alt)
qed


text \<open>Hexadecimal text of the bytes themselves, for evaluating the model.\<close>

definition hex_symbol :: "nat \<Rightarrow> char" where
  "hex_symbol n = ''0123456789abcdef'' ! n"

definition hex_byte :: "8 word \<Rightarrow> string" where
  "hex_byte w = [hex_symbol (unat w div 16), hex_symbol (unat w mod 16)]"

definition sample_digests :: digests where
  "sample_digests = \<lparr>dg_sha256 = (\<lambda>b. b), dg_hex = (\<lambda>b. concat (map hex_byte b))\<rparr>"

lemma hex_symbol_inj: "m < 16 \<Longrightarrow> n < 16 \<Longrightarrow> hex_symbol m = hex_symbol n \<longleftrightarrow> m = n"
  unfolding hex_symbol_def by (subst nth_eq_iff_index_eq) simp_all

lemma unat_byte: "unat (w :: 8 word) < 256"
  using unsigned_less [where 'a = nat, of w] by simp

lemma hex_byte_length: "length (hex_byte w) = 2"
  by (simp add: hex_byte_def)

lemma hex_byte_inj: "hex_byte v = hex_byte w \<longleftrightarrow> v = w"
proof
  assume eq: "hex_byte v = hex_byte w"
  have "unat v div 16 < 16" "unat w div 16 < 16" using unat_byte [of v] unat_byte [of w] by auto
  with eq have "unat v div 16 = unat w div 16" "unat v mod 16 = unat w mod 16"
    by (simp_all add: hex_byte_def hex_symbol_inj)
  then have "unat v = unat w" by (metis div_mult_mod_eq)
  then show "v = w" by (simp add: word_unat_eq_iff)
qed simp

lemma hex_text_inj: "concat (map hex_byte b) = concat (map hex_byte c) \<longleftrightarrow> b = c"
proof
  assume "concat (map hex_byte b) = concat (map hex_byte c)"
  then show "b = c"
  proof (induction b arbitrary: c)
    case Nil
    then show ?case by (cases c) (simp_all add: hex_byte_def)
  next
    case (Cons v b)
    then obtain w c' where c: "c = w # c'" by (cases c) (simp_all add: hex_byte_def)
    with Cons.prems have "hex_byte v = hex_byte w" "concat (map hex_byte b) = concat (map hex_byte c')"
      by (simp_all add: append_eq_append_conv hex_byte_length)
    with Cons.IH c show ?case by (simp add: hex_byte_inj)
  qed
qed simp

lemma sample_digests_ok: "digests_ok sample_digests account"
proof -
  have "hex_symbol n \<in> hex_digits" if "n < 16" for n
    unfolding hex_symbol_def hex_digits_def using that by (intro nth_mem) simp
  then have "set (hex_byte w) \<subseteq> hex_digits" for w
    using unat_byte [of w] by (simp add: hex_byte_def)
  then show ?thesis
    by (auto simp: digests_ok_def sample_digests_def account_epoch_digest_def hex_text_inj)
qed

definition sample_box :: "bytes \<Rightarrow> unit sealed_box" where
  "sample_box plain = \<lparr>diffie_hellman = (\<lambda>_ b. b), hkdf_sha256 = (\<lambda>ikm info n. Some ikm),
     chacha_decrypt = (\<lambda>k n c. Some plain)\<rparr>"

lemma sample_box_opens:
  "open_sealed_token_bytes (sample_box plain) (replicate 60 0) () = Ok plain"
  by (simp add: open_sealed_token_bytes_def sample_box_def)

lemmas intake_eval = publish_script_def publish_intake_tags_def publish_tags_def publish_outcome_def
  publishable_tags_def map_filter_simps entry_of_def tag_ttl_seconds_def intake_epoch_def
  acceptable_epochs_def check_intake_credential_def any_tag_matches_iff as_u32_def
  round_trip_def INTAKE_TAG_LEN_def INTAKE_EPOCH_SECONDS_def INTAKE_TAG_GRACE_EPOCHS_def
  MAX_PUBLISHED_EPOCHS_def MAX_TAGS_PER_EPOCH_def


section \<open>A publish that fails half way\<close>

text \<open>
  C33. A publish is not all or nothing. When an account without a generation publishes a tag for an
  epoch so far ahead that its time to live is out of Redis' range, the caller is told that the
  store is unavailable, yet the account's generation has been raised and the tag is stored without
  a time to live.
\<close>

theorem far_epoch_half_lands:
  assumes K: "kv_ok K V W" and D: "digests_ok D account" and up: "kv_link K s = (s0, Up)"
    and fresh: "V s (generation_key D account) = None" and gen: "0 < generation"
    and tag: "length tag = INTAKE_TAG_LEN"
    and ttl: "tag_ttl_seconds e (intake_epoch now) = Some ttl" "2 ^ 54 \<le> unat ttl"
  shows "let (s', r) = publish_intake_tags D K account generation [(e, tag)] now s
         in r = Err () \<and>
            V s' (generation_key D account) = Some (show_int (uint generation), None) \<and>
            W s' (tag_key D account e) = Some ({tag}, None)"
proof -
  let ?gk = "generation_key D account" and ?k = "tag_key D account e" and
    ?l = "legacy_tag_key D account e"
  note apart = intake_keys_apart [OF D]
  have s0: "V s0 = V s" "W s0 = W s"
    using kv_okD(1) [OF K] up unfolding link_ok_def by (metis fst_conv)+
  have get: "kv_get K s0 ?gk = None" using get_absent [OF K] fresh s0 by simp
  have tags: "publishable_tags [(e, tag)] now = [\<lparr>pt_epoch = e, pt_tag = tag, pt_ttl = ttl\<rparr>]"
    using tag ttl(1) by (simp add: publishable_tags_def map_filter_simps MAX_PUBLISHED_EPOCHS_def)
  have pos: "uint generation > 0" using gen by (simp add: word_less_def)
  define s1 where "s1 = kv_set K s0 ?gk (show_int (uint generation))"
  define s2 where "s2 = kv_del K (kv_del K s1 ?k) ?l"
  define s3 where "s3 = kv_sadd K s2 ?k tag"
  have "W s2 ?k = None" by (simp add: s2_def kv_views [OF K])
  from members_absent [OF K this] have none: "kv_members K s2 ?k = []" .
  have "publish_entries K MAX_TAGS_PER_EPOCH True [(?k, ?l, tag, ttl)] [] 0 s1 = (s3, None)"
    using none expire_refused [OF K ttl(2)]
    by (simp add: MAX_TAGS_PER_EPOCH_def s3_def flip: s2_def)
  then have "publish_intake_tags D K account generation [(e, tag)] now s = (s3, Err ())"
    using pos
    by (simp add: publish_intake_tags_def publish_tags_def tags entry_of_def round_trip_def up
        publish_script_def get flip: s1_def)
  moreover have "V s3 ?gk = Some (show_int (uint generation), None)"
    using apart by (simp add: s3_def s2_def s1_def kv_views [OF K])
  moreover have "W s3 ?k = Some ({tag}, None)" using none by (simp add: s3_def kv_views [OF K])
  ultimately show ?thesis by simp
qed

theorem far_epoch_half_lands_witness:
  "let (s', r) = publish_intake_tags sample_digests sample_kv ''a'' 1 [(2 ^ 44, replicate 16 1)]
             864000 (empty_store 0 [])
   in r = Err () \<and>
      ss_strings s' (generation_key sample_digests ''a'') = Some (show_int (uint (1 :: u32)), None) \<and>
      ss_set_view s' (tag_key sample_digests ''a'' (2 ^ 44)) = Some ({replicate 16 1}, None)"
  by (rule far_epoch_half_lands [OF sample_kv_ok sample_digests_ok,
      where s0 = "empty_store 0 []" and ttl = "((2 ^ 44 + 1) + 1 - 10) * 86400"])
    (simp_all add: sample_kv_eval intake_eval)

end
