(* ===== verification/Claims.thy ===== *)
theory Claims
  imports Kv
begin

text \<open>
  The interface of the guards that let something happen once: an id is claimed by writing keys with
  a time to live, a second claim is refused while the lasting one of them is there, and a claim is
  released when what it was for failed. The replay cache of sealed messages and the claims of
  federated message ids provide it; the handlers rely on it.
\<close>

definition held_until :: "('s \<Rightarrow> string view) \<Rightarrow> key \<Rightarrow> nat \<Rightarrow> 's \<Rightarrow> bool" where
  "held_until V k t s \<longleftrightarrow> (\<exists>v d. V s k = Some (v, Some d) \<and> t \<le> d)"

definition vacant :: "('s \<Rightarrow> string view) \<Rightarrow> ('s \<Rightarrow> bytes set view) \<Rightarrow> key set \<Rightarrow> 's \<Rightarrow> bool" where
  "vacant V W ks s \<longleftrightarrow> (\<forall>k \<in> ks. V s k = None \<and> W s k = None)"

text \<open>A step keeps a key when it leaves what the key holds alone and does not turn the clock back.\<close>

definition keeps_key ::
    "'s kv \<Rightarrow> ('s \<Rightarrow> string view) \<Rightarrow> ('s \<Rightarrow> bytes set view) \<Rightarrow> key \<Rightarrow> 's \<Rightarrow> 's \<Rightarrow> bool" where
  "keeps_key K V W k s s' \<longleftrightarrow> V s' k = V s k \<and> W s' k = W s k \<and> kv_now K s \<le> kv_now K s'"

lemma held_until_mono: "held_until V k t s \<Longrightarrow> t' \<le> t \<Longrightarrow> held_until V k t' s"
  unfolding held_until_def by (blast intro: le_trans)

lemma held_until_kept: "held_until V k t s \<Longrightarrow> V s' k = V s k \<Longrightarrow> held_until V k t s'"
  by (simp add: held_until_def)

lemma vacant_kept:
  "vacant V W ks s \<Longrightarrow> (\<And>k. k \<in> ks \<Longrightarrow> V s' k = V s k \<and> W s' k = W s k) \<Longrightarrow> vacant V W ks s'"
  by (simp add: vacant_def)

lemma keeps_refl [simp]: "keeps_key K V W k s s"
  by (simp add: keeps_key_def)

lemma keeps_trans: "keeps_key K V W k s s' \<Longrightarrow> keeps_key K V W k s' s'' \<Longrightarrow> keeps_key K V W k s s''"
  by (simp add: keeps_key_def)

lemma round_trip_keeps_key:
  assumes K: "kv_ok K V W" and run: "round_trip K script s = (s', a)"
    and script: "\<And>s. keeps_key K V W k s (fst (script s))"
  shows "keeps_key K V W k s s'"
proof (rule round_trip_cases [OF K run])
  fix s0
  assume "V s0 = V s" "W s0 = W s" "kv_now K s \<le> kv_now K s0" "s' = fst (script s0)"
  with script [of s0] show ?thesis by (simp add: keeps_key_def)
next
  fix s0 b
  assume "V s0 = V s" "W s0 = W s" "kv_now K s \<le> kv_now K s0" "script s0 = (s', Some b)"
  with script [of s0] show ?thesis by (simp add: keeps_key_def)
qed (simp add: keeps_key_def)

section \<open>The interface\<close>

locale claims =
  fixes claim :: "'c \<Rightarrow> 's kv \<Rightarrow> 'i \<Rightarrow> 's \<Rightarrow> 's \<times> (unit, bool) result"
    and release :: "'c \<Rightarrow> 's kv \<Rightarrow> 'i \<Rightarrow> 's \<Rightarrow> 's \<times> (unit, unit) result"
    and mark :: "'c \<Rightarrow> 'i \<Rightarrow> key"
    and marks :: "'c \<Rightarrow> 'i \<Rightarrow> key set"
    and lifetime :: nat
  assumes mark_in: "mark c i \<in> marks c i"
    and claim_holds: "kv_ok K V W \<Longrightarrow> claim c K i s = (s', Ok True) \<Longrightarrow>
      held_until V (mark c i) (kv_now K s + lifetime) s'"
    and claim_refused: "kv_ok K V W \<Longrightarrow> held_until V (mark c i) t s \<Longrightarrow> claim c K i s = (s', Ok b) \<Longrightarrow>
      kv_now K s' < t \<Longrightarrow> \<not> b"
    and claim_vacant: "kv_ok K V W \<Longrightarrow> vacant V W (marks c i) s \<Longrightarrow> claim c K i s = (s', Ok b) \<Longrightarrow> b"
    and claim_keeps: "kv_ok K V W \<Longrightarrow> claim c K i s = (s', r) \<Longrightarrow> k \<notin> marks c i \<Longrightarrow> keeps_key K V W k s s'"
    and claim_clock: "kv_ok K V W \<Longrightarrow> claim c K i s = (s', r) \<Longrightarrow> kv_now K s \<le> kv_now K s'"
    and claim_answers: "kv_link K s = (s0, Up) \<Longrightarrow> snd (claim c K i s) \<noteq> Err ()"
    and release_vacates: "kv_ok K V W \<Longrightarrow> release c K i s = (s', Ok ()) \<Longrightarrow> vacant V W (marks c i) s'"
    and release_keeps: "kv_ok K V W \<Longrightarrow> release c K i s = (s', q) \<Longrightarrow> k \<notin> marks c i \<Longrightarrow> keeps_key K V W k s s'"
    and release_clock: "kv_ok K V W \<Longrightarrow> release c K i s = (s', q) \<Longrightarrow> kv_now K s \<le> kv_now K s'"
    and release_answers: "kv_link K s = (s0, Up) \<Longrightarrow> snd (release c K i s) = Ok ()"
begin

text \<open>
  A second claim that ends within the lifetime of the first is refused, whatever happened to the
  store in between as long as the mark stayed.
\<close>

lemma second_claim_refused:
  assumes "kv_ok K V W" and "claim c K i s = (s1, Ok True)"
    and "V s2 (mark c i) = V s1 (mark c i)" and "claim c K i s2 = (s3, Ok b)"
    and "kv_now K s3 < kv_now K s + lifetime"
  shows "\<not> b"
  using claim_refused [OF assms(1) held_until_kept [OF claim_holds [OF assms(1,2)] assms(3)] assms(4,5)] .

text \<open>After a release the next claim that is answered is granted.\<close>

lemma released_claim_granted:
  assumes "kv_ok K V W" and "release c K i s = (s1, Ok ())"
    and "\<And>k. k \<in> marks c i \<Longrightarrow> V s2 k = V s1 k \<and> W s2 k = W s1 k" and "claim c K i s2 = (s3, Ok b)"
  shows b
  using claim_vacant [OF assms(1) vacant_kept [OF release_vacates [OF assms(1,2)] assms(3)] assms(4)] .

end

section \<open>Answers\<close>

lemma round_trip_up:
  assumes "kv_link K s = (s0, Up)" and "snd (script s0) = Some a"
  shows "snd (round_trip K script s) = Ok a"
  using assms by (cases "script s0") (simp add: round_trip_def)

lemma exists_unexpired:
  assumes "kv_ok K V W" and "held_until V k t s" and "kv_now K s < t"
  shows "kv_get K s k \<noteq> None"
  using assms get_unexpired [OF assms(1)] unfolding held_until_def by fastforce

end
