(* ===== verification/Delivery_Tag.thy ===== *)
theory Delivery_Tag
  imports Intake Claims
begin

text \<open>
  The replay cache of sealed messages: \<open>messaging-service/src/spent_tag.rs\<close>. A delivery tag is
  marked under two keys, for five minutes and for a day, in one script that also reads them; a
  failed dispatch takes both marks back.
\<close>

definition EXACT_TTL_SECS :: nat where "EXACT_TTL_SECS = 300"
definition SEEN_TTL_SECS :: nat where "SEEN_TTL_SECS = 86400"

datatype DeliveryTagStatus = NewTag | ExactCacheHit | SeenCacheHit

definition exact_key :: "digests \<Rightarrow> bytes \<Rightarrow> key" where
  "exact_key D tag = ''sealed:exact:'' @ dg_hex D (dg_sha256 D tag)"

definition seen_key :: "digests \<Rightarrow> bytes \<Rightarrow> key" where
  "seen_key D tag = ''sealed:seen:'' @ dg_hex D (dg_sha256 D tag)"

text \<open>\<open>EXISTS\<close> counts a key of any type.\<close>

definition kv_exists :: "'s kv \<Rightarrow> 's \<Rightarrow> key \<Rightarrow> bool" where
  "kv_exists K s k \<longleftrightarrow> kv_get K s k \<noteq> None \<or> kv_members K s k \<noteq> []"

definition tag_script :: "'s kv \<Rightarrow> key \<Rightarrow> key \<Rightarrow> nat \<Rightarrow> nat \<Rightarrow> 's \<Rightarrow> 's \<times> int option" where
  "tag_script K exact seen exact_ttl seen_ttl s =
     (if kv_exists K s exact then (s, Some 1)
      else if kv_exists K s seen then (s, Some 2)
      else (kv_set_ex K (kv_set_ex K s exact ''1'' exact_ttl) seen ''1'' seen_ttl, Some 0))"

definition check_and_mark_delivery_tag ::
  "digests \<Rightarrow> 's kv \<Rightarrow> bytes \<Rightarrow> 's \<Rightarrow> 's \<times> (unit, DeliveryTagStatus) result" where
  "check_and_mark_delivery_tag D K delivery_tag s =
     (let (s1, result) = round_trip K
            (tag_script K (exact_key D delivery_tag) (seen_key D delivery_tag)
               EXACT_TTL_SECS SEEN_TTL_SECS) s
      in (s1, case result of
                Err e \<Rightarrow> Err e
              | Ok n \<Rightarrow> Ok (if n = 1 then ExactCacheHit else if n = 2 then SeenCacheHit else NewTag)))"

definition unmark_delivery_tag ::
  "digests \<Rightarrow> 's kv \<Rightarrow> bytes \<Rightarrow> 's \<Rightarrow> 's \<times> (unit, unit) result" where
  "unmark_delivery_tag D K delivery_tag s =
     round_trip K (\<lambda>s. (kv_del K (kv_del K s (exact_key D delivery_tag)) (seen_key D delivery_tag),
                        Some ())) s"

section \<open>Delivery tags as claims\<close>

definition tag_keys :: "digests \<Rightarrow> bytes \<Rightarrow> key set" where
  "tag_keys D tag = {exact_key D tag, seen_key D tag}"

definition claim_tag :: "digests \<Rightarrow> 's kv \<Rightarrow> bytes \<Rightarrow> 's \<Rightarrow> 's \<times> (unit, bool) result" where
  "claim_tag D K tag s =
     map_prod id (map_sum id (\<lambda>st. st = NewTag)) (check_and_mark_delivery_tag D K tag s)"

lemma tag_keys_apart [simp]: "exact_key D t \<noteq> seen_key D u" "seen_key D u \<noteq> exact_key D t"
  by (simp_all add: exact_key_def seen_key_def)

abbreviation "marking_script K D tag \<equiv>
  tag_script K (exact_key D tag) (seen_key D tag) EXACT_TTL_SECS SEEN_TTL_SECS"

lemma claim_tag_eq:
  "claim_tag D K tag s = map_prod id (map_sum id (\<lambda>n. n \<noteq> 1 \<and> n \<noteq> 2)) (round_trip K (marking_script K D tag) s)"
  by (cases "snd (round_trip K (marking_script K D tag) s)"; cases "round_trip K (marking_script K D tag) s")
    (simp_all add: claim_tag_def check_and_mark_delivery_tag_def Let_def split_beta)

text \<open>What one run of the script does.\<close>

lemma marking_effect:
  assumes K: "kv_ok K V W" and run: "marking_script K D tag s = (s', a)"
  shows "kv_now K s' = kv_now K s" "W s' = W s" "k \<notin> tag_keys D tag \<Longrightarrow> V s' k = V s k"
    "\<exists>n. a = Some n \<and> n \<in> {0, 1, 2} \<and> (n = 0 \<longleftrightarrow> \<not> kv_exists K s (exact_key D tag) \<and> \<not> kv_exists K s (seen_key D tag))"
    "a = Some 0 \<Longrightarrow> held_until V (seen_key D tag) (kv_now K s + SEEN_TTL_SECS) s'"
  using run
  by (auto simp: tag_script_def tag_keys_def held_until_def kv_views [OF K] split: if_splits)

lemma claim_tagD:
  assumes K: "kv_ok K V W" and run: "claim_tag D K tag s = (s', Ok b)"
  obtains s0 n where "V s0 = V s" "W s0 = W s" "kv_now K s \<le> kv_now K s0"
    "marking_script K D tag s0 = (s', Some n)" "b \<longleftrightarrow> n = 0"
proof -
  from run obtain n where n: "round_trip K (marking_script K D tag) s = (s', Ok n)"
    and b: "b \<longleftrightarrow> n \<noteq> 1 \<and> n \<noteq> 2"
    by (cases "snd (round_trip K (marking_script K D tag) s)") (auto simp: claim_tag_eq map_prod_def split_beta
        simp: prod_eq_iff)
  show thesis
  proof (rule round_trip_cases [OF K n])
    fix s0 a
    assume s0: "V s0 = V s" "W s0 = W s" "kv_now K s \<le> kv_now K s0"
      "marking_script K D tag s0 = (s', Some a)" "Ok n = (Ok a :: (unit, int) result)"
    with marking_effect(4) [OF K s0(4)] b that [of s0 n] show thesis by auto
  qed auto
qed

lemma claim_tag_keeps:
  assumes K: "kv_ok K V W" and run: "claim_tag D K tag s = (s', r)"
  shows "kv_now K s \<le> kv_now K s'" "k \<notin> tag_keys D tag \<Longrightarrow> keeps_key K V W k s s'"
proof -
  obtain a where a: "round_trip K (marking_script K D tag) s = (s', a)"
    using run by (cases "round_trip K (marking_script K D tag) s") (simp add: claim_tag_eq)
  have effect: "keeps_key K V W k s (fst (marking_script K D tag s))" if "k \<notin> tag_keys D tag" for k s
    using marking_effect(1-3) [OF K, of D tag s] that
    by (cases "marking_script K D tag s") (simp add: keeps_key_def)
  show "k \<notin> tag_keys D tag \<Longrightarrow> keeps_key K V W k s s'"
    by (rule round_trip_keeps_key [OF K a effect])
  have "[] \<notin> tag_keys D tag" by (simp add: tag_keys_def exact_key_def seen_key_def)
  from round_trip_keeps_key [OF K a effect [OF this]] show "kv_now K s \<le> kv_now K s'"
    by (simp add: keeps_key_def)
qed

lemma unmark_effect:
  assumes K: "kv_ok K V W" and run: "unmark_delivery_tag D K tag s = (s', r)"
  shows "kv_now K s \<le> kv_now K s'" "k \<notin> tag_keys D tag \<Longrightarrow> keeps_key K V W k s s'"
    "r = Ok () \<Longrightarrow> vacant V W (tag_keys D tag) s'"
proof -
  have "kv_now K s \<le> kv_now K s' \<and> (k \<notin> tag_keys D tag \<longrightarrow> keeps_key K V W k s s') \<and>
      (r = Ok () \<longrightarrow> vacant V W (tag_keys D tag) s')"
    by (rule round_trip_cases [OF K run [unfolded unmark_delivery_tag_def]])
      (auto simp: kv_views [OF K] vacant_def keeps_key_def tag_keys_def)
  then show "kv_now K s \<le> kv_now K s'" "k \<notin> tag_keys D tag \<Longrightarrow> keeps_key K V W k s s'"
    "r = Ok () \<Longrightarrow> vacant V W (tag_keys D tag) s'" by auto
qed

interpretation tags: claims claim_tag unmark_delivery_tag seen_key tag_keys SEEN_TTL_SECS
proof
  fix D :: digests and tag
  show "seen_key D tag \<in> tag_keys D tag" by (simp add: tag_keys_def)
next
  fix K V W D tag and s s' :: 's
  assume K: "kv_ok K V W" and run: "claim_tag D K tag s = (s', Ok True)"
  show "held_until V (seen_key D tag) (kv_now K s + SEEN_TTL_SECS) s'"
    by (rule claim_tagD [OF K run]) (auto dest: marking_effect(5) [OF K] elim!: held_until_mono)
next
  fix K V W D tag t b and s s' :: 's
  assume K: "kv_ok K V W" and held: "held_until V (seen_key D tag) t s"
    and run: "claim_tag D K tag s = (s', Ok b)" and t: "kv_now K s' < t"
  show "\<not> b"
  proof (rule claim_tagD [OF K run])
    fix s0 n
    assume s0: "V s0 = V s" "marking_script K D tag s0 = (s', Some n)" "b \<longleftrightarrow> n = 0"
    have "kv_exists K s0 (seen_key D tag)"
      using exists_unexpired [OF K held_until_kept [OF held, of s0]] s0(1) t
        marking_effect(1) [OF K s0(2)] by (simp add: kv_exists_def)
    with marking_effect(4) [OF K s0(2)] s0(3) show ?thesis by auto
  qed
next
  fix K V W D tag b and s s' :: 's
  assume K: "kv_ok K V W" and free: "vacant V W (tag_keys D tag) s"
    and run: "claim_tag D K tag s = (s', Ok b)"
  show b
  proof (rule claim_tagD [OF K run])
    fix s0 n
    assume s0: "V s0 = V s" "W s0 = W s" "marking_script K D tag s0 = (s', Some n)" "b \<longleftrightarrow> n = 0"
    have "\<not> kv_exists K s0 k" if "k \<in> tag_keys D tag" for k
      using that free get_absent [OF K, of s0 k] members_absent [OF K, of s0 k] s0(1,2)
      by (simp add: kv_exists_def vacant_def)
    with marking_effect(4) [OF K s0(3)] s0(4) show b by (auto simp: tag_keys_def)
  qed
next
  fix K :: "'s kv" and s s0 D tag
  assume up: "kv_link K s = (s0, Up)"
  obtain n where "snd (marking_script K D tag s0) = Some n"
    by (cases "kv_exists K s0 (exact_key D tag)"; cases "kv_exists K s0 (seen_key D tag)")
      (simp_all add: tag_script_def)
  from round_trip_up [OF up, of "marking_script K D tag", OF this] show "snd (claim_tag D K tag s) \<noteq> Err ()"
    by (simp add: claim_tag_eq)
  show "snd (unmark_delivery_tag D K tag s) = Ok ()"
    unfolding unmark_delivery_tag_def by (rule round_trip_up [OF up]) simp
qed (blast intro: claim_tag_keeps unmark_effect)+

end
