(* ===== verification/Ssrf.thy ===== *)
theory Ssrf
  imports Ip_Addr
begin

text \<open>
  The guard on domains the server dials: \<open>crates/construct-federation/src/ssrf.rs\<close>. A domain that
  comes from another server, or from a client, must be a plain host name and must resolve to
  public addresses only. DNS is the parameter \<open>to_socket_addrs\<close>, given a host and a port.
\<close>

section \<open>Host names\<close>

fun split_char :: "char \<Rightarrow> string \<Rightarrow> string list" where
  "split_char c [] = [[]]"
| "split_char c (x # xs) =
     (if x = c then [] # split_char c xs
      else (x # hd (split_char c xs)) # tl (split_char c xs))"

fun contains_str :: "string \<Rightarrow> string \<Rightarrow> bool" where
  "contains_str p [] = (p = [])"
| "contains_str p (x # xs) = (take (length p) (x # xs) = p \<or> contains_str p xs)"

definition ends_with :: "string \<Rightarrow> string \<Rightarrow> bool" where
  "ends_with s p = (drop (length s - length p) s = p)"

definition trim_end_matches :: "char \<Rightarrow> string \<Rightarrow> string" where
  "trim_end_matches c s = rev (dropWhile (\<lambda>x. x = c) (rev s))"

definition bare_hostname :: "string \<Rightarrow> bool" where
  "bare_hostname lower = (\<not> (contains_str ''://'' lower
     \<or> CHR ''/'' \<in> set lower \<or> CHR 0x5C \<in> set lower \<or> CHR ''@'' \<in> set lower
     \<or> CHR ''?'' \<in> set lower \<or> CHR ''#'' \<in> set lower \<or> CHR '' '' \<in> set lower
     \<or> CHR 0x09 \<in> set lower \<or> CHR ''%'' \<in> set lower))"

definition valid_label :: "string \<Rightarrow> (string, unit) result" where
  "valid_label label =
     (if label = [] \<or> 63 < length label then Err ''invalid DNS label length''
      else if \<not> list_all (\<lambda>c. is_ascii_alphanumeric c \<or> c = CHR ''-'') label
      then Err ''invalid characters in domain''
      else if hd label = CHR ''-'' \<or> last label = CHR ''-''
      then Err ''DNS label cannot start/end with hyphen''
      else Ok ())"

fun valid_labels :: "string list \<Rightarrow> (string, unit) result" where
  "valid_labels [] = Ok ()"
| "valid_labels (l # ls) = (case valid_label l of Err e \<Rightarrow> Err e | Ok _ \<Rightarrow> valid_labels ls)"

definition special_use :: "string \<Rightarrow> bool" where
  "special_use host =
     (host = ''localhost''
      \<or> ends_with host ''.localhost''
      \<or> ends_with host ''.local''
      \<or> ends_with host ''.internal''
      \<or> ends_with host ''.intranet''
      \<or> ends_with host ''.lan''
      \<or> ends_with host ''.home''
      \<or> ends_with host ''.corp''
      \<or> host = ''metadata.google.internal''
      \<or> ends_with host ''.metadata.google.internal'')"

definition host_part :: "string \<Rightarrow> (string, string) result" where
  "host_part lower =
     (case rsplit_once (CHR '':'') lower of
        Some (h, p) \<Rightarrow>
          if list_all is_ascii_digit p \<and> p \<noteq> [] \<and> length p \<le> 5
          then (case parse_unsigned 16 p of
                  None \<Rightarrow> Err ''invalid port in domain''
                | Some port \<Rightarrow> if port = 0 then Err ''invalid port in domain'' else Ok h)
          else Ok lower
      | None \<Rightarrow> Ok lower)"

definition validate_federation_hostname :: "string \<Rightarrow> (string, unit) result" where
  "validate_federation_hostname domain =
     (let raw = trim domain in
      if raw = [] \<or> 253 < length raw then Err ''domain empty or too long''
      else
        let lower = map ascii_lower raw in
        if \<not> bare_hostname lower
        then Err ''domain must be a bare hostname (optional :port)''
        else case host_part lower of
          Err e \<Rightarrow> Err e
        | Ok h \<Rightarrow>
            (let host = trim_end_matches (CHR ''.'') h in
             if host = [] then Err ''empty host''
             else if parse_ip_addr host \<noteq> None \<or> hd host = CHR ''[''
             then Err ''IP literals are not allowed as federation domains''
             else case valid_labels (split_char (CHR ''.'') host) of
               Err e \<Rightarrow> Err e
             | Ok _ \<Rightarrow>
                 if special_use host then Err ''blocked special-use or internal domain''
                 else Ok ()))"

section \<open>Public addresses\<close>

text \<open>The classifications \<open>Ipv4Addr\<close> and \<open>Ipv6Addr\<close> of the standard library offer.\<close>

fun is_private :: "octet list \<Rightarrow> bool" where
  "is_private [a, b, c, d] =
     (a = 10 \<or> (a = 172 \<and> 16 \<le> b \<and> b \<le> 31) \<or> (a = 192 \<and> b = 168))"
| "is_private _ = False"

fun is_documentation :: "octet list \<Rightarrow> bool" where
  "is_documentation [a, b, c, d] =
     ((a = 192 \<and> b = 0 \<and> c = 2) \<or> (a = 198 \<and> b = 51 \<and> c = 100) \<or> (a = 203 \<and> b = 0 \<and> c = 113))"
| "is_documentation _ = False"

fun std_special_v4 :: "octet list \<Rightarrow> bool" where
  "std_special_v4 [a, b, c, d] =
     (is_private [a, b, c, d]
      \<or> a = 127
      \<or> (a = 169 \<and> b = 254)
      \<or> [a, b, c, d] = [255, 255, 255, 255]
      \<or> is_documentation [a, b, c, d]
      \<or> [a, b, c, d] = [0, 0, 0, 0]
      \<or> (224 \<le> a \<and> a \<le> 239))"
| "std_special_v4 _ = False"

unbundle bit_operations_syntax

definition is_public_v4 :: "octet list \<Rightarrow> bool" where
  "is_public_v4 os =
     (if std_special_v4 os then False
      else if os ! 0 = 100 \<and> os ! 1 AND 0xc0 = 64 then False
      else if os ! 0 = 198 \<and> (os ! 1 = 18 \<or> os ! 1 = 19) then False
      else if os ! 0 = 192 \<and> os ! 1 = 0 \<and> os ! 2 = 0 then False
      else True)"

definition is_public_v6 :: "segment list \<Rightarrow> bool" where
  "is_public_v6 s =
     (if s = [0, 0, 0, 0, 0, 0, 0, 1] \<or> s = [0, 0, 0, 0, 0, 0, 0, 0] \<or> s ! 0 AND 0xff00 = 0xff00
      then False
      else if s ! 0 AND 0xffc0 = 0xfe80 then False
      else if s ! 0 AND 0xfe00 = 0xfc00 then False
      else case to_ipv4_mapped s of
        Some v4 \<Rightarrow> is_public_v4 v4
      | None \<Rightarrow> \<not> (s ! 0 = 0x0100 \<and> s ! 1 = 0 \<and> s ! 2 = 0 \<and> s ! 3 = 0))"

definition is_public_ip :: "ip_addr \<Rightarrow> bool" where
  "is_public_ip ip = (case ip of V4 v4 \<Rightarrow> is_public_v4 v4 | V6 v6 \<Rightarrow> is_public_v6 v6)"

definition show_ip :: "ip_addr \<Rightarrow> string" where
  "show_ip ip = (case ip of V4 os \<Rightarrow> show_ipv4 os | V6 ss \<Rightarrow> show_ipv6 ss)"

section \<open>The guard\<close>

type_synonym resolver = "string \<Rightarrow> 16 word \<Rightarrow> (string, ip_addr list) result"

definition split_host_port :: "string \<Rightarrow> string \<times> 16 word" where
  "split_host_port domain =
     (case rsplit_once (CHR '':'') domain of
        Some (h, p) \<Rightarrow>
          if h \<noteq> [] \<and> list_all is_ascii_digit p
          then (case parse_unsigned 16 p of
                  Some port \<Rightarrow> if port \<noteq> 0 then (h, word_of_nat port) else (domain, 443)
                | None \<Rightarrow> (domain, 443))
          else (domain, 443)
      | None \<Rightarrow> (domain, 443))"

fun check_addrs :: "ip_addr list \<Rightarrow> (string, unit) result" where
  "check_addrs [] = Ok ()"
| "check_addrs (a # as) =
     (if \<not> is_public_ip a
      then Err (''domain resolves to non-public address '' @ show_ip a @ '' (SSRF blocked)'')
      else check_addrs as)"

definition assert_hostname_resolves_public :: "resolver \<Rightarrow> string \<Rightarrow> (string, unit) result" where
  "assert_hostname_resolves_public to_socket_addrs domain =
     (case validate_federation_hostname domain of
        Err e \<Rightarrow> Err e
      | Ok _ \<Rightarrow>
          (let (host, port) = split_host_port (map ascii_lower (trim domain)) in
           case to_socket_addrs (trim_end_matches (CHR ''.'') host) port of
             Err e \<Rightarrow> Err (''DNS resolution failed: '' @ e)
           | Ok addrs \<Rightarrow>
               (case check_addrs addrs of
                  Err e \<Rightarrow> Err e
                | Ok _ \<Rightarrow> if addrs = [] then Err ''DNS resolution returned no addresses'' else Ok ())))"

section \<open>The blocks of addresses that are never dialled\<close>

text \<open>
  The address blocks in CIDR form: an address is in a block when the two agree on the bits before the
  host part.
\<close>

definition be_value :: "nat \<Rightarrow> nat list \<Rightarrow> nat" where
  "be_value base ds = foldl (\<lambda>acc d. acc * base + d) 0 ds"

definition in_block :: "nat \<Rightarrow> nat list \<Rightarrow> nat \<Rightarrow> nat list \<Rightarrow> bool" where
  "in_block base net host_bits ds \<longleftrightarrow>
     be_value base ds div 2 ^ host_bits = be_value base net div 2 ^ host_bits"

definition special_v4 :: "(nat list \<times> nat) list" where
  "special_v4 =
     [([0, 0, 0, 0], 32), ([10, 0, 0, 0], 8), ([100, 64, 0, 0], 10), ([127, 0, 0, 0], 8),
      ([169, 254, 0, 0], 16), ([172, 16, 0, 0], 12), ([192, 0, 0, 0], 24), ([192, 0, 2, 0], 24),
      ([192, 168, 0, 0], 16), ([198, 18, 0, 0], 15), ([198, 51, 100, 0], 24),
      ([203, 0, 113, 0], 24), ([224, 0, 0, 0], 4), ([255, 255, 255, 255], 32)]"

definition special_v6 :: "(nat list \<times> nat) list" where
  "special_v6 =
     [([0, 0, 0, 0, 0, 0, 0, 0], 128), ([0, 0, 0, 0, 0, 0, 0, 1], 128),
      ([0x100, 0, 0, 0, 0, 0, 0, 0], 64), ([0xfc00, 0, 0, 0, 0, 0, 0, 0], 7),
      ([0xfe80, 0, 0, 0, 0, 0, 0, 0], 10), ([0xff00, 0, 0, 0, 0, 0, 0, 0], 8)]"

definition special_ip :: "ip_addr \<Rightarrow> bool" where
  "special_ip ip = (case ip of
      V4 os \<Rightarrow> \<exists>(net, n) \<in> set special_v4. in_block 256 net (32 - n) (map unat os)
    | V6 ss \<Rightarrow> (\<exists>(net, n) \<in> set special_v6. in_block 65536 net (128 - n) (map unat ss)) \<or>
        (case to_ipv4_mapped ss of
           Some os \<Rightarrow> \<exists>(net, n) \<in> set special_v4. in_block 256 net (32 - n) (map unat os)
         | None \<Rightarrow> False))"

lemma and_not_mask_unat:
  "unat (w AND NOT (mask k) :: 'a :: len word) = unat w div 2 ^ k * 2 ^ k"
proof -
  have "w AND NOT (mask k) = push_bit k (drop_bit k w)"
    by (rule bit_word_eqI) (auto simp: bit_simps)
  then have "unat (w AND NOT (mask k)) = take_bit LENGTH('a) (push_bit k (drop_bit k (unat w)))"
    by (simp add: unsigned_push_bit_eq unsigned_drop_bit_eq take_bit_nat_eq_self [OF unsigned_less])
  moreover have "push_bit k (drop_bit k (unat w)) = unat w div 2 ^ k * 2 ^ k"
    by (simp add: push_bit_eq_mult drop_bit_eq_div)
  moreover have "unat w div 2 ^ k * 2 ^ k < 2 ^ LENGTH('a)"
    by (rule le_less_trans [OF _ unsigned_less [of w]]) simp
  ultimately show ?thesis by (simp add: take_bit_eq_mod)
qed

lemma high_bits:
  "(b :: 8 word) AND 0xc0 = 64 \<longleftrightarrow> unat b div 64 = 1"
  "(s :: 16 word) AND 0xff00 = 0xff00 \<longleftrightarrow> unat s div 256 = 255"
  "(s :: 16 word) AND 0xffc0 = 0xfe80 \<longleftrightarrow> unat s div 64 = 1018"
  "(s :: 16 word) AND 0xfe00 = 0xfc00 \<longleftrightarrow> unat s div 512 = 126"
proof -
  have m: "(0xc0 :: 8 word) = NOT (mask 6)" "(0xff00 :: 16 word) = NOT (mask 8)"
    "(0xffc0 :: 16 word) = NOT (mask 6)" "(0xfe00 :: 16 word) = NOT (mask 9)"
    by (simp_all add: mask_eq_exp_minus_1)
  show "(b :: 8 word) AND 0xc0 = 64 \<longleftrightarrow> unat b div 64 = 1"
    unfolding m word_unat_eq_iff and_not_mask_unat by auto
  show "(s :: 16 word) AND 0xff00 = 0xff00 \<longleftrightarrow> unat s div 256 = 255"
    unfolding m(2) [THEN arg_cong, of "\<lambda>m. s AND m"] word_unat_eq_iff and_not_mask_unat
    by auto
  show "(s :: 16 word) AND 0xffc0 = 0xfe80 \<longleftrightarrow> unat s div 64 = 1018"
    unfolding m word_unat_eq_iff and_not_mask_unat by auto
  show "(s :: 16 word) AND 0xfe00 = 0xfc00 \<longleftrightarrow> unat s div 512 = 126"
    unfolding m word_unat_eq_iff and_not_mask_unat by auto
qed

lemma v4_prefixes:
  assumes "y < 256" "z < 256" "w < (256 :: nat)"
  shows "be_value 256 [x, y, z, w] div 2 ^ 8 = (x * 256 + y) * 256 + z"
    "be_value 256 [x, y, z, w] div 2 ^ 16 = x * 256 + y"
    "be_value 256 [x, y, z, w] div 2 ^ 17 = (x * 256 + y) div 2"
    "be_value 256 [x, y, z, w] div 2 ^ 20 = (x * 256 + y) div 16"
    "be_value 256 [x, y, z, w] div 2 ^ 22 = (x * 256 + y) div 64"
    "be_value 256 [x, y, z, w] div 2 ^ 24 = x"
    "be_value 256 [x, y, z, w] div 2 ^ 28 = x div 16"
proof -
  have v: "be_value 256 [x, y, z, w] = ((x * 256 + y) * 256 + z) * 256 + w"
    by (simp add: be_value_def)
  show 8: "be_value 256 [x, y, z, w] div 2 ^ 8 = (x * 256 + y) * 256 + z"
    using assms by (simp add: v)
  have split: "v div 2 ^ (n + k) = v div 2 ^ n div 2 ^ k" for v n k :: nat
    by (simp add: div_mult2_eq power_add)
  have "be_value 256 [x, y, z, w] div 2 ^ 16 = ((x * 256 + y) * 256 + z) div 2 ^ 8"
    using split [of _ 8 8] 8 by simp
  then show 16: "be_value 256 [x, y, z, w] div 2 ^ 16 = x * 256 + y"
    using assms by simp
  have "be_value 256 [x, y, z, w] div 2 ^ 24 = (x * 256 + y) div 2 ^ 8"
    using split [of _ 16 8] 16 by simp
  then show 24: "be_value 256 [x, y, z, w] div 2 ^ 24 = x"
    using assms by simp
  show "be_value 256 [x, y, z, w] div 2 ^ 17 = (x * 256 + y) div 2"
    "be_value 256 [x, y, z, w] div 2 ^ 20 = (x * 256 + y) div 16"
    "be_value 256 [x, y, z, w] div 2 ^ 22 = (x * 256 + y) div 64"
    "be_value 256 [x, y, z, w] div 2 ^ 28 = x div 16"
    using split [of _ 16 1] split [of _ 16 4] split [of _ 16 6] split [of _ 24 4] 16 24 by simp_all
qed

lemma digit_eq: "q < m \<Longrightarrow> b < m \<Longrightarrow> x * m + q = a * m + b \<longleftrightarrow> x = a \<and> q = (b :: nat)"
  by (metis Euclidean_Rings.div_eq_0_iff add.right_neutral add_diff_cancel_left' div_mult_self3
      not_less_zero)

lemma octet_blocks:
  assumes "y < 256" "z < 256" "w < 256" "b < 256" "c < 256" "d < (256 :: nat)"
  shows "in_block 256 [a, b, c, d] 8 [x, y, z, w] \<longleftrightarrow> x = a \<and> y = b \<and> z = c"
    "in_block 256 [a, b, c, d] 16 [x, y, z, w] \<longleftrightarrow> x = a \<and> y = b"
    "in_block 256 [a, b, c, d] 24 [x, y, z, w] \<longleftrightarrow> x = a"
  by (simp_all only: in_block_def v4_prefixes [OF assms(1-3)] v4_prefixes [OF assms(4-6)]
      digit_eq [OF assms(2,5)] digit_eq [OF assms(1,4)] conj_assoc)

lemma v4_blocks:
  assumes "x < 256" "y < 256" "z < 256" "w < 256"
  shows "in_block 256 [0, 0, 0, 0] 0 [x, y, z, w] \<longleftrightarrow> x = 0 \<and> y = 0 \<and> z = 0 \<and> w = 0"
    "in_block 256 [10, 0, 0, 0] 24 [x, y, z, w] \<longleftrightarrow> x = 10"
    "in_block 256 [100, 64, 0, 0] 22 [x, y, z, w] \<longleftrightarrow> x = 100 \<and> y div 64 = 1"
    "in_block 256 [127, 0, 0, 0] 24 [x, y, z, w] \<longleftrightarrow> x = 127"
    "in_block 256 [169, 254, 0, 0] 16 [x, y, z, w] \<longleftrightarrow> x = 169 \<and> y = 254"
    "in_block 256 [172, 16, 0, 0] 20 [x, y, z, w] \<longleftrightarrow> x = 172 \<and> 16 \<le> y \<and> y \<le> 31"
    "in_block 256 [192, 0, 0, 0] 8 [x, y, z, w] \<longleftrightarrow> x = 192 \<and> y = 0 \<and> z = 0"
    "in_block 256 [192, 0, 2, 0] 8 [x, y, z, w] \<longleftrightarrow> x = 192 \<and> y = 0 \<and> z = 2"
    "in_block 256 [192, 168, 0, 0] 16 [x, y, z, w] \<longleftrightarrow> x = 192 \<and> y = 168"
    "in_block 256 [198, 18, 0, 0] 17 [x, y, z, w] \<longleftrightarrow> x = 198 \<and> (y = 18 \<or> y = 19)"
    "in_block 256 [198, 51, 100, 0] 8 [x, y, z, w] \<longleftrightarrow> x = 198 \<and> y = 51 \<and> z = 100"
    "in_block 256 [203, 0, 113, 0] 8 [x, y, z, w] \<longleftrightarrow> x = 203 \<and> y = 0 \<and> z = 113"
    "in_block 256 [224, 0, 0, 0] 28 [x, y, z, w] \<longleftrightarrow> 224 \<le> x \<and> x \<le> 239"
    "in_block 256 [255, 255, 255, 255] 0 [x, y, z, w] \<longleftrightarrow> x = 255 \<and> y = 255 \<and> z = 255 \<and> w = 255"
proof -
  note p = v4_prefixes [OF assms(2-4), of x]
  have "in_block 256 n 0 [x, y, z, w] \<longleftrightarrow> ((x * 256 + y) * 256 + z) * 256 + w = be_value 256 n" for n
    by (simp add: in_block_def be_value_def)
  then show "in_block 256 [0, 0, 0, 0] 0 [x, y, z, w] \<longleftrightarrow> x = 0 \<and> y = 0 \<and> z = 0 \<and> w = 0"
    "in_block 256 [255, 255, 255, 255] 0 [x, y, z, w] \<longleftrightarrow> x = 255 \<and> y = 255 \<and> z = 255 \<and> w = 255"
    using assms by (simp_all add: be_value_def) (safe; linarith)
  have "x * 4 + y div 64 = 401 \<longleftrightarrow> x = 100 \<and> y div 64 = 1"
    "x * 16 + y div 16 = 2753 \<longleftrightarrow> x = 172 \<and> y div 16 = 1"
    "x * 128 + y div 2 = 25353 \<longleftrightarrow> x = 198 \<and> y div 2 = 9"
    using assms(2) digit_eq [of "y div 64" 4 1 x 100] digit_eq [of "y div 16" 16 1 x 172]
      digit_eq [of "y div 2" 128 9 x 198] by simp_all
  moreover have "(x * 256 + y) div 64 = x * 4 + y div 64" "(x * 256 + y) div 16 = x * 16 + y div 16"
    "(x * 256 + y) div 2 = x * 128 + y div 2"
    using div_mult_self3 [of 64 "x * 4" y] div_mult_self3 [of 16 "x * 16" y]
      div_mult_self3 [of 2 "x * 128" y] by simp_all
  moreover have "y div 16 = 1 \<longleftrightarrow> 16 \<le> y \<and> y \<le> 31" "y div 2 = 9 \<longleftrightarrow> y = 18 \<or> y = 19"
    "x div 16 = 14 \<longleftrightarrow> 224 \<le> x \<and> x \<le> 239"
    by arith+
  ultimately show
    "in_block 256 [100, 64, 0, 0] 22 [x, y, z, w] \<longleftrightarrow> x = 100 \<and> y div 64 = 1"
    "in_block 256 [172, 16, 0, 0] 20 [x, y, z, w] \<longleftrightarrow> x = 172 \<and> 16 \<le> y \<and> y \<le> 31"
    "in_block 256 [198, 18, 0, 0] 17 [x, y, z, w] \<longleftrightarrow> x = 198 \<and> (y = 18 \<or> y = 19)"
    "in_block 256 [224, 0, 0, 0] 28 [x, y, z, w] \<longleftrightarrow> 224 \<le> x \<and> x \<le> 239"
    by (simp_all only: in_block_def p) (simp_all add: be_value_def)
qed (use assms in \<open>simp_all add: octet_blocks\<close>)

lemma public_v4_exact:
  assumes "length os = 4"
  shows "is_public_v4 os \<longleftrightarrow>
     \<not> (\<exists>(net, n) \<in> set special_v4. in_block 256 net (32 - n) (map unat os))"
proof -
  from assms obtain a b c d where os: "os = [a, b, c, d]"
    by (auto simp: numeral_eq_Suc length_Suc_conv)
  have lt: "unat x < 256" for x :: octet
    using unsigned_less [of x] by simp
  show ?thesis
    unfolding os is_public_v4_def special_v4_def high_bits
    by (simp add: v4_blocks [OF lt lt lt lt] word_unat_eq_iff word_le_nat_alt)
qed

lemma be_value_append:
  "be_value B (xs @ ys) = be_value B xs * B ^ length ys + be_value B ys"
proof (induction ys rule: rev_induct)
  case (snoc y ys)
  have "be_value B (zs @ [y]) = be_value B zs * B + y" for zs
    by (simp add: be_value_def)
  from this [of "xs @ ys"] this [of ys] snoc show ?case
    by (simp add: algebra_simps)
qed (simp add: be_value_def)

lemma be_value_less:
  assumes "\<forall>d \<in> set ds. d < B"
  shows "be_value B ds < B ^ length ds"
  using assms
proof (induction ds rule: rev_induct)
  case (snoc d ds)
  then have "be_value B ds + 1 \<le> B ^ length ds" by simp
  then have "(be_value B ds + 1) * B \<le> B ^ length ds * B" by (rule mult_le_mono1)
  moreover have "d < B" using snoc.prems by simp
  ultimately show ?case
    by (simp add: be_value_append [of B ds "[d]"] be_value_def [of B "[d]"] algebra_simps)
qed (simp add: be_value_def)

lemma be_value_div:
  assumes "\<forall>d \<in> set ys. d < B"
  shows "be_value B (xs @ ys) div B ^ length ys = be_value B xs"
proof -
  have "B ^ length ys \<noteq> 0" using be_value_less [OF assms] by (rule gr_implies_not0)
  then show ?thesis using be_value_less [OF assms] by (simp only: be_value_append div_mult_self3) simp
qed

lemma be_value_inj:
  assumes "\<forall>d \<in> set xs. d < B" "\<forall>d \<in> set ys. d < B" "length xs = length ys"
  shows "be_value B xs = be_value B ys \<longleftrightarrow> xs = ys"
  using assms(3,1,2)
proof (induction xs ys rule: list_induct2)
  case (Cons x xs y ys)
  have "be_value B (d # ds) = d * B ^ length ds + be_value B ds" for d ds
    using be_value_append [of B "[d]" ds] by (simp add: be_value_def)
  with Cons be_value_less [of xs B] be_value_less [of ys B] show ?case
    by (simp add: digit_eq)
qed simp

lemma v6_blocks:
  assumes len: "length ss = 8" and lt: "\<forall>d \<in> set ss. d < 65536"
  shows "in_block 65536 net 0 ss \<longleftrightarrow> be_value 65536 ss = be_value 65536 net"
    "in_block 65536 [0x100, 0, 0, 0, 0, 0, 0, 0] 64 ss \<longleftrightarrow> take 4 ss = [0x100, 0, 0, 0]"
    "in_block 65536 [0xfc00, 0, 0, 0, 0, 0, 0, 0] 121 ss \<longleftrightarrow> ss ! 0 div 512 = 126"
    "in_block 65536 [0xfe80, 0, 0, 0, 0, 0, 0, 0] 118 ss \<longleftrightarrow> ss ! 0 div 64 = 1018"
    "in_block 65536 [0xff00, 0, 0, 0, 0, 0, 0, 0] 120 ss \<longleftrightarrow> ss ! 0 div 256 = 255"
proof -
  have "be_value 65536 ss div 2 ^ 64 = be_value 65536 (take 4 ss)"
    using be_value_div [of "drop 4 ss" 65536 "take 4 ss"] len lt by (auto dest: in_set_dropD)
  moreover have "be_value 65536 (take 4 ss) = be_value 65536 [0x100, 0, 0, 0]
      \<longleftrightarrow> take 4 ss = [0x100, 0, 0, 0]"
    by (rule be_value_inj) (use len lt in \<open>auto dest: in_set_takeD\<close>)
  ultimately show "in_block 65536 [0x100, 0, 0, 0, 0, 0, 0, 0] 64 ss \<longleftrightarrow> take 4 ss = [0x100, 0, 0, 0]"
    by (simp add: in_block_def be_value_def [of _ "[_, _, _, _]"]
        be_value_def [of _ "[_, _, _, _, _, _, _, _]"])
  have top: "be_value 65536 ss div 2 ^ 112 = ss ! 0"
    using be_value_div [of "tl ss" 65536 "[ss ! 0]"] len lt
    by (cases ss) (auto simp: be_value_def)
  have "v div 2 ^ (112 + k) = v div 2 ^ 112 div 2 ^ k" for v k :: nat
    by (simp only: power_add div_mult2_eq)
  from this [of "be_value 65536 ss" 9] this [of "be_value 65536 ss" 6]
    this [of "be_value 65536 ss" 8] top
  show "in_block 65536 [0xfc00, 0, 0, 0, 0, 0, 0, 0] 121 ss \<longleftrightarrow> ss ! 0 div 512 = 126"
    "in_block 65536 [0xfe80, 0, 0, 0, 0, 0, 0, 0] 118 ss \<longleftrightarrow> ss ! 0 div 64 = 1018"
    "in_block 65536 [0xff00, 0, 0, 0, 0, 0, 0, 0] 120 ss \<longleftrightarrow> ss ! 0 div 256 = 255"
    by (simp_all add: in_block_def be_value_def [of _ "[_, _, _, _, _, _, _, _]"])
qed (simp add: in_block_def)

lemma v4_mapped_length: "to_ipv4_mapped ss = Some os \<Longrightarrow> length os = 4"
  by (auto simp: to_ipv4_mapped_def split: if_splits)

lemma public_v6_exact:
  assumes len: "length ss = 8"
  shows "is_public_v6 ss \<longleftrightarrow> \<not> special_ip (V6 ss)"
proof -
  have lt: "\<forall>d \<in> set (map unat ss). d < 65536"
    using unsigned_less [where 'b = 16 and 'a = nat] by auto
  have eq: "in_block 65536 (map unat net) 0 (map unat ss) \<longleftrightarrow> ss = net"
    if "length net = 8" for net :: "segment list"
  proof -
    have "\<forall>d \<in> set (map unat net). d < 65536"
      using unsigned_less [where 'b = 16 and 'a = nat] by auto
    with lt have "be_value 65536 (map unat ss) = be_value 65536 (map unat net) \<longleftrightarrow>
        map unat ss = map unat net"
      by (rule be_value_inj) (simp add: len that)
    with v6_blocks(1) [OF _ lt] len show ?thesis by (simp add: inj_map_eq_map)
  qed
  from len obtain a b c d e f g h where nth: "ss = [a, b, c, d, e, f, g, h]"
    by (auto simp: numeral_eq_Suc length_Suc_conv)
  have pre: "take 4 (map unat ss) = [0x100, 0, 0, 0] \<longleftrightarrow>
      ss ! 0 = 0x100 \<and> ss ! 1 = 0 \<and> ss ! 2 = 0 \<and> ss ! 3 = 0"
    using nth using len by (simp add: word_unat_eq_iff)
  have unmapped: "to_ipv4_mapped ss \<noteq> None \<Longrightarrow> ss ! 0 \<noteq> 0x100"
    by (auto simp: to_ipv4_mapped_def split: if_splits dest: arg_cong [where f = "\<lambda>l. l ! 0"])
  note blocks = v6_blocks [OF _ lt, unfolded length_map, OF len] pre
    eq [of "[0, 0, 0, 0, 0, 0, 0, 0]"] eq [of "[0, 0, 0, 0, 0, 0, 0, 1]"]
  show ?thesis
    unfolding is_public_v6_def special_ip_def special_v6_def high_bits
    using blocks len unmapped
    by (cases "to_ipv4_mapped ss") (auto simp: public_v4_exact v4_mapped_length)
qed

lemma public_ip_exact: "ip_ok a \<Longrightarrow> is_public_ip a \<longleftrightarrow> \<not> special_ip a"
  by (cases a) (simp_all add: is_public_ip_def public_v4_exact public_v6_exact
      special_ip_def [of "V4 _"])

section \<open>Host names that pass\<close>

lemma split_onceD: "split_once c s = Some (a, b) \<Longrightarrow> s = a @ c # b"
  by (induction c s arbitrary: a rule: split_once.induct) (auto split: if_splits option.splits)

lemma rsplit_onceD: "rsplit_once c s = Some (a, b) \<Longrightarrow> s = a @ c # b"
  by (auto simp: rsplit_once_def split: option.splits dest!: split_onceD) (metis append.assoc
      append_Cons append_Nil rev.simps(2) rev_append rev_rev_ident)

lemma set_split_char: "x \<in> set s \<Longrightarrow> x = c \<or> (\<exists>l \<in> set (split_char c s). x \<in> set l)"
proof (induction s)
  case (Cons y s)
  have "split_char c s \<noteq> []" by (cases s) auto
  with Cons show ?case by (cases "split_char c s") auto
qed simp

lemma trim_end_matches_eq:
  obtains n where "s = trim_end_matches c s @ replicate n c"
proof -
  have "takeWhile (\<lambda>x. x = c) (rev s) = replicate (length (takeWhile (\<lambda>x. x = c) (rev s))) c"
    by (induction "rev s") (auto simp: replicate_length_same dest: set_takeWhileD
        intro!: replicate_eqI)
  then have "rev s = replicate (length (takeWhile (\<lambda>x. x = c) (rev s))) c @
      dropWhile (\<lambda>x. x = c) (rev s)"
    by (metis takeWhile_dropWhile_id)
  then have "s = trim_end_matches c s @ replicate (length (takeWhile (\<lambda>x. x = c) (rev s))) c"
    unfolding trim_end_matches_def by (metis rev_append rev_replicate rev_rev_ident)
  then show thesis by (rule that)
qed

definition host_char :: "char \<Rightarrow> bool" where
  "host_char c \<longleftrightarrow> is_ascii_alphanumeric c \<or> c = CHR ''-'' \<or> c = CHR ''.''"

lemma ascii_lower_host_char:
  "host_char (ascii_lower c) \<longleftrightarrow> host_char c" "ascii_lower c = CHR '':'' \<longleftrightarrow> c = CHR '':''"
proof -
  have "of_char (ascii_lower c) = (let n = (of_char c :: nat) in if 65 \<le> n \<and> n \<le> 90 then n + 32 else n)"
    by (simp add: ascii_lower_def Let_def)
  then show "ascii_lower c = CHR '':'' \<longleftrightarrow> c = CHR '':''"
    "host_char (ascii_lower c) \<longleftrightarrow> host_char c"
    by (auto simp: host_char_def is_ascii_alphanumeric_def Let_def of_char_eq_iff [where 'a = nat, symmetric]
        split: if_splits)
qed

lemma label_chars:
  "valid_label l = Ok () \<Longrightarrow> c \<in> set l \<Longrightarrow> is_ascii_alphanumeric c \<or> c = CHR ''-''"
  by (auto simp: valid_label_def list_all_iff split: if_splits)

lemma valid_labels_ok:
  "valid_labels ls = Ok () \<Longrightarrow> l \<in> set ls \<Longrightarrow> valid_label l = Ok ()"
  by (induction ls) (auto split: sum.splits)

lemma host_chars:
  assumes "valid_labels (split_char (CHR ''.'') (trim_end_matches (CHR ''.'') h)) = Ok ()"
    and "c \<in> set h"
  shows "host_char c"
proof -
  obtain n where h: "h = trim_end_matches (CHR ''.'') h @ replicate n (CHR ''.'')"
    by (rule trim_end_matches_eq)
  then have "c \<in> set (trim_end_matches (CHR ''.'') h) \<or> c = CHR ''.''"
    using assms(2) by (metis Un_iff in_set_replicate set_append)
  then show ?thesis
  proof
    assume "c \<in> set (trim_end_matches (CHR ''.'') h)"
    from set_split_char [OF this, of "CHR ''.''"] valid_labels_ok [OF assms(1)] label_chars
    show ?thesis by (fastforce simp: host_char_def)
  qed (simp add: host_char_def)
qed

lemma validate_hostnameD:
  assumes "validate_federation_hostname domain = Ok ()"
  defines "lower \<equiv> map ascii_lower (trim domain)"
  obtains h where "host_part lower = Ok h"
    "trim_end_matches (CHR ''.'') h \<noteq> []"
    "parse_ip_addr (trim_end_matches (CHR ''.'') h) = None"
    "valid_labels (split_char (CHR ''.'') (trim_end_matches (CHR ''.'') h)) = Ok ()"
    "\<not> special_use (trim_end_matches (CHR ''.'') h)"
  using assms unfolding validate_federation_hostname_def lower_def Let_def
  by (auto split: if_splits sum.splits)

lemma colon_not_host_char: "\<not> host_char (CHR '':'')"
  by (simp add: host_char_def is_ascii_alphanumeric_def)

text \<open>The guard resolves the host that was validated.\<close>

lemma host_part_split:
  assumes "host_part lower = Ok h" and "\<forall>c \<in> set h. host_char c" and "h \<noteq> []"
  shows "\<exists>port. split_host_port lower = (h, port) \<and>
    (lower = h \<or> (\<exists>p. lower = h @ CHR '':'' # p \<and> list_all is_ascii_digit p))"
proof (cases "rsplit_once (CHR '':'') lower")
  case None
  with assms(1) show ?thesis by (simp add: host_part_def split_host_port_def)
next
  case (Some hp)
  obtain h' p where hp: "hp = (h', p)" by (cases hp)
  with Some have lower: "lower = h' @ CHR '':'' # p" using rsplit_onceD by blast
  have "h \<noteq> lower" using assms(2) lower colon_not_host_char by auto
  with assms(1) Some hp obtain port where "parse_unsigned 16 p = Some port" "port \<noteq> 0"
    "list_all is_ascii_digit p" "h = h'"
    by (auto simp: host_part_def split: if_splits option.splits)
  with Some hp lower assms(3) show ?thesis by (auto simp: split_host_port_def)
qed

lemma check_addrs_ok: "check_addrs as = Ok () \<longleftrightarrow> (\<forall>a \<in> set as. is_public_ip a)"
  by (induction as) auto

text \<open>
  C16. The guard lets a domain pass only when dialling it is safe. When it answers ok, the trimmed
  domain has only letters, digits, dashes, dots and a colon, so nothing of it can be read as a path,
  a user or another host of the URL. Its host part is no IP literal and no special-use name. The
  name resolved to at least one address, and none of the addresses lies in a private, loopback,
  link-local, documentation, benchmarking, carrier-grade NAT, multicast or otherwise reserved block
  of the CIDR tables, an IPv4 address mapped into IPv6 included.
\<close>

theorem guard_admits_public_hosts:
  assumes ok: "assert_hostname_resolves_public R domain = Ok ()"
    and R: "\<forall>h p as. R h p = Ok as \<longrightarrow> list_all ip_ok as"
  shows "(\<forall>c \<in> set (trim domain). host_char c \<or> c = CHR '':'') \<and>
    (\<exists>host dots port tail addrs.
       map ascii_lower (trim domain) = host @ replicate dots (CHR ''.'') @ tail \<and>
       (tail = [] \<or> hd tail = CHR '':'' \<and> list_all is_ascii_digit (tl tail)) \<and>
       parse_ip_addr host = None \<and> \<not> special_use host \<and>
       R host port = Ok addrs \<and> addrs \<noteq> [] \<and> (\<forall>a \<in> set addrs. \<not> special_ip a))"
proof -
  let ?lower = "map ascii_lower (trim domain)"
  from ok have v: "validate_federation_hostname domain = Ok ()"
    by (auto simp: assert_hostname_resolves_public_def split: sum.splits)
  obtain h where h: "host_part ?lower = Ok h" "trim_end_matches (CHR ''.'') h \<noteq> []"
    "parse_ip_addr (trim_end_matches (CHR ''.'') h) = None"
    "valid_labels (split_char (CHR ''.'') (trim_end_matches (CHR ''.'') h)) = Ok ()"
    "\<not> special_use (trim_end_matches (CHR ''.'') h)"
    by (rule validate_hostnameD [OF v])
  note hc = host_chars [OF h(4)]
  have "h \<noteq> []" using h(2) by (auto simp: trim_end_matches_def)
  then obtain port where port: "split_host_port ?lower = (h, port)"
    "?lower = h \<or> (\<exists>p. ?lower = h @ CHR '':'' # p \<and> list_all is_ascii_digit p)"
    using host_part_split [OF h(1)] hc by blast
  obtain dots where dots: "h = trim_end_matches (CHR ''.'') h @ replicate dots (CHR ''.'')"
    by (rule trim_end_matches_eq)
  from port(2) obtain tail where tail: "?lower = h @ tail"
    "tail = [] \<or> hd tail = CHR '':'' \<and> list_all is_ascii_digit (tl tail)" by force
  have digits: "is_ascii_digit c \<Longrightarrow> host_char c" for c
    by (simp add: is_ascii_digit_def host_char_def is_ascii_alphanumeric_def Let_def)
  have "host_char c \<or> c = CHR '':''" if "c \<in> set ?lower" for c
    using that tail hc digits by (cases tail) (auto simp: list_all_iff)
  then have "host_char c \<or> c = CHR '':''" if "c \<in> set (trim domain)" for c
    using that ascii_lower_host_char by (metis image_eqI set_map)
  moreover from ok v port(1) obtain addrs where
    "R (trim_end_matches (CHR ''.'') h) port = Ok addrs" "addrs \<noteq> []" "check_addrs addrs = Ok ()"
    by (auto simp: assert_hostname_resolves_public_def split: sum.splits if_splits)
  moreover from this R have "\<forall>a \<in> set addrs. \<not> special_ip a"
    by (auto simp: check_addrs_ok list_all_iff public_ip_exact)
  moreover have "?lower = trim_end_matches (CHR ''.'') h @ replicate dots (CHR ''.'') @ tail"
    using tail(1) dots by simp
  ultimately show ?thesis using h(3,5) tail(2) by blast
qed

definition sample_dns :: resolver where
  "sample_dns host port = (if host = ''p.cc'' then Ok [V4 [8, 8, 8, 8]] else Err ''unknown'')"

lemma sample_domain_eval:
  "trim ''P.cc'' = ''P.cc''"
  "map ascii_lower ''P.cc'' = ''p.cc''"
  "bare_hostname ''p.cc''"
  "host_part ''p.cc'' = Ok ''p.cc''"
  "split_host_port ''p.cc'' = (''p.cc'', 443)"
  "trim_end_matches (CHR ''.'') ''p.cc'' = ''p.cc''"
  "parse_ip_addr ''p.cc'' = None"
  "valid_labels (split_char (CHR ''.'') ''p.cc'') = Ok ()"
  "\<not> special_use ''p.cc''"
  "check_addrs [V4 [8, 8, 8, 8]] = Ok ()"
  subgoal by (simp add: trim_visible visible_def)
  subgoal by (simp add: ascii_lower_def char_of_eq_iff take_bit_eq_mod)
  subgoal by (simp add: bare_hostname_def)
  subgoal by (simp add: host_part_def rsplit_once_def)
  subgoal by (simp add: split_host_port_def rsplit_once_def)
  subgoal by (simp add: trim_end_matches_def)
  subgoal by (simp add: parser_eval)
  subgoal by (simp add: valid_label_def is_ascii_alphanumeric_def)
  subgoal by (simp add: special_use_def ends_with_def)
  subgoal by (simp add: is_public_ip_def is_public_v4_def)
  done

theorem guard_admits_public_hosts_witness:
  "assert_hostname_resolves_public sample_dns ''P.cc'' = Ok () \<and>
   \<not> special_ip (V4 [8, 8, 8, 8])"
proof -
  have "validate_federation_hostname ''P.cc'' = Ok ()"
    unfolding validate_federation_hostname_def Let_def sample_domain_eval sum.case
    by (simp add: sample_domain_eval)
  then have ok: "assert_hostname_resolves_public sample_dns ''P.cc'' = Ok ()"
    by (simp add: assert_hostname_resolves_public_def sample_domain_eval sample_dns_def
        del: list.map check_addrs.simps)
  have R: "\<forall>h p as. sample_dns h p = Ok as \<longrightarrow> list_all ip_ok as"
    by (auto simp: sample_dns_def split: if_splits)
  obtain host port addrs where "sample_dns host port = Ok addrs" "addrs \<noteq> []"
    "\<forall>a \<in> set addrs. \<not> special_ip a"
    using guard_admits_public_hosts [OF ok R] by blast
  then show ?thesis using ok by (auto simp: sample_dns_def split: if_splits)
qed

end
