(* ===== verification/Federation.thy ===== *)
theory Federation
  imports Ssrf Hybrid_Sig
begin

text \<open>
  Server to server messages: \<open>signing.rs\<close>, \<open>client.rs\<close> and \<open>discovery.rs\<close> of
  \<open>crates/construct-federation\<close>. A server signs a canonical form of the seven fields of a federated
  envelope; the destination fetches the origin's key over HTTPS and verifies.

  Ed25519, SHA-256, base64, DNS and HTTP are parameters. A lock that another thread poisoned is
  left out, as are the HTTP client's timeouts and the text of a rejected Ed25519 key.
\<close>

section \<open>Envelopes and signatures\<close>

datatype SigningError =
    InvalidSigningKey string
  | VerificationFailed
  | InvalidSignature string
  | RemoteKeyFetch string

definition show_signing_error :: "SigningError \<Rightarrow> string" where
  "show_signing_error e = (case e of
      InvalidSigningKey msg \<Rightarrow> ''Invalid signing key: '' @ msg
    | VerificationFailed \<Rightarrow> ''Signature verification failed''
    | InvalidSignature msg \<Rightarrow> ''Invalid signature format: '' @ msg
    | RemoteKeyFetch msg \<Rightarrow> ''Failed to fetch remote public key: '' @ msg)"

record federated_envelope =
  fe_message_id :: string
  fe_from :: string
  fe_to :: string
  fe_origin_server :: string
  fe_destination_server :: string
  fe_timestamp :: u64
  fe_payload_hash :: string

record s2s_crates =
  b64_encode :: "bytes \<Rightarrow> string"
  b64_decode :: "string \<Rightarrow> (string, bytes) result"
  s2s_sha256 :: "bytes \<Rightarrow> bytes"
  s2s_sig :: sig_prims

definition escape_byte :: "char \<Rightarrow> string" where
  "escape_byte b =
     (if b = CHR ''%'' then ''%25'' else if b = CHR '':'' then ''%3A'' else [b])"

definition escape_field :: "string \<Rightarrow> string" where
  "escape_field f = concat (map escape_byte f)"

definition canonical_fields :: "federated_envelope \<Rightarrow> string list" where
  "canonical_fields e =
     [fe_message_id e, fe_from e, fe_to e, fe_origin_server e, fe_destination_server e,
      show_nat (unat (fe_timestamp e)), fe_payload_hash e]"

definition canonical_bytes :: "federated_envelope \<Rightarrow> bytes" where
  "canonical_bytes e =
     as_bytes (concat (map (\<lambda>(index, field). (if index \<noteq> 0 then '':'' else []) @ escape_field field)
       (List.enumerate 0 (canonical_fields e))))"

definition hash_payload :: "s2s_crates \<Rightarrow> string \<Rightarrow> string" where
  "hash_payload C ciphertext = b64_encode C (s2s_sha256 C (as_bytes ciphertext))"

record server_signer =
  signing_key :: bytes
  verifying_key :: bytes
  signer_domain :: string

definition from_seed_base64 :: "s2s_crates \<Rightarrow> string \<Rightarrow> string \<Rightarrow> (SigningError, server_signer) result" where
  "from_seed_base64 C seed_b64 instance_domain =
     (case b64_decode C (trim seed_b64) of
        Err e \<Rightarrow> Err (InvalidSigningKey (''Invalid base64: '' @ e))
      | Ok seed \<Rightarrow>
          if length seed \<noteq> 32
          then Err (InvalidSigningKey (''Seed must be 32 bytes, got '' @ show_nat (length seed)))
          else Ok \<lparr>signing_key = seed, verifying_key = ed_public (s2s_sig C) seed,
                   signer_domain = instance_domain\<rparr>)"

definition public_key_base64 :: "s2s_crates \<Rightarrow> server_signer \<Rightarrow> string" where
  "public_key_base64 C signer = b64_encode C (verifying_key signer)"

definition sign_bytes :: "s2s_crates \<Rightarrow> server_signer \<Rightarrow> bytes \<Rightarrow> bytes" where
  "sign_bytes C signer data = ed_sign (s2s_sig C) (signing_key signer) data"

definition sign_message :: "s2s_crates \<Rightarrow> server_signer \<Rightarrow> federated_envelope \<Rightarrow> string" where
  "sign_message C signer e =
     b64_encode C (ed_sign (s2s_sig C) (signing_key signer) (canonical_bytes e))"

definition verify_signature ::
    "s2s_crates \<Rightarrow> string \<Rightarrow> federated_envelope \<Rightarrow> string \<Rightarrow> (SigningError, unit) result" where
  "verify_signature C public_key_b64 e signature_b64 =
     (case b64_decode C public_key_b64 of
        Err x \<Rightarrow> Err (InvalidSigningKey (''Invalid public key base64: '' @ x))
      | Ok public_key \<Rightarrow>
          if length public_key \<noteq> 32
          then Err (InvalidSigningKey
                 (''Public key must be 32 bytes, got '' @ show_nat (length public_key)))
          else if \<not> ed_key_ok (s2s_sig C) public_key
          then Err (InvalidSigningKey ''Invalid Ed25519 public key'')
          else case b64_decode C signature_b64 of
            Err x \<Rightarrow> Err (InvalidSignature (''Invalid signature base64: '' @ x))
          | Ok signature \<Rightarrow>
              if length signature \<noteq> 64
              then Err (InvalidSignature
                     (''Signature must be 64 bytes, got '' @ show_nat (length signature)))
              else if ed_verify (s2s_sig C) public_key (canonical_bytes e) signature then Ok ()
              else Err VerificationFailed)"

section \<open>Keys of other servers\<close>

record well_known =
  wk_public_key :: "string option"
  wk_federation :: "string option option"

record http_answer =
  ha_status :: nat
  ha_well_known :: "(string, well_known) result"

text \<open>
  DNS, an HTTP \<open>GET\<close> with its JSON body decoded, and the text of a status.
\<close>

record network =
  net_dns :: resolver
  net_get :: "string \<Rightarrow> (string, http_answer) result"
  net_status :: "nat \<Rightarrow> string"

definition is_success :: "nat \<Rightarrow> bool" where
  "is_success status \<longleftrightarrow> 200 \<le> status \<and> status < 300"

definition fetch_public_key :: "network \<Rightarrow> string \<Rightarrow> (SigningError, string) result" where
  "fetch_public_key N domain =
     (case assert_hostname_resolves_public (net_dns N) domain of
        Err e \<Rightarrow> Err (RemoteKeyFetch (''SSRF guard: '' @ e))
      | Ok _ \<Rightarrow>
          (case net_get N (''https://'' @ domain @ ''/.well-known/konstruct'') of
             Err e \<Rightarrow> Err (RemoteKeyFetch (''HTTP request failed: '' @ e))
           | Ok response \<Rightarrow>
               if \<not> is_success (ha_status response)
               then Err (RemoteKeyFetch
                      (''HTTP '' @ net_status N (ha_status response) @ '' from '' @ domain))
               else case ha_well_known response of
                 Err e \<Rightarrow> Err (RemoteKeyFetch (''Failed to parse JSON: '' @ e))
               | Ok body \<Rightarrow>
                   (case (case wk_public_key body of
                            Some k \<Rightarrow> Some k
                          | None \<Rightarrow> (case wk_federation body of None \<Rightarrow> None | Some k \<Rightarrow> k)) of
                      None \<Rightarrow> Err (RemoteKeyFetch
                        (''No public_key found in .well-known/konstruct for '' @ domain))
                    | Some k \<Rightarrow> Ok k)))"

record cached_public_key =
  cached_key :: string
  fetched_at :: nat

type_synonym key_cache = "string \<rightharpoonup> cached_public_key"

definition KEY_CACHE_TTL_NANOS :: nat where "KEY_CACHE_TTL_NANOS = 3600 * 10 ^ 9"

definition get_public_key ::
    "network \<Rightarrow> nat \<Rightarrow> nat \<Rightarrow> string \<Rightarrow> key_cache \<Rightarrow> key_cache \<times> (SigningError, string) result" where
  "get_public_key N now now' domain cache =
     (case assert_hostname_resolves_public (net_dns N) domain of
        Err e \<Rightarrow> (cache, Err (RemoteKeyFetch (''SSRF guard: '' @ e)))
      | Ok _ \<Rightarrow>
          (let fetch =
             (case fetch_public_key N domain of
                Err e \<Rightarrow> (cache, Err e)
              | Ok k \<Rightarrow> (cache(domain \<mapsto> \<lparr>cached_key = k, fetched_at = now'\<rparr>), Ok k))
           in case cache domain of
                Some c \<Rightarrow>
                  if now - fetched_at c < KEY_CACHE_TTL_NANOS then (cache, Ok (cached_key c))
                  else fetch
              | None \<Rightarrow> fetch))"

text \<open>\<open>fetch_origin_key\<close> of \<open>messaging-service/src/federation.rs\<close> makes a new cache per request.\<close>

definition fetch_origin_key :: "network \<Rightarrow> nat \<Rightarrow> nat \<Rightarrow> string \<Rightarrow> (SigningError, string) result" where
  "fetch_origin_key N now now' origin = snd (get_public_key N now now' origin Map.empty)"

section \<open>Forwarding a sealed message\<close>

record federated_sealed_request =
  fs_message_id :: string
  fs_sealed_inner :: string
  fs_origin_server :: string
  fs_timestamp :: u64
  fs_payload_hash :: string
  fs_server_signature :: "string option"

record federation_client =
  fc_signer :: "server_signer option"
  fc_domain :: string

definition client_new :: federation_client where
  "client_new = \<lparr>fc_signer = None, fc_domain = ''unknown''\<rparr>"

definition new_with_signer :: "server_signer \<Rightarrow> string \<Rightarrow> federation_client" where
  "new_with_signer signer domain = \<lparr>fc_signer = Some signer, fc_domain = domain\<rparr>"

definition sealed_envelope ::
    "s2s_crates \<Rightarrow> federation_client \<Rightarrow> string \<Rightarrow> string \<Rightarrow> bytes \<Rightarrow> u64 \<Rightarrow> federated_envelope" where
  "sealed_envelope C client target_domain i sealed_inner timestamp =
     \<lparr>fe_message_id = i, fe_from = [], fe_to = [], fe_origin_server = fc_domain client,
      fe_destination_server = target_domain, fe_timestamp = timestamp,
      fe_payload_hash = hash_payload C (b64_encode C sealed_inner)\<rparr>"

definition sealed_request ::
    "s2s_crates \<Rightarrow> federation_client \<Rightarrow> string \<Rightarrow> string \<Rightarrow> bytes \<Rightarrow> u64
     \<Rightarrow> federated_sealed_request" where
  "sealed_request C client target_domain i sealed_inner timestamp =
     \<lparr>fs_message_id = i, fs_sealed_inner = b64_encode C sealed_inner,
      fs_origin_server = fc_domain client, fs_timestamp = timestamp,
      fs_payload_hash = hash_payload C (b64_encode C sealed_inner),
      fs_server_signature = map_option (\<lambda>signer. sign_message C signer
        (sealed_envelope C client target_domain i sealed_inner timestamp)) (fc_signer client)\<rparr>"

text \<open>
  The answer to a \<open>POST\<close>: a status, the body as text, and the body read as the JSON the client
  expects.
\<close>

record post_answer =
  pa_status :: nat
  pa_text :: "string option"
  pa_json :: "(string, unit) result"

type_synonym poster = "string \<Rightarrow> federated_sealed_request \<Rightarrow> (string, post_answer) result"

definition em_dash :: string where
  "em_dash = map char_of [226, 128, 148 :: nat]"

text \<open>The request that is posted, if any, and the result.\<close>

definition send_sealed_message ::
    "s2s_crates \<Rightarrow> network \<Rightarrow> poster \<Rightarrow> federation_client \<Rightarrow> string \<Rightarrow> string \<Rightarrow> bytes \<Rightarrow> 64 word
     \<Rightarrow> (string \<times> federated_sealed_request) option \<times> (string, unit) result" where
  "send_sealed_message C N post client target_domain i sealed_inner timestamp =
     (case assert_hostname_resolves_public (net_dns N) target_domain of
        Err e \<Rightarrow> (None, Err (''SSRF guard rejected sealed target domain: '' @ e))
      | Ok _ \<Rightarrow>
          (let url = ''https://'' @ target_domain @ ''/federation/v1/sealed'';
               req = sealed_request C client target_domain i sealed_inner timestamp
           in (Some (url, req),
               case post url req of
                 Err e \<Rightarrow> Err e
               | Ok response \<Rightarrow>
                   if \<not> is_success (pa_status response)
                   then Err (''Sealed sender federation failed: HTTP '' @
                          net_status N (pa_status response) @ '' '' @ em_dash @ '' '' @
                          (case pa_text response of Some t \<Rightarrow> t | None \<Rightarrow> ''Unknown error''))
                   else case pa_json response of Err e \<Rightarrow> Err e | Ok _ \<Rightarrow> Ok ())))"

section \<open>Discovery\<close>

record federation_info =
  fi_server :: string
  fi_version :: string
  fi_enabled :: bool
  fi_protocol_version :: string
  fi_messages :: string
  fi_health :: string

definition discover_instance ::
    "network \<Rightarrow> (string \<Rightarrow> (string, nat \<times> (string, federation_info) result) result) \<Rightarrow> string
     \<Rightarrow> (string, federation_info) result" where
  "discover_instance N get_info domain =
     (case assert_hostname_resolves_public (net_dns N) domain of
        Err e \<Rightarrow> Err (''SSRF guard rejected domain: '' @ e)
      | Ok _ \<Rightarrow>
          (case get_info (''https://'' @ domain @ ''/.well-known/konstruct'') of
             Err e \<Rightarrow> Err e
           | Ok (status, body) \<Rightarrow>
               if \<not> is_success status
               then Err (''Federation discovery failed for '' @ domain @ '': HTTP '' @ net_status N status)
               else case body of
                 Err e \<Rightarrow> Err e
               | Ok info \<Rightarrow>
                   if \<not> fi_enabled info then Err (''Federation is disabled on '' @ domain)
                   else Ok info))"

section \<open>What a signature binds\<close>

lemma escape_field_no_colon: "CHR '':'' \<notin> set (escape_field f)"
  by (auto simp: escape_field_def escape_byte_def split: if_splits)

lemma escape_field_inj [simp]: "escape_field f = escape_field g \<longleftrightarrow> f = g"
proof
  show "escape_field f = escape_field g \<Longrightarrow> f = g"
  proof (induction f arbitrary: g)
    case Nil
    then show ?case by (cases g) (auto simp: escape_field_def escape_byte_def split: if_splits)
  next
    case (Cons c f)
    then obtain d g' where g: "g = d # g'"
      by (cases g) (auto simp: escape_field_def escape_byte_def split: if_splits)
    with Cons.prems have "c = d \<and> escape_field f = escape_field g'"
      by (auto simp: escape_field_def escape_byte_def split: if_splits)
    with Cons.IH g show ?case by blast
  qed
qed simp

lemma canonical_bytes_join:
  "canonical_bytes e = as_bytes (join (CHR '':'') (map escape_field (canonical_fields e)))"
  by (simp add: canonical_bytes_def canonical_fields_def)

text \<open>
  The bytes that are signed determine the envelope: two federated envelopes with the same
  canonical bytes agree in all seven fields, whatever colons and percent signs the fields contain.
  A signature made for one message is therefore a signature for no other sender, recipient, origin,
  destination, time or payload.
\<close>

theorem canonical_bytes_injective: "canonical_bytes d = canonical_bytes e \<longleftrightarrow> d = e"
proof
  assume "canonical_bytes d = canonical_bytes e"
  then have "map escape_field (canonical_fields d) = map escape_field (canonical_fields e)"
    unfolding canonical_bytes_join as_bytes_inj
    by (rule join_inj [rotated -1]) (auto simp: escape_field_no_colon canonical_fields_def)
  then show "d = e"
    by (auto simp: canonical_fields_def word_unat_eq_iff intro!: federated_envelope.equality)
qed simp

text \<open>What the crates promise: base64 and Ed25519 round trips.\<close>

definition s2s_ok :: "s2s_crates \<Rightarrow> bool" where
  "s2s_ok C \<longleftrightarrow> (\<forall>b. b64_decode C (b64_encode C b) = Ok b) \<and> prims_correct (s2s_sig C)"

definition signer_ok :: "s2s_crates \<Rightarrow> server_signer \<Rightarrow> bool" where
  "signer_ok C g \<longleftrightarrow>
     length (signing_key g) = 32 \<and> verifying_key g = ed_public (s2s_sig C) (signing_key g)"

lemma from_seed_signer_ok: "from_seed_base64 C seed domain = Ok g \<Longrightarrow> signer_ok C g"
  by (auto simp: from_seed_base64_def signer_ok_def split: sum.splits if_splits)

lemma sign_verify:
  assumes "s2s_ok C" and "signer_ok C g"
  shows "verify_signature C (public_key_base64 C g) e (sign_message C g e) = Ok ()"
  using assms
  by (simp add: verify_signature_def public_key_base64_def sign_message_def s2s_ok_def signer_ok_def
      prims_correct_def)

lemma cached_key_valid:
  assumes "get_public_key N now now' domain cache = (cache', Ok k)"
  shows "cache' domain = Some \<lparr>cached_key = k, fetched_at = now'\<rparr> \<and> fetch_public_key N domain = Ok k \<or>
    cache' = cache \<and> (\<exists>c. cache domain = Some c \<and> cached_key c = k \<and>
      now - fetched_at c < KEY_CACHE_TTL_NANOS)"
  using assms
  by (auto simp: get_public_key_def Let_def split: sum.splits option.splits if_splits)

lemma fetch_origin_key_dials: "fetch_origin_key N now now' origin = fetch_public_key N origin"
  by (auto simp: fetch_origin_key_def get_public_key_def fetch_public_key_def split: sum.splits)

end
