(* ===== verification/User_Id.thy ===== *)
theory User_Id
  imports Prelude
begin

text \<open>
  User addresses: \<open>crates/construct-types/src/user_id.rs\<close>. An address is a UUID, a UUID at a
  domain, or an account's recovery key, which resolves to an account through its route id.

  The \<open>uuid\<close>, \<open>hex\<close> and \<open>sha2\<close> crates are parameters; so is \<open>char::is_alphanumeric\<close> outside
  ASCII, where it follows the tables of Unicode.
\<close>

section \<open>Addresses\<close>

type_synonym RouteId = string

datatype 'u UserId =
    Local 'u
  | Federated 'u string
  | Identity bytes RouteId

datatype UserIdError =
    Empty
  | EmptyDomain
  | InvalidUuid string
  | InvalidDomain string
  | InvalidIdentityKey string

record 'u id_codecs =
  uuid_parse :: "string \<Rightarrow> 'u option"
  uuid_text :: "'u \<Rightarrow> string"
  id_hex_decode :: "string \<Rightarrow> bytes option"
  id_hex :: "bytes \<Rightarrow> string"
  id_sha256 :: "bytes \<Rightarrow> bytes"
  unicode_alnum :: "string \<Rightarrow> bool"

section \<open>Route ids\<close>

definition i16_be_bytes :: "16 word \<Rightarrow> bytes" where
  "i16_be_bytes w = [ucast (drop_bit 8 w), ucast w]"

definition IDENTITY_KEY_TYPE_ED25519 :: "16 word" where "IDENTITY_KEY_TYPE_ED25519 = 1"

definition route_id_compute :: "'u id_codecs \<Rightarrow> bytes \<Rightarrow> 16 word \<Rightarrow> RouteId" where
  "route_id_compute C identity_public_key identity_key_type =
     id_hex C (id_sha256 C (i16_be_bytes identity_key_type @ identity_public_key))"

definition of_account :: "'u id_codecs \<Rightarrow> bytes \<Rightarrow> RouteId" where
  "of_account C recovery_public_key =
     route_id_compute C recovery_public_key IDENTITY_KEY_TYPE_ED25519"

definition route_id_from_str :: "string \<Rightarrow> (string, RouteId) result" where
  "route_id_from_str s =
     (if length s \<noteq> 64 \<or> \<not> list_all is_ascii_hexdigit s
      then Err (''Invalid RouteId: must be 64 hex characters, got '' @ [CHR 0x27] @ s @ [CHR 0x27])
      else Ok (map ascii_lower s))"

section \<open>Parsing and printing\<close>

text \<open>\<open>str::chars\<close>: the bytes of one character each.\<close>

function utf8_chars :: "string \<Rightarrow> string list" where
  "utf8_chars [] = []"
| "utf8_chars (c # cs) =
     (c # takeWhile (\<lambda>c. utf8_cont (of_char c)) cs) #
       utf8_chars (dropWhile (\<lambda>c. utf8_cont (of_char c)) cs)"
  by pat_completeness auto
termination
  by (relation "measure length") (simp_all add: le_imp_less_Suc length_dropWhile_le)

definition is_alphanumeric :: "'u id_codecs \<Rightarrow> string \<Rightarrow> bool" where
  "is_alphanumeric C ch =
     (case ch of [c] \<Rightarrow> is_ascii_alphanumeric c | _ \<Rightarrow> unicode_alnum C ch)"

definition is_valid_domain :: "'u id_codecs \<Rightarrow> string \<Rightarrow> bool" where
  "is_valid_domain C domain =
     (if domain = [] then False
      else if CHR ''.'' \<notin> set domain then False
      else list_all (\<lambda>ch. is_alphanumeric C ch \<or> ch = ''.'' \<or> ch = ''-'') (utf8_chars domain))"

fun strip_prefix :: "string \<Rightarrow> string \<Rightarrow> string option" where
  "strip_prefix [] s = Some s"
| "strip_prefix (p # ps) [] = None"
| "strip_prefix (p # ps) (c # cs) = (if p = c then strip_prefix ps cs else None)"

declare strip_prefix.simps [simp del]

definition parse_user_id :: "'u id_codecs \<Rightarrow> string \<Rightarrow> (UserIdError, 'u UserId) result" where
  "parse_user_id C s =
     (if s = [] then Err Empty
      else case strip_prefix ''ed25519:'' s of
        Some encoded_key \<Rightarrow>
          (case id_hex_decode C encoded_key of
             None \<Rightarrow> Err (InvalidIdentityKey encoded_key)
           | Some key \<Rightarrow>
               if length key \<noteq> 32 then Err (InvalidIdentityKey encoded_key)
               else Ok (Identity key (of_account C key)))
      | None \<Rightarrow>
          (case split_once (CHR ''@'') s of
             Some (uuid_part, domain_part) \<Rightarrow>
               if domain_part = [] then Err EmptyDomain
               else if \<not> is_valid_domain C domain_part then Err (InvalidDomain domain_part)
               else (case uuid_parse C uuid_part of
                       None \<Rightarrow> Err (InvalidUuid uuid_part)
                     | Some u \<Rightarrow> Ok (Federated u domain_part))
           | None \<Rightarrow>
               (case uuid_parse C s of
                  None \<Rightarrow> Err (InvalidUuid s)
                | Some u \<Rightarrow> Ok (Local u))))"

definition show_user_id :: "'u id_codecs \<Rightarrow> 'u UserId \<Rightarrow> string" where
  "show_user_id C u = (case u of
      Local i \<Rightarrow> uuid_text C i
    | Federated i domain \<Rightarrow> uuid_text C i @ ''@'' @ domain
    | Identity key _ \<Rightarrow> ''ed25519:'' @ id_hex C key)"

definition show_user_id_error :: "UserIdError \<Rightarrow> string" where
  "show_user_id_error e = (case e of
      Empty \<Rightarrow> ''User ID cannot be empty''
    | EmptyDomain \<Rightarrow> ''Domain cannot be empty''
    | InvalidUuid s \<Rightarrow> ''Invalid UUID format: '' @ s
    | InvalidDomain s \<Rightarrow> ''Invalid domain format: '' @ s
    | InvalidIdentityKey s \<Rightarrow> ''Invalid Ed25519 identity key hex: '' @ s)"

definition is_local :: "'u UserId \<Rightarrow> bool" where
  "is_local u = (case u of Federated _ _ \<Rightarrow> False | _ \<Rightarrow> True)"

definition is_federated :: "'u UserId \<Rightarrow> bool" where
  "is_federated u = (case u of Federated _ _ \<Rightarrow> True | _ \<Rightarrow> False)"

definition domain_of :: "'u UserId \<Rightarrow> string option" where
  "domain_of u = (case u of Federated _ d \<Rightarrow> Some d | _ \<Rightarrow> None)"

definition uuid_of :: "'u UserId \<Rightarrow> 'u option" where
  "uuid_of u = (case u of Local i \<Rightarrow> Some i | Federated i _ \<Rightarrow> Some i | Identity _ _ \<Rightarrow> None)"

definition route_id :: "'u UserId \<Rightarrow> RouteId option" where
  "route_id u = (case u of Identity _ r \<Rightarrow> Some r | _ \<Rightarrow> None)"

definition is_from_domain :: "'u UserId \<Rightarrow> string \<Rightarrow> bool" where
  "is_from_domain u domain = (case u of Federated _ d \<Rightarrow> d = domain | _ \<Rightarrow> False)"

section \<open>What parsing answers\<close>

definition valid_user_id :: "'u id_codecs \<Rightarrow> 'u UserId \<Rightarrow> bool" where
  "valid_user_id C u = (case u of
      Local _ \<Rightarrow> True
    | Federated _ domain \<Rightarrow> is_valid_domain C domain
    | Identity key r \<Rightarrow> length key = 32 \<and> r = of_account C key)"

text \<open>
  A printed UUID is hexadecimal digits and dashes and parses to itself; hexadecimal text decodes
  to the bytes it was made from.
\<close>

definition codecs_ok :: "'u id_codecs \<Rightarrow> bool" where
  "codecs_ok C \<longleftrightarrow>
     (\<forall>u. uuid_parse C (uuid_text C u) = Some u \<and> uuid_text C u \<noteq> [] \<and>
        (\<forall>c \<in> set (uuid_text C u). is_ascii_hexdigit c \<or> c = CHR ''-'')) \<and>
     (\<forall>b. id_hex_decode C (id_hex C b) = Some b)"

lemma codecs_okD:
  assumes "codecs_ok C"
  shows "uuid_parse C (uuid_text C u) = Some u" "uuid_text C u \<noteq> []"
    "c \<in> set (uuid_text C u) \<Longrightarrow> is_ascii_hexdigit c \<or> c = CHR ''-''"
    "id_hex_decode C (id_hex C b) = Some b"
  using assms by (auto simp: codecs_ok_def)

lemma parse_user_id_valid:
  assumes "parse_user_id C s = Ok u"
  shows "valid_user_id C u"
  using assms
  by (auto simp: parse_user_id_def valid_user_id_def split: if_splits option.splits prod.splits)

lemma strip_prefix_eq: "strip_prefix p s = Some t \<longleftrightarrow> s = p @ t"
  by (induction p s rule: strip_prefix.induct) (auto simp: strip_prefix.simps)

lemma strip_prefix_some [simp]: "strip_prefix p (p @ s) = Some s"
  by (simp add: strip_prefix_eq)

lemma uuid_text_plain:
  assumes "codecs_ok C"
  shows "CHR ''@'' \<notin> set (uuid_text C u)" "CHR '':'' \<notin> set (uuid_text C u)"
  using codecs_okD(3) [OF assms, of "CHR ''@''"] codecs_okD(3) [OF assms, of "CHR '':''"]
  by (auto simp: is_ascii_hexdigit_def)

lemma strip_prefix_noneI:
  assumes "CHR '':'' \<notin> set u"
  shows "strip_prefix ''ed25519:'' (u @ CHR ''@'' # d) = None" "strip_prefix ''ed25519:'' u = None"
proof -
  have False if "u @ CHR ''@'' # d = ''ed25519:'' @ t" for t
    using that assms by (auto simp: append_eq_Cons_conv)
  then show "strip_prefix ''ed25519:'' (u @ CHR ''@'' # d) = None"
    using strip_prefix_eq not_None_eq by metis
  have False if "u = ''ed25519:'' @ t" for t
    using that assms by simp
  then show "strip_prefix ''ed25519:'' u = None"
    using strip_prefix_eq not_None_eq by metis
qed

lemma parse_show_user_id:
  assumes C: "codecs_ok C" and u: "valid_user_id C u"
  shows "parse_user_id C (show_user_id C u) = Ok u"
proof (cases u)
  case (Local i)
  with C u show ?thesis
    by (simp add: parse_user_id_def show_user_id_def codecs_okD strip_prefix_noneI
        uuid_text_plain split_once_none)
next
  case (Federated i d)
  with u have "d \<noteq> []" by (auto simp: valid_user_id_def is_valid_domain_def)
  with C u Federated show ?thesis
    by (simp add: parse_user_id_def show_user_id_def codecs_okD strip_prefix_noneI
        uuid_text_plain split_once_append valid_user_id_def)
next
  case (Identity k r)
  with C u show ?thesis
    by (simp only: parse_user_id_def show_user_id_def UserId.case strip_prefix_some option.case
        codecs_okD(4) valid_user_id_def) simp
qed

text \<open>
  Two valid addresses print alike only when they are one address, so an address kept as text names
  one account.
\<close>

lemma show_user_id_inj:
  assumes "codecs_ok C" and "valid_user_id C u" and "valid_user_id C v"
    and "show_user_id C u = show_user_id C v"
  shows "u = v"
  using parse_show_user_id [OF assms(1,2)] parse_show_user_id [OF assms(1,3)] assms(4)
  by (metis Inr_inject)

lemma key_address_routes:
  assumes "parse_user_id C s = Ok u" and k: "strip_prefix ''ed25519:'' s = Some k"
  shows "\<exists>key. id_hex_decode C k = Some key \<and> route_id u = Some (of_account C key)"
  using assms(1) unfolding parse_user_id_def k option.case
  by (cases "id_hex_decode C k") (auto simp: route_id_def split: if_splits)

end
