(* ===== verification/Sealed_Send.thy ===== *)
theory Sealed_Send
  imports Delivery_Tag Token_Redeem Dispatch Federation User_Id Sliding_Window
    "HOL-Library.List_Lexorder" "HOL-Library.Char_ord"
begin

text \<open>
  Sending a sealed message: \<open>token_gate_action\<close> and \<open>dispatch_sealed_sender\<close> of
  \<open>messaging-service/src/envelope.rs\<close>, the helpers of \<open>core.rs\<close> it calls,
  \<open>MessageEnvelope::from_sealed_sender\<close>, and the RPC \<open>send_sealed_message\<close> of \<open>grpc.rs\<close>. The
  function composes the federation client, the intake check, token redemption, the replay cache
  and the mailbox dispatch, each modelled in its own theory.

  The state is a pair of stores: the Redis connection that tokens, intake tags and delivery tags
  use, and the mailbox server. Protobuf decoding of the inner message and two database queries are
  parameters; fresh message ids and the clock are arguments. Metrics and logging are left out.
\<close>

section \<open>The token gate\<close>

datatype StealthTokenPolicy = Off | Warn | Enforce

datatype TokenGateAction = Deliver | Reject | DeliverUnchecked

definition token_gate_action :: "StealthTokenPolicy \<Rightarrow> TokenRedeemResult \<Rightarrow> TokenGateAction" where
  "token_gate_action policy result =
     (if is_accept result then Deliver
      else if policy = Off then Deliver
      else if result = RedisError then DeliverUnchecked
      else if policy = Enforce then Reject
      else Deliver)"

section \<open>Messages\<close>

record sealed_sender_envelope =
  ss_recipient_server :: string
  ss_sealed_inner :: bytes
  ss_forwarding_token :: bytes
  ss_timestamp :: u64

text \<open>The fields of \<open>SealedInner\<close> that the server reads.\<close>

record inner_message =
  in_recipient_user_id :: string
  in_delivery_tag :: bytes
  in_token_nonce :: bytes
  in_token_bytes :: bytes
  in_token_spend_id :: bytes
  in_recipient_device :: string
  in_intake_tag_sealed :: bytes

record send_response =
  sr_message_id :: string
  sr_message_number :: nat
  sr_server_timestamp :: int
  sr_success :: bool
  sr_attempt_id :: "string option"
  sr_intake_verdict :: IntakeVerdict
  sr_active_devices :: "string list"

datatype send_error = TokenRejected string | SendError string

definition show_send_error :: "send_error \<Rightarrow> string" where
  "show_send_error e = (case e of TokenRejected label \<Rightarrow> ''privacy_pass:'' @ label | SendError t \<Rightarrow> t)"

record ('k, 'p, 'x, 'r, 's) sealed_context =
  sc_redeemer :: "('k, 'p, 'x) redeemer"
  sc_kv :: "'r kv"
  sc_mail :: "'s mail_server"
  sc_dispatch :: dispatch_world
  sc_notify :: bool
  sc_codecs :: "string id_codecs"
  sc_s2s :: s2s_crates
  sc_network :: network
  sc_post :: poster
  sc_signer :: "server_signer option"
  sc_domain :: string
  sc_policy :: StealthTokenPolicy
  sc_issuer_key :: "bytes option"
  sc_static_secret :: "'x option"
  sc_decode_inner :: "bytes \<Rightarrow> (string, inner_message) result"
  sc_user_by_route :: "RouteId \<Rightarrow> (string, string option) result"
  sc_device_owner :: "string \<Rightarrow> (string, string option option) result"

definition ctx_digests :: "('k, 'p, 'x, 'r, 's) sealed_context \<Rightarrow> digests" where
  "ctx_digests X = \<lparr>dg_sha256 = sha256 (sc_redeemer X), dg_hex = hex_encode (sc_redeemer X)\<rparr>"

definition from_sealed_sender ::
    "digests \<Rightarrow> int \<Rightarrow> string \<Rightarrow> string \<Rightarrow> string option \<Rightarrow> bytes \<Rightarrow> message_envelope" where
  "from_sealed_sender D now i recipient device inner =
     \<lparr>message_id = i, sender_id = [], recipient_id = recipient, timestamp = now,
      message_type = SealedSender, ephemeral_public_key = None, message_number = None,
      mls_payload = None, group_id = None, encrypted_payload = [],
      content_hash = dg_hex D (dg_sha256 D (as_bytes i @ inner)), crypto_suite_id = 0,
      origin_server = None, federated = False, server_signature = None, is_sealed_sender = True,
      sealed_inner = Some (text_of inner), max_queue_len = None, proto_content_type = None,
      recipient_device = device\<rparr>"

section \<open>Devices in the answer\<close>

definition reported_active_devices :: "bool \<Rightarrow> bool \<Rightarrow> string list \<Rightarrow> string list" where
  "reported_active_devices addressed_by_key names_a_device active_devices =
     (if addressed_by_key \<and> \<not> names_a_device then [] else sort active_devices)"

definition names_a_device_of ::
    "('k, 'p, 'x, 'r, 's) sealed_context \<Rightarrow> string \<Rightarrow> string option \<Rightarrow> string list \<Rightarrow> bool" where
  "names_a_device_of X recipient named active_devices =
     (case named of
        None \<Rightarrow> False
      | Some d \<Rightarrow>
          if d \<in> set active_devices then True
          else (case uuid_parse (sc_codecs X) recipient of
                  None \<Rightarrow> False
                | Some r \<Rightarrow>
                    (case sc_device_owner X d of
                       Ok (Some owner) \<Rightarrow> owner = Some r
                     | _ \<Rightarrow> False)))"

section \<open>Dispatch of a sealed message\<close>

text \<open>The fresh ids of a call, the clock in seconds, and the time put on the answer.\<close>

record send_call =
  call_id :: string
  call_replay_id :: string
  call_now :: u64
  call_stamp :: int
  call_millis :: int

definition response ::
    "string \<Rightarrow> int \<Rightarrow> IntakeVerdict \<Rightarrow> string list \<Rightarrow> send_response" where
  "response i t v devices =
     \<lparr>sr_message_id = i, sr_message_number = 0, sr_server_timestamp = t, sr_success = True,
      sr_attempt_id = None, sr_intake_verdict = v, sr_active_devices = devices\<rparr>"

type_synonym ('r, 's) send_result = "('r \<times> 's) \<times> (send_error, send_response) result \<times> wake_push option"

definition forward_sealed ::
    "('k, 'p, 'x, 'r, 's) sealed_context \<Rightarrow> send_call \<Rightarrow> sealed_sender_envelope
     \<Rightarrow> (string \<times> federated_sealed_request) option \<times> (send_error, send_response) result" where
  "forward_sealed X call sealed =
     (let target = ss_recipient_server sealed;
          client = (case sc_signer X of
                      Some signer \<Rightarrow> new_with_signer signer (sc_domain X)
                    | None \<Rightarrow> client_new);
          (posted, res) = send_sealed_message (sc_s2s X) (sc_network X) (sc_post X) client target
                  (call_id call) (ss_sealed_inner sealed) (ss_timestamp sealed)
      in (posted, case res of
           Err e \<Rightarrow> Err (SendError (''Sealed sender federation failed to '' @ target @ '': '' @ e))
         | Ok _ \<Rightarrow> Ok (response (call_id call) (call_millis call) VerdictUnspecified [])))"

text \<open>
  The address of the recipient: a key address resolves to an account, or to none, and any other
  text is taken as it is.
\<close>

datatype addressee = Resolved bool string | Unresolved string | BadAddress string

definition resolve_recipient ::
    "('k, 'p, 'x, 'r, 's) sealed_context \<Rightarrow> string \<Rightarrow> addressee" where
  "resolve_recipient X address =
     (if strip_prefix ''ed25519:'' address = None then Resolved False address
      else case parse_user_id (sc_codecs X) address of
        Err e \<Rightarrow> BadAddress (''Invalid sealed recipient address: '' @ show_user_id_error e)
      | Ok parsed \<Rightarrow>
          (case route_id parsed of
             None \<Rightarrow> BadAddress ''Sealed recipient address did not produce a route_id''
           | Some rid \<Rightarrow>
               (case sc_user_by_route X rid of
                  Err e \<Rightarrow> BadAddress e
                | Ok (Some user) \<Rightarrow> Resolved True user
                | Ok None \<Rightarrow> Unresolved address)))"

definition intake_check ::
    "('k, 'p, 'x, 'r, 's) sealed_context \<Rightarrow> send_call \<Rightarrow> inner_message \<Rightarrow> string \<Rightarrow> 'r
     \<Rightarrow> 'r \<times> IntakeCheck" where
  "intake_check X call inner recipient r =
     check_intake_credential (ctx_digests X) (rd_box (sc_redeemer X)) (sc_kv X)
       (sc_static_secret X) (in_intake_tag_sealed inner) recipient (call_now call) r"

definition redeem_for ::
    "('k, 'p, 'x, 'r, 's) sealed_context \<Rightarrow> inner_message \<Rightarrow> string \<Rightarrow> 'r \<Rightarrow> 'r \<times> TokenRedeemResult" where
  "redeem_for X inner recipient r =
     redeem_token_checked (sc_redeemer X) (sc_kv X) (sc_issuer_key X) (sc_static_secret X)
       (in_token_nonce inner) (in_token_bytes inner) (in_token_spend_id inner) recipient r"

text \<open>The token gate of a send: the verdict on the intake tag, or the label of a rejection.\<close>

definition token_gate ::
    "('k, 'p, 'x, 'r, 's) sealed_context \<Rightarrow> send_call \<Rightarrow> inner_message \<Rightarrow> string \<Rightarrow> 'r
     \<Rightarrow> 'r \<times> (string, IntakeVerdict) result" where
  "token_gate X call inner recipient r =
     (if sc_policy X = Off then (r, Ok VerdictUnspecified)
      else
        let (r1, intake) = intake_check X call inner recipient r in
        if owes_token intake
        then let (r2, result) = redeem_for X inner recipient r1 in
             if token_gate_action (sc_policy X) result = Reject
             then (r2, Err (as_label result))
             else (r2, Ok (verdict intake))
        else (r1, Ok (verdict intake)))"

definition deliver_sealed ::
    "('k, 'p, 'x, 'r, 's) sealed_context \<Rightarrow> send_call \<Rightarrow> bytes \<Rightarrow> inner_message \<Rightarrow> bool \<Rightarrow> string
     \<Rightarrow> IntakeVerdict \<Rightarrow> 'r \<times> 's \<Rightarrow> ('r, 's) send_result" where
  "deliver_sealed X call raw inner by_key recipient v rs =
     (let (r, s) = rs;
          device = normalize_device_id (in_recipient_device inner);
          active = fetch_recipient_device_ids (sc_dispatch X) recipient;
          devices = reported_active_devices by_key
            (by_key \<and> names_a_device_of X recipient device active) active;
          tag = in_delivery_tag inner;
          (r1, status) = (if tag \<noteq> [] then check_and_mark_delivery_tag (ctx_digests X) (sc_kv X) tag r
                          else (r, Ok NewTag))
      in case status of
           Ok ExactCacheHit \<Rightarrow>
             ((r1, s), Ok (response (call_replay_id call) (call_millis call) v devices), None)
         | Ok SeenCacheHit \<Rightarrow>
             ((r1, s), Ok (response (call_replay_id call) (call_millis call) v devices), None)
         | _ \<Rightarrow>
             (case dispatch_envelope (sc_mail X) (sc_dispatch X) (sc_notify X)
                     (from_sealed_sender (ctx_digests X) (call_stamp call) (call_id call)
                        recipient device raw) s of
                (s1, Err e, _) \<Rightarrow>
                  ((if tag \<noteq> [] then fst (unmark_delivery_tag (ctx_digests X) (sc_kv X) tag r1) else r1,
                    s1), Err (SendError e), None)
              | (s1, Ok _, push) \<Rightarrow>
                  ((r1, s1), Ok (response (call_id call) (call_millis call) v devices), push)))"

definition dispatch_sealed_sender ::
    "('k, 'p, 'x, 'r, 's) sealed_context \<Rightarrow> send_call \<Rightarrow> sealed_sender_envelope \<Rightarrow> 'r \<times> 's
     \<Rightarrow> ('r, 's) send_result" where
  "dispatch_sealed_sender X call sealed rs =
     (if ss_recipient_server sealed \<noteq> [] \<and> ss_recipient_server sealed \<noteq> sc_domain X
      then (rs, snd (forward_sealed X call sealed), None)
      else (case sc_decode_inner X (ss_sealed_inner sealed) of
        Err e \<Rightarrow> (rs, Err (SendError (''Failed to decode SealedInner: '' @ e)), None)
      | Ok inner \<Rightarrow>
          if in_recipient_user_id inner = []
          then (rs, Err (SendError ''SealedInner.recipient_user_id is required''), None)
          else (case resolve_recipient X (in_recipient_user_id inner) of
            BadAddress e \<Rightarrow> (rs, Err (SendError e), None)
          | Unresolved address \<Rightarrow>
              (let (r, s) = rs;
                   (r1, v) =
                     (if sc_policy X = Off then (r, VerdictUnspecified)
                      else let (r1, c) = intake_check X call inner address r in (r1, verdict c))
               in ((r1, s), Ok (response (call_id call) (call_millis call) v []), None))
          | Resolved by_key recipient \<Rightarrow>
              (let (r, s) = rs in
               case token_gate X call inner recipient r of
                 (r1, Err label) \<Rightarrow> ((r1, s), Err (TokenRejected label), None)
               | (r1, Ok v) \<Rightarrow>
                   deliver_sealed X call (ss_sealed_inner sealed) inner by_key recipient v (r1, s)))))"

section \<open>The RPC\<close>

datatype rpc_status =
    ResourceExhausted string
  | InvalidArgument string
  | FailedPrecondition string
  | Internal string

definition map_sealed_dispatch_error :: "send_error \<Rightarrow> rpc_status" where
  "map_sealed_dispatch_error e =
     (case e of
        TokenRejected _ \<Rightarrow> FailedPrecondition (show_send_error e)
      | SendError _ \<Rightarrow> Internal (show_send_error e))"

record sealed_request_message =
  sq_sealed_sender :: "sealed_sender_envelope option"
  sq_attempt_id :: "string option"
  sq_forwarded_for :: "string option"
  sq_real_ip :: "string option"

definition send_sealed_rpc ::
    "'z zset_server \<Rightarrow> nat \<Rightarrow> ('k, 'p, 'x, 'r, 's) sealed_context \<Rightarrow> clock \<Rightarrow> send_call
     \<Rightarrow> sealed_request_message \<Rightarrow> degraded_limiter \<times> 'z \<times> ('r \<times> 's)
     \<Rightarrow> (degraded_limiter \<times> 'z \<times> ('r \<times> 's)) \<times> (rpc_status, send_response) result \<times> wake_push option" where
  "send_sealed_rpc Z limit X t call req st =
     (let (door, z, rs) = st;
          client_ip = extract_client_ip (sq_forwarded_for req) (sq_real_ip req);
          (door1, z1, decision) = check_sealed_ip_limit Z limit client_ip t door z
      in if decision = Limited
         then ((door1, z1, rs),
               Err (ResourceExhausted ''sealed-sender rate limit exceeded for this IP''), None)
         else (case sq_sealed_sender req of
             None \<Rightarrow> ((door1, z1, rs), Err (InvalidArgument ''sealed_sender is required''), None)
           | Some sealed \<Rightarrow>
               (case dispatch_sealed_sender X call sealed rs of
                  (rs1, Err e, push) \<Rightarrow> ((door1, z1, rs1), Err (map_sealed_dispatch_error e), push)
                | (rs1, Ok resp, push) \<Rightarrow>
                    ((door1, z1, rs1), Ok (resp\<lparr>sr_attempt_id := sq_attempt_id req\<rparr>), push))))"

section \<open>What a send leaves alone\<close>

lemma lookup_epochs_keeps:
  assumes K: "kv_ok K V W"
  shows "lookup_epochs D K presented recipient epochs b r = (r', c) \<Longrightarrow> keeps_key K V W k r r'"
proof (induction epochs arbitrary: b r)
  case (Cons e epochs)
  let ?m = "\<lambda>r. (r, Some (kv_members K r (tag_key D recipient e)))"
  let ?l = "\<lambda>r. (r, Some (kv_get K r (legacy_tag_key D recipient e)))"
  obtain r1 a where 1: "round_trip K ?m r = (r1, a)" by (cases "round_trip K ?m r")
  obtain r2 d where 2: "round_trip K ?l r1 = (r2, d)" by (cases "round_trip K ?l r1")
  have "keeps_key K V W k r r1" by (rule round_trip_keeps_key [OF K 1]) simp
  moreover have "keeps_key K V W k r1 r2" by (rule round_trip_keeps_key [OF K 2]) simp
  ultimately have keeps: "keeps_key K V W k r r2" by (rule keeps_trans)
  from Cons.prems 1 2 have "r' = r2 \<or> (\<exists>b'. lookup_epochs D K presented recipient epochs b' r2 = (r', c))"
    by (auto split: sum.splits if_splits option.splits)
  with Cons.IH keeps show ?case by (metis keeps_trans)
qed simp

lemma intake_keeps:
  assumes "kv_ok (sc_kv X) V W" and "intake_check X call inner recipient r = (r', c)"
  shows "keeps_key (sc_kv X) V W k r r'"
  using assms(2) lookup_epochs_keeps [OF assms(1)]
  by (auto simp: intake_check_def check_intake_credential_def split: if_splits option.splits sum.splits)

lemma incr_keeps:
  assumes "kv_ok K V W" and "kv_incr_by K r k' i = Some (r', m)" and "k \<noteq> k'"
  shows "keeps_key K V W k r r'"
  by (rule incr_cases [OF assms(1), of r k' i]) (use assms(2,3) in \<open>auto simp: keeps_key_def\<close>)

lemma scripts_keep:
  assumes K: "kv_ok K V W" and k: "k \<noteq> k'"
  shows "keeps_key K V W k r (fst (cover_script K k' r))"
    and "keeps_key K V W k r (fst (open_script K k' r))"
    and "keeps_key K V W k r (fst (set_nx_ex K k' v ttl r))"
proof -
  have set: "keeps_key K V W k r (kv_set_ex K r k' v n)" for v n
    using k by (simp add: keeps_key_def kv_views [OF K])
  note incr = incr_keeps [OF K _ k]
  show "keeps_key K V W k r (fst (cover_script K k' r))"
    by (auto simp: cover_script_def incr split: option.splits)
  show "keeps_key K V W k r (fst (open_script K k' r))"
    by (auto simp: open_script_def incr set split: option.splits)
  show "keeps_key K V W k r (fst (set_nx_ex K k' v ttl r))"
    by (simp add: set_nx_ex_def set)
qed

text \<open>Keys that redemption does not write; the marks of a delivery tag are such keys.\<close>

definition unspent_key :: "('k, 'p, 'x) redeemer \<Rightarrow> key \<Rightarrow> bool" where
  "unspent_key E k \<longleftrightarrow> (\<forall>sid u. k \<noteq> unit_key E sid u) \<and> (\<forall>n. k \<noteq> spent_key E n)"

lemma tag_keys_unspent:
  "k \<in> tag_keys D tag \<Longrightarrow> unspent_key E k"
  by (auto simp: unspent_key_def tag_keys_def seen_key_def exact_key_def unit_key_def spent_key_def)

lemma redeem_keeps:
  assumes K: "kv_ok (sc_kv X) V W" and run: "redeem_for X inner recipient r = (r', t)"
    and k: "unspent_key (sc_redeemer X) k"
  shows "keeps_key (sc_kv X) V W k r r'"
proof -
  let ?K = "sc_kv X" and ?E = "sc_redeemer X" 
  have cover: "keeps_key ?K V W k r (fst (try_cover_with_paid_unit ?E ?K sid u r))" for sid u r
    by (auto simp: try_cover_with_paid_unit_def split: prod.splits
        simp: k [unfolded unspent_key_def]
        intro!: round_trip_keeps_key [OF K _ scripts_keep(1) [OF K]])
  have opens: "keeps_key ?K V W k r (fst (open_spend_unit ?E ?K sid u r))" for sid u r
    by (auto simp: open_spend_unit_def split: prod.splits
        simp: k [unfolded unspent_key_def]
        intro!: round_trip_keeps_key [OF K _ scripts_keep(2) [OF K]])
  have token: "keeps_key ?K V W k r (fst (redeem_token ?E ?K key secret n b r))" for key secret n b r
    by (auto simp: redeem_token_def split: prod.splits option.splits
        simp: k [unfolded unspent_key_def]
        intro!: round_trip_keeps_key [OF K _ scripts_keep(3) [OF K]])
  have rest: "keeps_key ?K V W k r r'" if "redeem_for_sealed_send ?E ?K key secret n b sid u r = (r', t)"
    for key secret n b sid u
  proof -
    obtain r1 look where 1: "(case normalize_spend_id sid of Ok (Some i) \<Rightarrow>
        try_cover_with_paid_unit ?E ?K i u r | _ \<Rightarrow> (r, NeedToken)) = (r1, look)" by force
    have k1: "keeps_key ?K V W k r r1"
      using 1 cover by (auto split: sum.splits option.splits) (metis fst_conv)
    obtain r2 res where 2: "redeem_token ?E ?K key secret n b r1 = (r2, res)" by force
    have k2: "keeps_key ?K V W k r r2" using keeps_trans [OF k1] token [of r1] 2 by (metis fst_conv)
    have k3: "keeps_key ?K V W k r (fst (open_spend_unit ?E ?K i u r2))" for i
      using keeps_trans [OF k2 opens] .
    show ?thesis
      using that 1 2 k1 k2 k3
      by (auto simp: redeem_for_sealed_send_def Let_def
          split: sum.splits option.splits UnitLookup.splits if_splits prod.splits)
  qed
  show ?thesis
    using run rest by (auto simp: redeem_for_def redeem_token_checked_def split: option.splits)
qed

lemma token_gate_keeps:
  assumes K: "kv_ok (sc_kv X) V W" and run: "token_gate X call inner recipient r = (r', v)"
    and k: "unspent_key (sc_redeemer X) k"
  shows "keeps_key (sc_kv X) V W k r r'"
proof -
  obtain r1 c where 1: "intake_check X call inner recipient r = (r1, c)" by force
  obtain r2 t where 2: "redeem_for X inner recipient r1 = (r2, t)" by force
  have "r' = r \<or> r' = r1 \<or> r' = r2"
    using run 1 2 by (auto simp: token_gate_def split: if_splits)
  with intake_keeps [OF K 1] keeps_trans [OF intake_keeps [OF K 1] redeem_keeps [OF K 2 k]]
  show ?thesis by auto
qed

section \<open>Delivery\<close>

lemma deliver_sealed_cases:
  assumes "deliver_sealed X call raw inner by_key recipient v (r, s) = ((r', s'), res, push)"
  obtains (replay) resp where "s' = s" "push = None" "res = Ok resp"
      "sr_message_id resp = call_replay_id call"
      "in_delivery_tag inner \<noteq> []"
      "\<exists>st. st \<noteq> NewTag \<and> check_and_mark_delivery_tag (ctx_digests X) (sc_kv X) (in_delivery_tag inner) r
          = (r', Ok st)"
  | (sent) r1 status resp where "res = Ok resp" "sr_message_id resp = call_id call" "r' = r1"
      "if in_delivery_tag inner = [] then r1 = r
       else check_and_mark_delivery_tag (ctx_digests X) (sc_kv X) (in_delivery_tag inner) r
         = (r1, status) \<and> (status = Ok NewTag \<or> status = Err ())"
      "\<exists>u. dispatch_envelope (sc_mail X) (sc_dispatch X) (sc_notify X)
         (from_sealed_sender (ctx_digests X) (call_stamp call) (call_id call) recipient
            (normalize_device_id (in_recipient_device inner)) raw) s = (s', Ok u, push)"
  | (failed) r1 status e where "res = Err (SendError e)" "push = None"
      "if in_delivery_tag inner = [] then r1 = r \<and> r' = r
       else check_and_mark_delivery_tag (ctx_digests X) (sc_kv X) (in_delivery_tag inner) r
           = (r1, status) \<and> (status = Ok NewTag \<or> status = Err ()) \<and>
         r' = fst (unmark_delivery_tag (ctx_digests X) (sc_kv X) (in_delivery_tag inner) r1)"
      "\<exists>p. dispatch_envelope (sc_mail X) (sc_dispatch X) (sc_notify X)
         (from_sealed_sender (ctx_digests X) (call_stamp call) (call_id call) recipient
            (normalize_device_id (in_recipient_device inner)) raw) s = (s', Err e, p)"
proof -
  let ?tag = "in_delivery_tag inner"
  let ?check = "if ?tag \<noteq> [] then check_and_mark_delivery_tag (ctx_digests X) (sc_kv X) ?tag r
    else (r, Ok NewTag)"
  let ?e = "from_sealed_sender (ctx_digests X) (call_stamp call) (call_id call) recipient
    (normalize_device_id (in_recipient_device inner)) raw"
  obtain r1 status where c: "?check = (r1, status)" by force
  obtain s1 d p where d: "dispatch_envelope (sc_mail X) (sc_dispatch X) (sc_notify X) ?e s = (s1, d, p)"
    by (cases "dispatch_envelope (sc_mail X) (sc_dispatch X) (sc_notify X) ?e s") auto
  note unfold = assms [unfolded deliver_sealed_def Let_def prod.case c d]
  show thesis
  proof (cases "status = Ok NewTag \<or> status = Err ()")
    case True
    show thesis
    proof (cases d)
      case (Inl e)
      with unfold True have "res = Err (SendError e)" "push = None" "s' = s1"
        "r' = (if ?tag \<noteq> [] then fst (unmark_delivery_tag (ctx_digests X) (sc_kv X) ?tag r1) else r1)"
        by auto
      with c d Inl True show thesis by (intro failed [of e r1 status]) (auto split: if_splits)
    next
      case (Inr u)
      with unfold True obtain resp where "res = Ok resp" "sr_message_id resp = call_id call" "s' = s1"
        "r' = r1" "push = p" by (auto simp: response_def)
      with c d Inr True show thesis by (intro sent [of resp r1 status]) (auto split: if_splits)
    qed
  next
    case False
    then obtain st where st: "status = Ok st" "st \<noteq> NewTag" by (cases status) auto
    with unfold obtain resp where "res = Ok resp" "sr_message_id resp = call_replay_id call" "s' = s"
      "r' = r1" "push = None" by (cases st) (auto simp: response_def)
    moreover have "?tag \<noteq> []" using c st by (auto split: if_splits)
    ultimately show thesis using c st by (intro replay [of resp]) (auto split: if_splits)
  qed
qed

text \<open>The ways a send to an account of this server ends before and after the token gate.\<close>

lemma local_send_cases:
  assumes "dispatch_sealed_sender X call sealed (r, s) = ((r', s'), res, push)"
    and "ss_recipient_server sealed = [] \<or> ss_recipient_server sealed = sc_domain X"
    and "sc_decode_inner X (ss_sealed_inner sealed) = Ok inner"
    and "resolve_recipient X (in_recipient_user_id inner) = Resolved by_key recipient"
  obtains (empty) "in_recipient_user_id inner = []" "r' = r" "s' = s" "push = None"
      "\<exists>e. res = Err (SendError e)"
  | (rejected) label where "token_gate X call inner recipient r = (r', Err label)" "s' = s" "push = None"
      "res = Err (TokenRejected label)"
  | (passed) r1 v where "token_gate X call inner recipient r = (r1, Ok v)"
      "deliver_sealed X call (ss_sealed_inner sealed) inner by_key recipient v (r1, s) = ((r', s'), res, push)"
proof (cases "in_recipient_user_id inner = []")
  case True
  with assms empty show thesis by (auto simp: dispatch_sealed_sender_def)
next
  case False
  obtain r1 g where g: "token_gate X call inner recipient r = (r1, g)" by force
  show thesis
    using assms False g rejected passed
    by (cases g) (auto simp: dispatch_sealed_sender_def)
qed

lemma unsent_otherwise:
  assumes "dispatch_sealed_sender X call sealed (r, s) = ((r', s'), res, push)"
    and "\<nexists>inner by_key recipient. sc_decode_inner X (ss_sealed_inner sealed) = Ok inner \<and>
      resolve_recipient X (in_recipient_user_id inner) = Resolved by_key recipient \<and>
      (ss_recipient_server sealed = [] \<or> ss_recipient_server sealed = sc_domain X)"
  shows "s' = s \<and> push = None \<and> (\<forall>label. res \<noteq> Err (TokenRejected label))"
  using assms
  by (auto simp: dispatch_sealed_sender_def forward_sealed_def Let_def
      split: if_splits sum.splits addressee.splits prod.splits)

text \<open>
  C9. Under the policy \<open>Enforce\<close> nothing is written to a mailbox and nobody is woken unless the
  envelope paid: it is addressed to an account of this server and either its intake tag was vouched
  for, or its token was accepted for this recipient, or the token store could not be asked. A
  rejected envelope leaves every mailbox as it was.
\<close>

theorem enforced_delivery_is_paid:
  assumes run: "dispatch_sealed_sender X call sealed (r, s) = ((r', s'), res, push)"
    and pol: "sc_policy X = Enforce"
  shows "(s' \<noteq> s \<or> push \<noteq> None \<longrightarrow>
      (\<exists>inner by_key recipient r1 c r2 t.
         sc_decode_inner X (ss_sealed_inner sealed) = Ok inner \<and>
         resolve_recipient X (in_recipient_user_id inner) = Resolved by_key recipient \<and>
         intake_check X call inner recipient r = (r1, c) \<and>
         redeem_for X inner recipient r1 = (r2, t) \<and>
         (c = Vouched \<or> is_accept t \<or> t = RedisError))) \<and>
    (\<forall>label. res = Err (TokenRejected label) \<longrightarrow> s' = s \<and> push = None)"
proof (cases "\<exists>inner by_key recipient. sc_decode_inner X (ss_sealed_inner sealed) = Ok inner \<and>
      resolve_recipient X (in_recipient_user_id inner) = Resolved by_key recipient \<and>
      (ss_recipient_server sealed = [] \<or> ss_recipient_server sealed = sc_domain X)")
  case False
  from unsent_otherwise [OF run this] show ?thesis by blast
next
  case True
  then obtain inner by_key recipient where i: "sc_decode_inner X (ss_sealed_inner sealed) = Ok inner"
    "resolve_recipient X (in_recipient_user_id inner) = Resolved by_key recipient"
    "ss_recipient_server sealed = [] \<or> ss_recipient_server sealed = sc_domain X" by blast
  obtain r1 c where 1: "intake_check X call inner recipient r = (r1, c)" by force
  obtain r2 t where 2: "redeem_for X inner recipient r1 = (r2, t)" by force
  show ?thesis
  proof (rule local_send_cases [OF run i(3,1,2)])
    fix q v
    assume g: "token_gate X call inner recipient r = (q, Ok v)"
      and d: "deliver_sealed X call (ss_sealed_inner sealed) inner by_key recipient v (q, s)
        = ((r', s'), res, push)"
    from g 1 2 pol have "c = Vouched \<or> is_accept t \<or> t = RedisError"
      by (auto simp: token_gate_def token_gate_action_def owes_token_def split: if_splits)
    moreover have "res \<noteq> Err (TokenRejected label)" for label
      by (rule deliver_sealed_cases [OF d]) auto
    ultimately show ?thesis using i 1 2 by blast
  qed auto
qed

section \<open>Replays and retries\<close>

text \<open>A message for an account of this server: who it is for and how the address was written.\<close>

definition addressed_here ::
    "('k, 'p, 'x, 'r, 's) sealed_context \<Rightarrow> sealed_sender_envelope \<Rightarrow> inner_message \<Rightarrow> bool \<Rightarrow> string
     \<Rightarrow> bool" where
  "addressed_here X sealed inner by_key recipient \<longleftrightarrow>
     (ss_recipient_server sealed = [] \<or> ss_recipient_server sealed = sc_domain X) \<and>
     sc_decode_inner X (ss_sealed_inner sealed) = Ok inner \<and> in_recipient_user_id inner \<noteq> [] \<and>
     resolve_recipient X (in_recipient_user_id inner) = Resolved by_key recipient"

lemma up_claims: "always_up K \<Longrightarrow> snd (claim_tag D K tag r) \<noteq> Err ()"
  using always_up_link [of K r] tags.claim_answers [of K r] by blast

lemma up_releases: "always_up K \<Longrightarrow> snd (unmark_delivery_tag D K tag r) = Ok ()"
  using always_up_link [of K r] tags.release_answers [of K r] by blast

lemma claim_of_check:
  "check_and_mark_delivery_tag D K tag r = (r', status) \<Longrightarrow>
     claim_tag D K tag r = (r', map_sum id (\<lambda>st. st = NewTag) status)"
  by (simp add: claim_tag_def)

lemma up_unseen_claims:
  assumes "always_up K" and "check_and_mark_delivery_tag D K tag r = (r', status)"
    and "status = Ok NewTag \<or> status = Err ()"
  shows "claim_tag D K tag r = (r', Ok True)"
  using claim_of_check [OF assms(2)] up_claims [OF assms(1), of D tag r] assms(3) by auto

lemma addressed_hereD:
  assumes "addressed_here X sealed inner by_key recipient"
  shows "ss_recipient_server sealed = [] \<or> ss_recipient_server sealed = sc_domain X"
    "sc_decode_inner X (ss_sealed_inner sealed) = Ok inner"
    "resolve_recipient X (in_recipient_user_id inner) = Resolved by_key recipient"
    "in_recipient_user_id inner \<noteq> []"
  using assms by (simp_all add: addressed_here_def)

lemma token_gate_marks:
  assumes "kv_ok (sc_kv X) V W" and "token_gate X call inner recipient r = (r', v)"
  shows "kv_now (sc_kv X) r \<le> kv_now (sc_kv X) r'"
    "k \<in> tag_keys D tag \<Longrightarrow> V r' k = V r k \<and> W r' k = W r k"
  using token_gate_keeps [OF assms, of "seen_key D tag"] token_gate_keeps [OF assms, of k]
  by (simp_all add: keeps_key_def tag_keys_unspent [OF tags.mark_in] tag_keys_unspent)

text \<open>A send that delivered leaves its tag claimed for a day.\<close>

lemma delivered_is_claimed:
  assumes K: "kv_ok (sc_kv X) V W" and up: "always_up (sc_kv X)"
    and run: "dispatch_sealed_sender X call sealed (r, s) = ((r', s'), Ok resp, push)"
    and a: "addressed_here X sealed inner by_key recipient"
    and tag: "in_delivery_tag inner \<noteq> []" and "s' \<noteq> s"
  shows "held_until V (seen_key (ctx_digests X) (in_delivery_tag inner))
    (kv_now (sc_kv X) r + SEEN_TTL_SECS) r'"
proof -
  obtain r1 v where g: "token_gate X call inner recipient r = (r1, Ok v)"
    and d: "deliver_sealed X call (ss_sealed_inner sealed) inner by_key recipient v (r1, s)
      = ((r', s'), Ok resp, push)"
    by (rule local_send_cases [OF run addressed_hereD(1-3) [OF a]]) auto
  obtain status where
    "check_and_mark_delivery_tag (ctx_digests X) (sc_kv X) (in_delivery_tag inner) r1 = (r', status)"
    "status = Ok NewTag \<or> status = Err ()"
    by (rule deliver_sealed_cases [OF d]) (use \<open>s' \<noteq> s\<close> tag in auto)
  from tags.claim_holds [OF K up_unseen_claims [OF up this]] token_gate_marks(1) [OF K g]
  show ?thesis by (simp add: held_until_mono)
qed

text \<open>A send whose tag is claimed changes no mailbox.\<close>

lemma claimed_send_is_dropped:
  assumes K: "kv_ok (sc_kv X) V W" and up: "always_up (sc_kv X)"
    and run: "dispatch_sealed_sender X call sealed (r, s) = ((r', s'), res, push)"
    and a: "addressed_here X sealed inner by_key recipient"
    and tag: "in_delivery_tag inner \<noteq> []"
    and m: "held_until V (seen_key (ctx_digests X) (in_delivery_tag inner)) t r"
    and t: "kv_now (sc_kv X) r' < t"
  shows "s' = s \<and> push = None"
proof (rule local_send_cases [OF run addressed_hereD(1-3) [OF a]])
  let ?tag = "in_delivery_tag inner" and ?K = "sc_kv X" and ?D = "ctx_digests X"
  fix r1 v
  assume g: "token_gate X call inner recipient r = (r1, Ok v)"
    and d: "deliver_sealed X call (ss_sealed_inner sealed) inner by_key recipient v (r1, s)
      = ((r', s'), res, push)"
  have held: "held_until V (seen_key ?D ?tag) t r1"
    using held_until_kept [OF m] token_gate_marks(2) [OF K g tags.mark_in] by blast
  have never: False if c: "check_and_mark_delivery_tag ?D ?K ?tag r1 = (q, status)"
    "status = Ok NewTag \<or> status = Err ()" "kv_now ?K q \<le> kv_now ?K r'" for q status
    using tags.claim_refused [OF K held up_unseen_claims [OF up c(1,2)]] c(3) t by simp
  show ?thesis
  proof (rule deliver_sealed_cases [OF d])
    fix q status
    assume f: "if ?tag = [] then q = r1 \<and> r' = r1
      else check_and_mark_delivery_tag ?D ?K ?tag r1 = (q, status) \<and>
        (status = Ok NewTag \<or> status = Err ()) \<and> r' = fst (unmark_delivery_tag ?D ?K ?tag q)"
    obtain u where "unmark_delivery_tag ?D ?K ?tag q = (r', u)"
      using f tag by (cases "unmark_delivery_tag ?D ?K ?tag q") auto
    from tags.release_clock [OF K this] never [of q status] f tag show ?thesis by simp
  next
    fix q status
    assume "r' = q" and "if ?tag = [] then q = r1
      else check_and_mark_delivery_tag ?D ?K ?tag r1 = (q, status) \<and>
        (status = Ok NewTag \<or> status = Err ())"
    with never [of q status] tag show ?thesis by simp
  qed auto
qed auto

text \<open>
  C11. While Redis answers, a delivery tag is delivered at most once a day. When a send with a tag has
  written to a mailbox and was answered with success, then any later send with the same tag,
  whatever else it carries and whoever it is for, that ends less than 24 hours after the first began
  changes no mailbox and wakes nobody. In between, anything may happen to the store except to the
  tag's own mark.
\<close>

theorem replay_not_delivered:
  assumes K: "kv_ok (sc_kv X) V W" and up: "always_up (sc_kv X)"
    and first: "dispatch_sealed_sender X c1 e1 (r0, s0) = ((r1, s1), Ok resp, p1)" "s1 \<noteq> s0"
    and a1: "addressed_here X e1 i1 k1 u1" and a2: "addressed_here X e2 i2 k2 u2"
    and tag: "in_delivery_tag i1 = tag" "in_delivery_tag i2 = tag" "tag \<noteq> []"
    and kept: "V r2 (seen_key (ctx_digests X) tag) = V r1 (seen_key (ctx_digests X) tag)"
    and second: "dispatch_sealed_sender X c2 e2 (r2, s2) = ((r3, s3), res, p2)"
    and day: "kv_now (sc_kv X) r3 < kv_now (sc_kv X) r0 + SEEN_TTL_SECS"
  shows "s3 = s2 \<and> p2 = None"
proof -
  from delivered_is_claimed [OF K up first(1) a1] first(2) tag
  have "held_until V (seen_key (ctx_digests X) tag) (kv_now (sc_kv X) r0 + SEEN_TTL_SECS) r1" by simp
  from held_until_kept [OF this kept] claimed_send_is_dropped [OF K up second a2 _ _ day] tag
  show ?thesis by simp
qed

text \<open>
  C13. A failed write does not turn the sender's retry into a silent success. While Redis answers, when
  a send passed the token gate and the mailbox write failed, a later send of the same envelope is
  answered with success only if the mailbox then took the message: the answer is the answer of the
  dispatch.
\<close>

theorem retry_after_failed_write:
  assumes K: "kv_ok (sc_kv X) V W" and up: "always_up (sc_kv X)"
    and a: "addressed_here X e inner by_key recipient"
    and gate: "token_gate X c1 inner recipient r0 = (rg, Ok v)"
    and first: "dispatch_sealed_sender X c1 e (r0, s0) = ((r1, s1), Err x, p1)"
    and kept: "\<forall>k \<in> tag_keys (ctx_digests X) (in_delivery_tag inner). V r2 k = V r1 k \<and> W r2 k = W r1 k"
    and second: "dispatch_sealed_sender X c2 e (r2, s2) = ((r3, s3), Ok resp, p2)"
  shows "dispatch_envelope (sc_mail X) (sc_dispatch X) (sc_notify X)
     (from_sealed_sender (ctx_digests X) (call_stamp c2) (call_id c2) recipient
        (normalize_device_id (in_recipient_device inner)) (ss_sealed_inner e)) s2 = (s3, Ok (), p2)"
proof -
  let ?tag = "in_delivery_tag inner" and ?K = "sc_kv X" and ?D = "ctx_digests X"
  have d1: "deliver_sealed X c1 (ss_sealed_inner e) inner by_key recipient v (rg, s0)
      = ((r1, s1), Err x, p1)"
    by (rule local_send_cases [OF first addressed_hereD(1-3) [OF a]])
      (use gate addressed_hereD(4) [OF a] in auto)
  have free: "\<exists>q. unmark_delivery_tag ?D ?K ?tag q = (r1, Ok ())" if "?tag \<noteq> []"
  proof (rule deliver_sealed_cases [OF d1])
    fix q status
    assume "if ?tag = [] then q = rg \<and> r1 = rg
      else check_and_mark_delivery_tag ?D ?K ?tag rg = (q, status) \<and>
        (status = Ok NewTag \<or> status = Err ()) \<and> r1 = fst (unmark_delivery_tag ?D ?K ?tag q)"
    with that up_releases [OF up, of ?D ?tag q] have "unmark_delivery_tag ?D ?K ?tag q = (r1, Ok ())"
      by (cases "unmark_delivery_tag ?D ?K ?tag q") simp
    then show ?thesis by blast
  qed auto
  obtain rh w where g2: "token_gate X c2 inner recipient r2 = (rh, Ok w)"
    and d2: "deliver_sealed X c2 (ss_sealed_inner e) inner by_key recipient w (rh, s2)
      = ((r3, s3), Ok resp, p2)"
    by (rule local_send_cases [OF second addressed_hereD(1-3) [OF a]]) auto
  have same: "V rh k = V r1 k \<and> W rh k = W r1 k" if "k \<in> tag_keys ?D ?tag" for k
    using token_gate_marks(2) [OF K g2 that] kept that by simp
  have new: "st = NewTag"
    if c: "check_and_mark_delivery_tag ?D ?K ?tag rh = (q, Ok st)" "?tag \<noteq> []" for q st
  proof -
    obtain q0 where "unmark_delivery_tag ?D ?K ?tag q0 = (r1, Ok ())" using free c(2) by blast
    from tags.released_claim_granted [OF K this same] claim_of_check [OF c(1)] show ?thesis by simp
  qed
  show ?thesis
    by (rule deliver_sealed_cases [OF d2]) (use new in auto)
qed

text \<open>
  C31. Under \<open>Enforce\<close>, a send with no token tells whether a key has an account here. For a well-formed
  key address, an envelope with no intake tag, no nonce and no spend id is answered with success
  exactly when no account has that key: an account's envelope is refused at the token gate, which an
  address without an account never reaches.
\<close>

theorem tokenless_probe_tells:
  assumes "sc_policy X = Enforce" and "ss_recipient_server sealed = []"
    and "sc_decode_inner X (ss_sealed_inner sealed) = Ok inner"
    and "in_recipient_user_id inner = ''ed25519:'' @ encoded"
    and "id_hex_decode (sc_codecs X) encoded = Some pk" "length pk = 32"
    and "sc_user_by_route X (of_account (sc_codecs X) pk) = Ok account"
    and "in_intake_tag_sealed inner = []" "in_token_nonce inner = []" "in_token_spend_id inner = []"
  shows "(\<exists>resp. fst (snd (dispatch_sealed_sender X call sealed rs)) = Ok resp) \<longleftrightarrow> account = None"
proof -
  have gate: "\<exists>l. snd (token_gate X call inner user r) = Err l" for user r
    using assms
    by (auto simp: token_gate_def intake_check_def check_intake_credential_def owes_token_def redeem_for_def
        redeem_token_checked_def redeem_for_sealed_send_def normalize_spend_id_def redeem_token_def check_token_def
        token_gate_action_def is_accept_def split: option.splits)
  obtain r s where rs: "rs = (r, s)" by force
  have to: "resolve_recipient X (in_recipient_user_id inner) =
      (case account of Some user \<Rightarrow> Resolved True user | None \<Rightarrow> Unresolved (''ed25519:'' @ encoded))"
    using assms by (simp add: resolve_recipient_def parse_user_id_def strip_prefix.simps route_id_def
        split: option.splits)
  show ?thesis
  proof (cases account)
    case None
    with assms to show ?thesis by (simp add: dispatch_sealed_sender_def rs split: prod.splits)
  next
    case (Some user)
    obtain r1 l where "token_gate X call inner user r = (r1, Err l)"
      using gate [of user r] by (metis prod.collapse)
    with Some assms to show ?thesis by (simp add: dispatch_sealed_sender_def rs)
  qed
qed

section \<open>A sample instance\<close>

definition steady_kv :: "Kv.sample_store kv" where
  "steady_kv = sample_kv\<lparr>kv_link := \<lambda>s. (s, Up)\<rparr>"

lemma steady_kv_ok: "kv_ok steady_kv ss_strings ss_set_view"
proof -
  have same: "kv_now steady_kv = kv_now sample_kv" "kv_get steady_kv = kv_get sample_kv"
    "kv_set steady_kv = kv_set sample_kv" "kv_set_ex steady_kv = kv_set_ex sample_kv"
    "kv_incr_by steady_kv = kv_incr_by sample_kv" "kv_persist steady_kv = kv_persist sample_kv"
    "kv_del steady_kv = kv_del sample_kv" "kv_expire steady_kv = kv_expire sample_kv"
    "kv_members steady_kv = kv_members sample_kv" "kv_sadd steady_kv = kv_sadd sample_kv"
    by (simp_all add: steady_kv_def)
  have "link_ok steady_kv ss_strings ss_set_view" by (simp add: link_ok_def steady_kv_def)
  with kv_okD [OF sample_kv_ok] show ?thesis
    unfolding kv_ok_def get_ok_def set_ok_def incr_ok_def del_ok_def ttl_ok_def sets_ok_def same
    by blast
qed

text \<open>A mailbox that refuses a number of writes and then counts them.\<close>

definition flaky_mail :: "(nat \<times> nat) mail_server" where
  "flaky_mail =
     \<lparr>xadd = (\<lambda>(f, n) key m fs. if f = 0 then ((f, n + 1), Ok ''1-0'') else ((f - 1, n), Err ''down'')),
      publish = (\<lambda>s c m. s), key_exists = (\<lambda>s key. Ok False), set_ex = (\<lambda>s key v n. (s, Ok ())),
      get_string = (\<lambda>s key. Ok None)\<rparr>"

definition sample_inner :: inner_message where
  "sample_inner =
     \<lparr>in_recipient_user_id = ''bob'', in_delivery_tag = [9], in_token_nonce = replicate 32 7,
      in_token_bytes = replicate 60 0, in_token_spend_id = [], in_recipient_device = [],
      in_intake_tag_sealed = []\<rparr>"

definition sample_sealed_context ::
    "StealthTokenPolicy \<Rightarrow> (3, 3, unit, Kv.sample_store, nat \<times> nat) sealed_context" where
  "sample_sealed_context policy =
     \<lparr>sc_redeemer = sample_redeemer, sc_kv = steady_kv, sc_mail = flaky_mail,
      sc_dispatch = sample_dispatch_world\<lparr>devices_by_user := \<lambda>_. Ok [''a'']\<rparr>, sc_notify = False,
      sc_codecs = \<lparr>uuid_parse = Some, uuid_text = id, id_hex_decode = (\<lambda>_. None), id_hex = text_of,
        id_sha256 = id, unicode_alnum = (\<lambda>_. False)\<rparr>,
      sc_s2s = \<lparr>b64_encode = text_of, b64_decode = (\<lambda>t. Ok (as_bytes t)), s2s_sha256 = id,
        s2s_sig = \<lparr>ed_public = id, ed_sign = (\<lambda>s m. replicate 64 0), ed_key_ok = (\<lambda>k. True),
          ed_verify = (\<lambda>k m s. True), ml_public = (\<lambda>_. replicate 1952 0), ml_try_sign = (\<lambda>s m. None),
          ml_sig_ok = (\<lambda>s. False), ml_verify = (\<lambda>k m s. False)\<rparr>\<rparr>,
      sc_network = \<lparr>net_dns = sample_dns, net_get = (\<lambda>u. Ok \<lparr>ha_status = 200, ha_well_known = Ok
          \<lparr>wk_public_key = Some (text_of (replicate 32 5)), wk_federation = None\<rparr>\<rparr>), net_status = show_nat\<rparr>,
      sc_post = (\<lambda>u q. Err ''down''),
      sc_signer = Some \<lparr>signing_key = replicate 32 5, verifying_key = replicate 32 5, signer_domain = ''P.cc''\<rparr>,
      sc_domain = ''P.cc'', sc_policy = policy,
      sc_issuer_key = Some [2], sc_static_secret = Some (), sc_decode_inner = (\<lambda>_. Ok sample_inner),
      sc_user_by_route = (\<lambda>_. Ok None), sc_device_owner = (\<lambda>_. Ok None)\<rparr>"

definition sample_sealed :: sealed_sender_envelope where
  "sample_sealed = \<lparr>ss_recipient_server = [], ss_sealed_inner = [1], ss_forwarding_token = [],
     ss_timestamp = 0\<rparr>"

definition sample_call :: send_call where
  "sample_call = \<lparr>call_id = ''m'', call_replay_id = ''n'', call_now = 0, call_stamp = 0, call_millis = 0\<rparr>"

lemma sample_here: "addressed_here (sample_sealed_context p) sample_sealed sample_inner False ''bob''"
  by (simp add: addressed_here_def sample_sealed_def sample_sealed_context_def sample_inner_def
      resolve_recipient_def strip_prefix.simps)

lemma sample_dispatch:
  "dispatch_envelope flaky_mail (sample_dispatch_world\<lparr>devices_by_user := \<lambda>_. Ok [''a'']\<rparr>) False
     (from_sealed_sender D t i ''bob'' None raw) (f, n) =
   (if f = 0 then ((0, n + 1), Ok (), None)
    else ((f - 1, n), Err ''Failed to deliver message: No mailbox to write'', None))"
  by (simp add: dispatch_envelope_def is_user_message_def from_sealed_sender_def sample_dispatch_world_def
      fetch_recipient_device_ids_def select_target_devices_def flaky_mail_def wake_for_def
      write_message_to_device_streams_def write_message_to_device_stream_def write_message_def
      mailbox_maxlen_def publish_inbox_wakeup_def get_user_server_instance_def)

lemma sample_dispatch_local:
  "dispatch_sealed_sender (sample_sealed_context p) c sample_sealed (r, s) =
     (case token_gate (sample_sealed_context p) c sample_inner ''bob'' r of
        (r1, Err label) \<Rightarrow> ((r1, s), Err (TokenRejected label), None)
      | (r1, Ok v) \<Rightarrow> deliver_sealed (sample_sealed_context p) c [1] sample_inner False ''bob'' v (r1, s))"
  using addressed_hereD [OF sample_here [of p]]
  by (simp add: dispatch_sealed_sender_def split: sum.splits) (simp add: sample_sealed_def)

lemma sample_devices:
  "fetch_recipient_device_ids (sample_dispatch_world\<lparr>devices_by_user := \<lambda>_. Ok [''a'']\<rparr>) ''bob'' = [''a'']"
  by (simp add: fetch_recipient_device_ids_def sample_dispatch_world_def)

lemma sample_keys_apart:
  "exact_key D t \<noteq> spent_key E n" "seen_key D t \<noteq> spent_key E n"
  by (simp_all add: exact_key_def seen_key_def spent_key_def)

lemmas sample_send_eval = sample_keys_apart sample_dispatch_local deliver_sealed_def check_and_mark_delivery_tag_def
  unmark_delivery_tag_def sample_dispatch tag_script_def kv_exists_def round_trip_def steady_kv_def
  sample_kv_eval EXACT_TTL_SECS_def SEEN_TTL_SECS_def sample_call_def normalize_device_id_def
  reported_active_devices_def sample_devices Let_def

lemma sample_context_simps [simp]:
  "sc_kv (sample_sealed_context p) = steady_kv" "sc_mail (sample_sealed_context p) = flaky_mail"
  "sc_dispatch (sample_sealed_context p) = sample_dispatch_world\<lparr>devices_by_user := \<lambda>_. Ok [''a'']\<rparr>"
  "sc_notify (sample_sealed_context p) = False" "sc_policy (sample_sealed_context p) = p"
  "sc_redeemer (sample_sealed_context p) = sample_redeemer"
  "sc_issuer_key (sample_sealed_context p) = Some [2]" "sc_static_secret (sample_sealed_context p) = Some ()"
  by (simp_all add: sample_sealed_context_def)

lemma steady_up: "always_up steady_kv"
  by (simp add: always_up_def steady_kv_def)

theorem enforced_delivery_is_paid_witness:
  "\<exists>r' res push r1 c r2 t.
     dispatch_sealed_sender (sample_sealed_context Enforce) sample_call sample_sealed
       (empty_store 0 [], (0, 0)) = ((r', (0, 1)), res, push) \<and>
     intake_check (sample_sealed_context Enforce) sample_call sample_inner ''bob'' (empty_store 0 [])
       = (r1, c) \<and>
     redeem_for (sample_sealed_context Enforce) sample_inner ''bob'' r1 = (r2, t) \<and>
     (c = Vouched \<or> is_accept t \<or> t = RedisError)"
proof -
  let ?X = "sample_sealed_context Enforce"
  obtain r' s' res push where run: "dispatch_sealed_sender ?X sample_call sample_sealed
      (empty_store 0 [], (0, 0)) = ((r', s'), res, push)" by (metis prod.exhaust)
  have "s' = (0, 1)"
    using run
    by (auto simp: sample_send_eval token_gate_def intake_check_def check_intake_credential_def
        redeem_for_def redeem_token_checked_def redeem_for_sealed_send_def normalize_spend_id_def
        redeem_token_def sample_token set_nx_ex_def sample_inner_def owes_token_def
        token_gate_action_def is_accept_def)
  with run enforced_delivery_is_paid [OF run] addressed_hereD [OF sample_here [of Enforce]]
  show ?thesis by (auto intro!: exI)
qed

lemma sample_sent:
  "dispatch_sealed_sender (sample_sealed_context Off) sample_call sample_sealed (empty_store 0 [], (0, n))
   = ((empty_store 0 []\<lparr>ss_strings :=
         [exact_key (ctx_digests (sample_sealed_context Off)) [9] \<mapsto> (''1'', Some 300),
          seen_key (ctx_digests (sample_sealed_context Off)) [9] \<mapsto> (''1'', Some 86400)]\<rparr>, (0, n + 1)),
      Ok (response ''m'' 0 VerdictUnspecified [''a'']), None)"
  by (simp add: sample_send_eval token_gate_def sample_inner_def)

theorem tokenless_probe_tells_witness:
  "let X = (sample_sealed_context Enforce)
         \<lparr>sc_codecs := (sc_codecs (sample_sealed_context Enforce))\<lparr>id_hex_decode := \<lambda>_. Some (replicate 32 0)\<rparr>,
          sc_decode_inner := \<lambda>_. Ok (sample_inner\<lparr>in_recipient_user_id := ''ed25519:0'', in_token_nonce := []\<rparr>),
          sc_user_by_route := \<lambda>_. Ok (Some ''bob'')\<rparr>
   in \<not> (\<exists>resp. fst (snd (dispatch_sealed_sender X sample_call sample_sealed (empty_store 0 [], (0, 0)))) = Ok resp)"
  unfolding Let_def
  by (subst tokenless_probe_tells [where encoded = "''0''" and account = "Some ''bob''" and pk = "replicate 32 0"
      and inner = "sample_inner\<lparr>in_recipient_user_id := ''ed25519:0'', in_token_nonce := []\<rparr>"])
    (simp_all add: sample_sealed_def sample_inner_def)

theorem replay_not_delivered_witness:
  "let X = sample_sealed_context Off;
       (rs, res, _) = dispatch_sealed_sender X sample_call sample_sealed (empty_store 0 [], (0, 0));
       (rs2, res2, push) = dispatch_sealed_sender X sample_call sample_sealed rs
   in snd rs = (0, 1) \<and> snd rs2 = (0, 1) \<and> push = None"
proof -
  let ?X = "sample_sealed_context Off"
  let ?r = "fst (fst (dispatch_sealed_sender ?X sample_call sample_sealed (empty_store 0 [], (0, 0))))"
  obtain r3 s3 res2 p2 where second: "dispatch_sealed_sender ?X sample_call sample_sealed (?r, (0, 1))
      = ((r3, s3), res2, p2)" by (metis prod.exhaust)
  have "kv_now steady_kv r3 < kv_now steady_kv (empty_store 0 []) + SEEN_TTL_SECS"
    using second
    by (auto simp: sample_sent) (auto simp: sample_send_eval token_gate_def sample_inner_def)
  with replay_not_delivered [OF _ _ sample_sent _ sample_here sample_here _ _ _ _ second, of
      ss_strings ss_set_view 0 "[9]"] steady_kv_ok steady_up
  have "s3 = (0, 1) \<and> p2 = None"
    by (simp add: sample_sent sample_inner_def)
  with second show ?thesis by (simp add: sample_sent)
qed

theorem retry_after_failed_write_witness:
  "let X = sample_sealed_context Off;
       (rs, res, _) = dispatch_sealed_sender X sample_call sample_sealed (empty_store 0 [], (1, 0));
       (rs2, res2, push) = dispatch_sealed_sender X sample_call sample_sealed rs
   in (\<exists>e. res = Err e) \<and> (\<exists>resp. res2 = Ok resp) \<and>
      dispatch_envelope (sc_mail X) (sc_dispatch X) (sc_notify X)
        (from_sealed_sender (ctx_digests X) 0 ''m'' ''bob'' None [1]) (snd rs) = (snd rs2, Ok (), push)"
proof -
  let ?X = "sample_sealed_context Off"
  let ?r = "empty_store 0 []\<lparr>ss_strings := Map.empty\<rparr>"
  obtain r1 s1 res p1 where first: "dispatch_sealed_sender ?X sample_call sample_sealed
      (empty_store 0 [], (1, 0)) = ((r1, s1), res, p1)" by (metis prod.exhaust)
  obtain r3 s3 res2 p2 where second: "dispatch_sealed_sender ?X sample_call sample_sealed (r1, s1)
      = ((r3, s3), res2, p2)" by (metis prod.exhaust)
  obtain e resp where ok: "res = Err e" "res2 = Ok resp"
    using first second
    by (auto simp: sample_send_eval token_gate_def sample_inner_def)
  have gate: "token_gate ?X sample_call sample_inner ''bob'' (empty_store 0 [])
      = (empty_store 0 [], Ok VerdictUnspecified)" by (simp add: token_gate_def)
  from retry_after_failed_write [OF _ _ sample_here gate first [unfolded ok] _ second [unfolded ok]]
    steady_kv_ok steady_up
  have "dispatch_envelope (sc_mail ?X) (sc_dispatch ?X) (sc_notify ?X)
      (from_sealed_sender (ctx_digests ?X) 0 ''m'' ''bob'' None [1]) s1 = (s3, Ok (), p2)"
    by (simp add: sample_call_def sample_sealed_def sample_inner_def normalize_device_id_def)
  with first second ok show ?thesis by simp
qed

end
