(* ===== verification/Federation_Receive.thy ===== *)
theory Federation_Receive
  imports Sealed_Send
begin

text \<open>
  Messages from other servers: \<open>messaging-service/src/federation.rs\<close>. A request is checked for age,
  for the rate of its origin, for the hash of its payload and for the origin's signature, claims its
  message id, and is dispatched; a failed dispatch releases the claim. The origin's key comes from
  the argument \<open>lookup_key\<close>, which the HTTP handlers fill with \<open>fetch_origin_key\<close>.

  The state is the store of the rate limiter, the Redis connection of the claims, and the mailbox
  server. JSON decoding of a request is left out: a handler starts from the decoded record.
\<close>

section \<open>Requests\<close>

definition FEDERATION_TIMESTAMP_MAX_SKEW_SECS :: u64 where "FEDERATION_TIMESTAMP_MAX_SKEW_SECS = 300"
definition FEDERATION_MSG_DEDUP_TTL_SECS :: nat where "FEDERATION_MSG_DEDUP_TTL_SECS = 7 * 24 * 3600"

record inbound_sealed_request =
  is_message_id :: string
  is_sealed_inner :: string
  is_origin_server :: string
  is_timestamp :: u64
  is_payload_hash :: string
  is_server_signature :: "string option"

record inbound_message_request =
  im_message_id :: string
  im_from :: string
  im_to :: string
  im_ciphertext :: string
  im_origin_server :: string
  im_timestamp :: u64
  im_payload_hash :: string
  im_server_signature :: "string option"

record federation_response =
  fr_status :: string
  fr_message_id :: string

type_synonym fed_http_err = "nat \<times> string"

definition abs_diff :: "u64 \<Rightarrow> u64 \<Rightarrow> u64" where
  "abs_diff a b = (if a < b then b - a else a - b)"

definition validate_federation_timestamp_at :: "u64 \<Rightarrow> u64 \<Rightarrow> (fed_http_err, unit) result" where
  "validate_federation_timestamp_at ts now =
     (if FEDERATION_TIMESTAMP_MAX_SKEW_SECS < abs_diff now ts
      then Err (401, ''envelope timestamp outside allowed skew'')
      else Ok ())"

section \<open>Claims of message ids\<close>

definition federation_message_key :: "digests \<Rightarrow> string \<times> string \<Rightarrow> key" where
  "federation_message_key D i =
     ''fed:v2:msg:'' @ dg_hex D (dg_sha256 D
       (concat (map (\<lambda>field. u64_be_bytes (word_of_nat (length field)) @ as_bytes field) [fst i, snd i])))"

definition claim_id :: "digests \<Rightarrow> 'r kv \<Rightarrow> string \<times> string \<Rightarrow> 'r \<Rightarrow> 'r \<times> (unit, bool) result" where
  "claim_id D K i r =
     round_trip K (set_nx_ex K (federation_message_key D i) ''1'' FEDERATION_MSG_DEDUP_TTL_SECS) r"

definition claim_federation_message_id ::
    "digests \<Rightarrow> 'r kv \<Rightarrow> string \<Rightarrow> string \<Rightarrow> 'r \<Rightarrow> 'r \<times> (fed_http_err, bool) result" where
  "claim_federation_message_id D K origin mid r =
     (if mid = [] \<or> 128 < length mid then (r, Err (400, ''invalid message_id''))
      else map_prod id (map_sum (\<lambda>_. (503, ''federation dedup temporarily unavailable'')) id)
             (claim_id D K (origin, mid) r))"

definition release_id :: "digests \<Rightarrow> 'r kv \<Rightarrow> string \<times> string \<Rightarrow> 'r \<Rightarrow> 'r \<times> (unit, unit) result" where
  "release_id D K i r =
     round_trip K (\<lambda>r. (kv_del K r (federation_message_key D i), Some ())) r"

definition release_federation_message_id ::
    "digests \<Rightarrow> 'r kv \<Rightarrow> string \<Rightarrow> string \<Rightarrow> 'r \<Rightarrow> 'r" where
  "release_federation_message_id D K origin mid r = fst (release_id D K (origin, mid) r)"

definition check_origin_rate_limit ::
    "'z zset_server \<Rightarrow> int \<Rightarrow> string \<Rightarrow> clock \<Rightarrow> 'z \<Rightarrow> 'z \<times> (fed_http_err, unit) result" where
  "check_origin_rate_limit Z max_per_hour origin t z =
     (if max_per_hour \<le> 0 then (z, Ok ())
      else case sliding_window_check_and_record Z (''rl:federation:origin:'' @ origin)
                  (nat (max_per_hour mod 2 ^ 32)) 3600 t z of
        (z', Ok True) \<Rightarrow> (z', Ok ())
      | (z', Ok False) \<Rightarrow> (z', Err (429, ''rate limit exceeded''))
      | (z', Err _) \<Rightarrow> (z', Ok ()))"

section \<open>The handlers\<close>

text \<open>The settings of federation, and the clocks of a call.\<close>

record 'z fed_config =
  fed_zset :: "'z zset_server"
  fed_enabled :: bool
  fed_max_per_hour :: int

record fed_call =
  fed_now :: u64
  fed_clock :: clock
  fed_send :: send_call

text \<open>The signature check that both handlers make.\<close>

definition check_origin_signature ::
    "s2s_crates \<Rightarrow> (string \<Rightarrow> (SigningError, string) result) \<Rightarrow> federated_envelope \<Rightarrow> string option
     \<Rightarrow> (fed_http_err, unit) result" where
  "check_origin_signature C lookup_key e signature =
     (case signature of
        None \<Rightarrow> Err (401, ''server_signature required'')
      | Some sig \<Rightarrow>
          (case lookup_key (fe_origin_server e) of
             Err x \<Rightarrow> Err (502, ''failed to fetch origin public key: '' @ show_signing_error x)
           | Ok remote_pk \<Rightarrow>
               (case verify_signature C remote_pk e sig of
                  Err _ \<Rightarrow> Err (401, ''invalid server signature'')
                | Ok _ \<Rightarrow> Ok ())))"

definition inbound_sealed_envelope ::
    "('k, 'p, 'x, 'r, 's) sealed_context \<Rightarrow> inbound_sealed_request \<Rightarrow> federated_envelope" where
  "inbound_sealed_envelope X req =
     \<lparr>fe_message_id = is_message_id req, fe_from = [], fe_to = [],
      fe_origin_server = is_origin_server req, fe_destination_server = sc_domain X,
      fe_timestamp = is_timestamp req, fe_payload_hash = is_payload_hash req\<rparr>"

definition inbound_message_envelope ::
    "('k, 'p, 'x, 'r, 's) sealed_context \<Rightarrow> inbound_message_request \<Rightarrow> federated_envelope" where
  "inbound_message_envelope X req =
     \<lparr>fe_message_id = im_message_id req, fe_from = im_from req, fe_to = im_to req,
      fe_origin_server = im_origin_server req, fe_destination_server = sc_domain X,
      fe_timestamp = im_timestamp req, fe_payload_hash = im_payload_hash req\<rparr>"

text \<open>The checks before anything is claimed: age, rate, hash and signature, in this order.\<close>

definition admit ::
    "('k, 'p, 'x, 'r, 's) sealed_context \<Rightarrow> 'z fed_config \<Rightarrow> (string \<Rightarrow> (SigningError, string) result)
     \<Rightarrow> fed_call \<Rightarrow> federated_envelope \<Rightarrow> string \<Rightarrow> string option \<Rightarrow> 'z \<Rightarrow> 'z \<times> (fed_http_err, unit) result" where
  "admit X F lookup_key call e payload signature z =
     (case validate_federation_timestamp_at (fe_timestamp e) (fed_now call) of
        Err x \<Rightarrow> (z, Err x)
      | Ok _ \<Rightarrow>
          (case check_origin_rate_limit (fed_zset F) (fed_max_per_hour F) (fe_origin_server e)
                  (fed_clock call) z of
             (z1, Err x) \<Rightarrow> (z1, Err x)
           | (z1, Ok _) \<Rightarrow>
               (z1, if hash_payload (sc_s2s X) payload \<noteq> fe_payload_hash e
                    then Err (400, ''payload hash mismatch'')
                    else check_origin_signature (sc_s2s X) lookup_key e signature)))"

definition receive_sealed ::
    "('k, 'p, 'x, 'r, 's) sealed_context \<Rightarrow> 'z fed_config \<Rightarrow> (string \<Rightarrow> (SigningError, string) result)
     \<Rightarrow> fed_call \<Rightarrow> inbound_sealed_request \<Rightarrow> 'z \<times> ('r \<times> 's)
     \<Rightarrow> ('z \<times> ('r \<times> 's)) \<times> (fed_http_err, federation_response) result \<times> wake_push option" where
  "receive_sealed X F lookup_key call req st =
     (let (z, r, s) = st; D = ctx_digests X;
          origin = is_origin_server req; mid = is_message_id req in
      if \<not> fed_enabled F then (st, Err (404, ''federation not enabled''), None)
      else case admit X F lookup_key call (inbound_sealed_envelope X req) (is_sealed_inner req)
                  (is_server_signature req) z of
        (z1, Err x) \<Rightarrow> ((z1, r, s), Err x, None)
      | (z1, Ok _) \<Rightarrow>
          (case b64_decode (sc_s2s X) (is_sealed_inner req) of
             Err _ \<Rightarrow> ((z1, r, s), Err (400, ''invalid base64 in sealed_inner''), None)
           | Ok raw \<Rightarrow>
               (case claim_federation_message_id D (sc_kv X) origin mid r of
                  (r1, Err x) \<Rightarrow> ((z1, r1, s), Err x, None)
                | (r1, Ok False) \<Rightarrow>
                    ((z1, r1, s), Ok \<lparr>fr_status = ''duplicate'', fr_message_id = mid\<rparr>, None)
                | (r1, Ok True) \<Rightarrow>
                    (case dispatch_sealed_sender X (fed_send call)
                            \<lparr>ss_recipient_server = [], ss_sealed_inner = raw,
                             ss_forwarding_token = [], ss_timestamp = is_timestamp req\<rparr> (r1, s) of
                       ((r2, s2), Ok resp, push) \<Rightarrow>
                         ((z1, r2, s2), Ok \<lparr>fr_status = ''accepted'', fr_message_id = sr_message_id resp\<rparr>, push)
                     | ((r2, s2), Err e, push) \<Rightarrow>
                         ((z1, release_federation_message_id D (sc_kv X) origin mid r2, s2),
                          Err (500, ''delivery failed: '' @ show_send_error e), push)))))"

definition federated_message ::
    "s2s_crates \<Rightarrow> inbound_message_request \<Rightarrow> message_envelope" where
  "federated_message C req =
     \<lparr>message_id = im_message_id req, sender_id = im_from req, recipient_id = im_to req,
      timestamp = sint (im_timestamp req), message_type = DirectMessage, ephemeral_public_key = None,
      message_number = None, mls_payload = None, group_id = None,
      encrypted_payload = (case b64_decode C (im_ciphertext req) of
          Ok b \<Rightarrow> text_of b | Err _ \<Rightarrow> im_ciphertext req),
      content_hash = im_payload_hash req, crypto_suite_id = 0,
      origin_server = Some (im_origin_server req), federated = True,
      server_signature = im_server_signature req, is_sealed_sender = False, sealed_inner = None,
      max_queue_len = None, proto_content_type = None, recipient_device = None\<rparr>"

definition receive_message ::
    "('k, 'p, 'x, 'r, 's) sealed_context \<Rightarrow> 'z fed_config \<Rightarrow> (string \<Rightarrow> (SigningError, string) result)
     \<Rightarrow> fed_call \<Rightarrow> inbound_message_request \<Rightarrow> 'z \<times> ('r \<times> 's)
     \<Rightarrow> ('z \<times> ('r \<times> 's)) \<times> (fed_http_err, federation_response) result \<times> wake_push option" where
  "receive_message X F lookup_key call req st =
     (let (z, r, s) = st; D = ctx_digests X;
          origin = im_origin_server req; mid = im_message_id req in
      if \<not> fed_enabled F then (st, Err (404, ''federation not enabled''), None)
      else if im_from req = [] \<or> im_to req = []
      then (st, Err (400, ''from and to required for regular messages''), None)
      else case admit X F lookup_key call (inbound_message_envelope X req) (im_ciphertext req)
                  (im_server_signature req) z of
        (z1, Err x) \<Rightarrow> ((z1, r, s), Err x, None)
      | (z1, Ok _) \<Rightarrow>
          (case claim_federation_message_id D (sc_kv X) origin mid r of
             (r1, Err x) \<Rightarrow> ((z1, r1, s), Err x, None)
           | (r1, Ok False) \<Rightarrow>
               ((z1, r1, s), Ok \<lparr>fr_status = ''duplicate'', fr_message_id = mid\<rparr>, None)
           | (r1, Ok True) \<Rightarrow>
               (case dispatch_envelope (sc_mail X) (sc_dispatch X) (sc_notify X)
                       (federated_message (sc_s2s X) req) s of
                  (s2, Ok _, push) \<Rightarrow>
                    ((z1, r1, s2), Ok \<lparr>fr_status = ''accepted'', fr_message_id = mid\<rparr>, push)
                | (s2, Err e, push) \<Rightarrow>
                    ((z1, release_federation_message_id D (sc_kv X) origin mid r1, s2),
                     Err (500, ''delivery failed: '' @ e), push))))"

definition handle_inbound_sealed ::
    "('k, 'p, 'x, 'r, 's) sealed_context \<Rightarrow> 'z fed_config \<Rightarrow> fed_call \<Rightarrow> nat \<Rightarrow> nat
     \<Rightarrow> inbound_sealed_request \<Rightarrow> 'z \<times> ('r \<times> 's)
     \<Rightarrow> ('z \<times> ('r \<times> 's)) \<times> (fed_http_err, federation_response) result \<times> wake_push option" where
  "handle_inbound_sealed X F call t t' req st =
     receive_sealed X F (fetch_origin_key (sc_network X) t t') call req st"

definition handle_inbound_message ::
    "('k, 'p, 'x, 'r, 's) sealed_context \<Rightarrow> 'z fed_config \<Rightarrow> fed_call \<Rightarrow> nat \<Rightarrow> nat
     \<Rightarrow> inbound_message_request \<Rightarrow> 'z \<times> ('r \<times> 's)
     \<Rightarrow> ('z \<times> ('r \<times> 's)) \<times> (fed_http_err, federation_response) result \<times> wake_push option" where
  "handle_inbound_message X F call t t' req st =
     receive_message X F (fetch_origin_key (sc_network X) t t') call req st"

section \<open>Message ids as claims\<close>

lemma set_nx_effect:
  assumes K: "kv_ok K V W" and run: "set_nx_ex K k v n s = (s', a)"
  shows "kv_now K s' = kv_now K s" "W s' = W s" "k' \<noteq> k \<Longrightarrow> V s' k' = V s k'"
    "a = Some (kv_get K s k = None)" "a = Some True \<Longrightarrow> held_until V k (kv_now K s + n) s'"
  using run by (auto simp: set_nx_ex_def kv_views [OF K] held_until_def split: if_splits)

lemma claim_idD:
  assumes K: "kv_ok K V W" and run: "claim_id D K i s = (s', Ok b)"
  obtains s0 where "V s0 = V s" "W s0 = W s" "kv_now K s \<le> kv_now K s0"
    "set_nx_ex K (federation_message_key D i) ''1'' FEDERATION_MSG_DEDUP_TTL_SECS s0 = (s', Some b)"
  by (rule round_trip_cases [OF K run [unfolded claim_id_def]]) (use that in auto)

interpretation ids: claims claim_id release_id federation_message_key
  "\<lambda>D i. {federation_message_key D i}" FEDERATION_MSG_DEDUP_TTL_SECS
proof
  fix K V W D i and s s' :: 's
  assume K: "kv_ok K V W" and run: "claim_id D K i s = (s', Ok True)"
  show "held_until V (federation_message_key D i) (kv_now K s + FEDERATION_MSG_DEDUP_TTL_SECS) s'"
    by (rule claim_idD [OF K run]) (auto dest!: set_nx_effect(5) [OF K] elim: held_until_mono)
next
  fix K V W D i t b and s s' :: 's
  assume K: "kv_ok K V W" and held: "held_until V (federation_message_key D i) t s"
    and run: "claim_id D K i s = (s', Ok b)" and t: "kv_now K s' < t"
  show "\<not> b"
  proof (rule claim_idD [OF K run])
    fix s0
    assume s0: "V s0 = V s" "set_nx_ex K (federation_message_key D i) ''1''
      FEDERATION_MSG_DEDUP_TTL_SECS s0 = (s', Some b)"
    with set_nx_effect(1,4) [OF K s0(2)] exists_unexpired [OF K held_until_kept [OF held, of s0]] t
    show ?thesis by simp
  qed
next
  fix K V W D i b and s s' :: 's
  assume K: "kv_ok K V W" and free: "vacant V W {federation_message_key D i} s"
    and run: "claim_id D K i s = (s', Ok b)"
  show b
    by (rule claim_idD [OF K run])
      (use free in \<open>auto simp: vacant_def get_absent [OF K] dest!: set_nx_effect(4) [OF K]\<close>)
next
  fix K V W D i r k and s s' :: 's
  assume K: "kv_ok K V W" and run: "claim_id D K i s = (s', r)"
  have keeps: "keeps_key K V W k s s'" if "k \<noteq> federation_message_key D i" for k
    by (rule round_trip_keeps_key [OF K run [unfolded claim_id_def] scripts_keep(3) [OF K that]])
  then show "k \<notin> {federation_message_key D i} \<Longrightarrow> keeps_key K V W k s s'" by simp
  from keeps [of "[]"] show "kv_now K s \<le> kv_now K s'"
    by (simp add: keeps_key_def federation_message_key_def)
next
  fix K V W D i q k and s s' :: 's
  assume K: "kv_ok K V W" and run: "release_id D K i s = (s', q)"
  have "kv_now K s \<le> kv_now K s' \<and> (k \<noteq> federation_message_key D i \<longrightarrow> keeps_key K V W k s s')"
    by (rule round_trip_cases [OF K run [unfolded release_id_def]])
      (auto simp: kv_views [OF K] keeps_key_def)
  then show "kv_now K s \<le> kv_now K s'"
    "k \<notin> {federation_message_key D i} \<Longrightarrow> keeps_key K V W k s s'" by auto
next
  fix K V W D i and s s' :: 's
  assume K: "kv_ok K V W" and run: "release_id D K i s = (s', Ok ())"
  show "vacant V W {federation_message_key D i} s'"
    by (rule round_trip_cases [OF K run [unfolded release_id_def]])
      (auto simp: kv_views [OF K] vacant_def)
next
  fix K :: "'s kv" and s s0 D i
  assume up: "kv_link K s = (s0, Up)"
  show "snd (release_id D K i s) = Ok ()"
    unfolding release_id_def by (rule round_trip_up [OF up]) simp
  have "snd (claim_id D K i s) = Ok (kv_get K s0 (federation_message_key D i) = None)"
    unfolding claim_id_def by (rule round_trip_up [OF up]) (simp add: set_nx_ex_def)
  then show "snd (claim_id D K i s) \<noteq> Err ()" by simp
qed simp

section \<open>What a sealed send leaves alone\<close>

lemma deliver_keeps:
  assumes K: "kv_ok (sc_kv X) V W"
    and run: "deliver_sealed X call raw inner by_key recipient v (r, s) = ((r', s'), res, push)"
    and k: "k \<notin> tag_keys (ctx_digests X) (in_delivery_tag inner)"
  shows "keeps_key (sc_kv X) V W k r r'"
proof -
  let ?D = "ctx_digests X" and ?K = "sc_kv X" and ?tag = "in_delivery_tag inner"
  have claims: "keeps_key ?K V W k q q'"
    if "check_and_mark_delivery_tag ?D ?K ?tag q = (q', st)" for q q' st
    by (rule tags.claim_keeps [OF K claim_of_check [OF that] k])
  have unmarks: "keeps_key ?K V W k q (fst (unmark_delivery_tag ?D ?K ?tag q))" for q
    using tags.release_keeps [OF K _ k] by (metis prod.collapse)
  show ?thesis
    by (rule deliver_sealed_cases [OF run])
      (auto dest!: claims intro: keeps_trans [OF _ unmarks] split: if_splits)
qed

lemma dispatch_sealed_keeps:
  assumes K: "kv_ok (sc_kv X) V W"
    and run: "dispatch_sealed_sender X call sealed (r, s) = ((r', s'), res, push)"
    and k: "unspent_key (sc_redeemer X) k" "\<And>tag. k \<notin> tag_keys (ctx_digests X) tag"
  shows "keeps_key (sc_kv X) V W k r r'"
proof (cases "\<exists>inner by_key recipient. sc_decode_inner X (ss_sealed_inner sealed) = Ok inner \<and>
      resolve_recipient X (in_recipient_user_id inner) = Resolved by_key recipient \<and>
      (ss_recipient_server sealed = [] \<or> ss_recipient_server sealed = sc_domain X)")
  case True
  then obtain inner by_key recipient where i: "sc_decode_inner X (ss_sealed_inner sealed) = Ok inner"
    "resolve_recipient X (in_recipient_user_id inner) = Resolved by_key recipient"
    "ss_recipient_server sealed = [] \<or> ss_recipient_server sealed = sc_domain X" by blast
  show ?thesis
    by (rule local_send_cases [OF run i(3,1,2)])
      (auto intro: token_gate_keeps [OF K _ k(1)] keeps_trans [OF token_gate_keeps [OF K _ k(1)]
        deliver_keeps [OF K _ k(2)]])
next
  case False
  have "r' = r \<or> (\<exists>inner address c. intake_check X call inner address r = (r', c))"
    using run False
    by (auto simp: dispatch_sealed_sender_def Let_def
        split: if_splits sum.splits addressee.splits prod.splits)
  with intake_keeps [OF K] show ?thesis by fastforce
qed

lemma id_key_apart:
  "unspent_key E (federation_message_key D i)" "federation_message_key D i \<notin> tag_keys D' tag"
  by (simp_all add: federation_message_key_def unspent_key_def unit_key_def spent_key_def tag_keys_def
      exact_key_def seen_key_def)

section \<open>Inbound messages\<close>

datatype inbound = Sealed inbound_sealed_request | Regular inbound_message_request

definition inbound_id :: "inbound \<Rightarrow> string \<times> string" where
  "inbound_id q = (case q of
      Sealed req \<Rightarrow> (is_origin_server req, is_message_id req)
    | Regular req \<Rightarrow> (im_origin_server req, im_message_id req))"

definition inbound_envelope ::
    "('k, 'p, 'x, 'r, 's) sealed_context \<Rightarrow> inbound \<Rightarrow> federated_envelope" where
  "inbound_envelope X q = (case q of
      Sealed req \<Rightarrow> inbound_sealed_envelope X req
    | Regular req \<Rightarrow> inbound_message_envelope X req)"

definition inbound_payload :: "inbound \<Rightarrow> string" where
  "inbound_payload q = (case q of Sealed req \<Rightarrow> is_sealed_inner req | Regular req \<Rightarrow> im_ciphertext req)"

definition inbound_signature :: "inbound \<Rightarrow> string option" where
  "inbound_signature q = (case q of
      Sealed req \<Rightarrow> is_server_signature req | Regular req \<Rightarrow> im_server_signature req)"

definition receive ::
    "('k, 'p, 'x, 'r, 's) sealed_context \<Rightarrow> 'z fed_config \<Rightarrow> (string \<Rightarrow> (SigningError, string) result)
     \<Rightarrow> fed_call \<Rightarrow> inbound \<Rightarrow> 'z \<times> ('r \<times> 's)
     \<Rightarrow> ('z \<times> ('r \<times> 's)) \<times> (fed_http_err, federation_response) result \<times> wake_push option" where
  "receive X F lookup_key call q st = (case q of
      Sealed req \<Rightarrow> receive_sealed X F lookup_key call req st
    | Regular req \<Rightarrow> receive_message X F lookup_key call req st)"

text \<open>
  A handler that touched a mailbox admitted the request and claimed its id, and the claim is still
  there when the answer is a success.
\<close>

lemma receive_delivers:
  assumes run: "receive X F lookup_key call q (z, r, s) = ((z', r', s'), res, push)"
    and "s' \<noteq> s \<or> push \<noteq> None"
  obtains r1 where "fed_enabled F"
    "snd (admit X F lookup_key call (inbound_envelope X q) (inbound_payload q) (inbound_signature q) z) = Ok ()"
    "claim_id (ctx_digests X) (sc_kv X) (inbound_id q) r = (r1, Ok True)"
    "\<And>answer. res = Ok answer \<Longrightarrow> r' = r1 \<or>
       (\<exists>e q2. dispatch_sealed_sender X (fed_send call) e (r1, s) = ((r', s'), q2, push))"
proof -
  let ?a = "admit X F lookup_key call (inbound_envelope X q) (inbound_payload q) (inbound_signature q) z"
  let ?c = "claim_federation_message_id (ctx_digests X) (sc_kv X) (fst (inbound_id q)) (snd (inbound_id q)) r"
  obtain z1 a where a: "?a = (z1, a)" by force
  obtain r1 c where c: "?c = (r1, c)" by force
  note parts = inbound_id_def inbound_envelope_def inbound_payload_def inbound_signature_def
  have "fed_enabled F \<and> a = Ok () \<and> c = Ok True \<and>
      ((\<exists>answer. res = Ok answer) \<longrightarrow> r' = r1 \<or>
         (\<exists>e q2. dispatch_sealed_sender X (fed_send call) e (r1, s) = ((r', s'), q2, push)))"
  proof (cases q)
    case (Sealed req)
    with run assms(2) a c show ?thesis
      by (auto simp: receive_def receive_sealed_def parts Let_def
          split: if_splits sum.splits bool.splits prod.splits)
  next
    case (Regular req)
    with run assms(2) a c show ?thesis
      by (auto simp: receive_def receive_message_def parts Let_def
          split: if_splits sum.splits bool.splits prod.splits)
  qed
  moreover from this c have "claim_id (ctx_digests X) (sc_kv X) (inbound_id q) r = (r1, Ok True)"
    by (cases "claim_id (ctx_digests X) (sc_kv X) (inbound_id q) r"; cases "snd (claim_id (ctx_digests X) (sc_kv X) (inbound_id q) r)")
      (auto simp: claim_federation_message_id_def split: if_splits)
  ultimately show thesis using that [of r1] a by auto
qed

lemma admitD:
  assumes "snd (admit X F lookup_key call e payload signature z) = Ok ()"
  shows "abs_diff (fed_now call) (fe_timestamp e) \<le> FEDERATION_TIMESTAMP_MAX_SKEW_SECS"
    "hash_payload (sc_s2s X) payload = fe_payload_hash e"
    "\<exists>key sig. lookup_key (fe_origin_server e) = Ok key \<and> signature = Some sig \<and>
       verify_signature (sc_s2s X) key e sig = Ok ()"
  using assms
  by (auto simp: admit_def validate_federation_timestamp_at_def check_origin_signature_def
      split: if_splits sum.splits prod.splits option.splits)

text \<open>
  C15. Another server reaches a mailbox only with a fresh message it signed for this server. When an
  inbound handler changes a mailbox or wakes a device, federation is enabled, the message is at most
  300 seconds off the server's clock, and its signature verifies over this origin, this server as the
  destination, the message id, the addresses, the time, and the hash of the payload that was
  delivered, under the key that the origin's own host served. That host passed the guard on dialled
  domains.
\<close>

theorem inbound_is_signed:
  assumes run: "receive X F (fetch_origin_key (sc_network X) t t') call q (z, r, s) = ((z', r', s'), res, push)"
    and "s' \<noteq> s \<or> push \<noteq> None"
  shows "let e = inbound_envelope X q in
    fed_enabled F \<and> abs_diff (fed_now call) (fe_timestamp e) \<le> 300 \<and>
    fe_destination_server e = sc_domain X \<and>
    fe_payload_hash e = hash_payload (sc_s2s X) (inbound_payload q) \<and>
    assert_hostname_resolves_public (net_dns (sc_network X)) (fe_origin_server e) = Ok () \<and>
    (\<exists>key sig. fetch_public_key (sc_network X) (fe_origin_server e) = Ok key \<and>
       inbound_signature q = Some sig \<and> verify_signature (sc_s2s X) key e sig = Ok ())"
proof -
  let ?e = "inbound_envelope X q"
  obtain r1 where en: "fed_enabled F" and ad: "snd (admit X F (fetch_origin_key (sc_network X) t t')
      call ?e (inbound_payload q) (inbound_signature q) z) = Ok ()"
    by (rule receive_delivers [OF assms])
  from admitD(3) [OF ad] obtain key sig where k: "fetch_public_key (sc_network X) (fe_origin_server ?e) = Ok key"
    "inbound_signature q = Some sig" "verify_signature (sc_s2s X) key ?e sig = Ok ()"
    by (auto simp: fetch_origin_key_dials)
  moreover from k(1) have "assert_hostname_resolves_public (net_dns (sc_network X)) (fe_origin_server ?e) = Ok ()"
    by (auto simp: fetch_public_key_def split: sum.splits)
  moreover have "fe_destination_server ?e = sc_domain X"
    by (auto simp: inbound_envelope_def inbound_sealed_envelope_def inbound_message_envelope_def
        split: inbound.splits)
  ultimately show ?thesis
    using en admitD(1,2) [OF ad] by (simp add: FEDERATION_TIMESTAMP_MAX_SKEW_SECS_def)
qed

text \<open>
  C17. A message of another server is delivered at most once a week. When an
  inbound request has reached a mailbox and was answered with success, a later request of the same
  origin with the same message id, sealed or not and with whatever content, that ends less than seven
  days after the first began changes no mailbox and wakes nobody. In between, anything may happen to
  the store except to the claim.
\<close>

theorem inbound_once:
  assumes K: "kv_ok (sc_kv X) V W"
    and first: "receive X F l1 c1 q1 (z0, r0, s0) = ((z1, r1, s1), Ok answer, p1)" "s1 \<noteq> s0 \<or> p1 \<noteq> None"
    and same: "inbound_id q2 = inbound_id q1"
    and kept: "V r2 (federation_message_key (ctx_digests X) (inbound_id q1))
      = V r1 (federation_message_key (ctx_digests X) (inbound_id q1))"
    and second: "receive X F l2 c2 q2 (z2, r2, s2) = ((z3, r3, s3), res, p2)"
    and week: "\<forall>r b. claim_id (ctx_digests X) (sc_kv X) (inbound_id q2) r2 = (r, b) \<longrightarrow>
      kv_now (sc_kv X) r < kv_now (sc_kv X) r0 + FEDERATION_MSG_DEDUP_TTL_SECS"
  shows "s3 = s2 \<and> p2 = None"
proof (rule ccontr)
  let ?D = "ctx_digests X" and ?K = "sc_kv X"
  assume "\<not> (s3 = s2 \<and> p2 = None)"
  then have "s3 \<noteq> s2 \<or> p2 \<noteq> None" by blast
  then obtain ra where again: "claim_id ?D ?K (inbound_id q2) r2 = (ra, Ok True)"
    by (rule receive_delivers [OF second])
  obtain rc where c: "claim_id ?D ?K (inbound_id q1) r0 = (rc, Ok True)"
    and after: "r1 = rc \<or> (\<exists>e q. dispatch_sealed_sender X (fed_send c1) e (rc, s0) = ((r1, s1), q, p1))"
    by (rule receive_delivers [OF first]) auto
  have "V r1 (federation_message_key ?D (inbound_id q1)) = V rc (federation_message_key ?D (inbound_id q1))"
    using after dispatch_sealed_keeps [OF K _ id_key_apart]
    by (cases "inbound_id q1") (auto simp: keeps_key_def)
  with kept ids.second_claim_refused [OF K c _ again [unfolded same]] week again same show False by simp
qed

section \<open>From one server to another\<close>

text \<open>The request as the other side decodes it: the two records have the same JSON names.\<close>

definition wire :: "federated_sealed_request \<Rightarrow> inbound_sealed_request" where
  "wire q = \<lparr>is_message_id = fs_message_id q, is_sealed_inner = fs_sealed_inner q,
     is_origin_server = fs_origin_server q, is_timestamp = fs_timestamp q,
     is_payload_hash = fs_payload_hash q, is_server_signature = fs_server_signature q\<rparr>"

text \<open>
  C18. A sealed message that one server forwards is taken by the other. Let server \<open>A\<close> sign with a
  key made from its seed and post a request for \<open>B\<close>'s domain. When \<open>B\<close> has federation enabled, finds
  \<open>A\<close>'s published key under \<open>A\<close>'s domain, its clock is within 300 seconds of the message's time, the
  origin is not over its rate and the claim is granted, then \<open>B\<close> dispatches exactly the sealed bytes
  that \<open>A\<close> was given, and its answer is the answer of that dispatch.
\<close>

theorem forwarded_is_taken:
  assumes ok: "s2s_ok (sc_s2s A)" "sc_s2s B = sc_s2s A"
    and signer: "sc_signer A = Some g" "signer_ok (sc_s2s A) g"
    and posted: "fst (forward_sealed A ca sealed) = Some (url, q)"
    and here: "ss_recipient_server sealed = sc_domain B"
    and on: "fed_enabled F"
    and key: "lookup_key (sc_domain A) = Ok (public_key_base64 (sc_s2s A) g)"
    and skew: "abs_diff (fed_now cb) (ss_timestamp sealed) \<le> FEDERATION_TIMESTAMP_MAX_SKEW_SECS"
    and rate: "check_origin_rate_limit (fed_zset F) (fed_max_per_hour F) (sc_domain A) (fed_clock cb) z
      = (z1, Ok ())"
    and claim: "claim_federation_message_id (ctx_digests B) (sc_kv B) (sc_domain A) (call_id ca) r
      = (r1, Ok True)"
    and dispatch: "dispatch_sealed_sender B (fed_send cb)
      \<lparr>ss_recipient_server = [], ss_sealed_inner = ss_sealed_inner sealed, ss_forwarding_token = [],
       ss_timestamp = ss_timestamp sealed\<rparr> (r1, s) = ((r2, s2), Ok resp, push)"
  shows "receive_sealed B F lookup_key cb (wire q) (z, r, s)
    = ((z1, r2, s2), Ok \<lparr>fr_status = ''accepted'', fr_message_id = sr_message_id resp\<rparr>, push)"
proof -
  let ?C = "sc_s2s A" and ?client = "new_with_signer g (sc_domain A)"
  have q: "q = sealed_request ?C ?client (sc_domain B) (call_id ca) (ss_sealed_inner sealed)
      (ss_timestamp sealed)"
    using posted signer(1) here
    by (auto simp: forward_sealed_def send_sealed_message_def Let_def split: sum.splits prod.splits)
  then have e: "inbound_sealed_envelope B (wire q)
      = sealed_envelope ?C ?client (sc_domain B) (call_id ca) (ss_sealed_inner sealed) (ss_timestamp sealed)"
    by (simp add: inbound_sealed_envelope_def wire_def sealed_request_def sealed_envelope_def)
  have "admit B F lookup_key cb (inbound_sealed_envelope B (wire q)) (is_sealed_inner (wire q))
      (is_server_signature (wire q)) z = (z1, Ok ())"
    using skew rate key sign_verify [OF ok(1) signer(2)]
    by (simp add: admit_def validate_federation_timestamp_at_def check_origin_signature_def e)
      (simp add: q wire_def sealed_request_def sealed_envelope_def new_with_signer_def ok(2) not_less)
  moreover have "b64_decode (sc_s2s B) (is_sealed_inner (wire q)) = Ok (ss_sealed_inner sealed)"
    using ok by (simp add: q wire_def sealed_request_def s2s_ok_def)
  moreover have "is_origin_server (wire q) = sc_domain A" "is_message_id (wire q) = call_id ca"
    "is_timestamp (wire q) = ss_timestamp sealed"
    by (simp_all add: q wire_def sealed_request_def new_with_signer_def)
  ultimately show ?thesis
    using on claim dispatch by (simp add: receive_sealed_def Let_def)
qed

section \<open>A sample of two servers\<close>

definition sample_federation :: "unit fed_config" where
  "sample_federation = \<lparr>fed_zset = \<lparr>zrembyscore = (\<lambda>s t k m. (s, Ok 0)), zcount = (\<lambda>s t k m. Ok 0),
     zadd = (\<lambda>s t k m x. (s, Ok 1)), zexpire = (\<lambda>s t k n. (s, Ok True))\<rparr>,
     fed_enabled = True, fed_max_per_hour = 1000\<rparr>"

definition sample_fed_call :: fed_call where
  "sample_fed_call = \<lparr>fed_now = 200, fed_clock = \<lparr>now_ms = 200000, now_nanos = None\<rparr>, fed_send = sample_call\<rparr>"

abbreviation here :: "(3, 3, unit, Kv.sample_store, nat \<times> nat) sealed_context" where
  "here \<equiv> sample_sealed_context Off"

abbreviation there :: "(3, 3, unit, Kv.sample_store, nat \<times> nat) sealed_context" where
  "there \<equiv> here\<lparr>sc_domain := ''q.cc''\<rparr>"

definition sample_inbound :: inbound_sealed_request where
  "sample_inbound = \<lparr>is_message_id = ''a'', is_sealed_inner = text_of [1], is_origin_server = ''P.cc'',
     is_timestamp = 0, is_payload_hash = text_of [1],
     is_server_signature = Some (text_of (replicate 64 0))\<rparr>"

lemma sample_guard: "assert_hostname_resolves_public sample_dns ''P.cc'' = Ok ()"
proof -
  have "validate_federation_hostname ''P.cc'' = Ok ()"
    unfolding validate_federation_hostname_def Let_def sample_domain_eval sum.case
    by (simp add: sample_domain_eval)
  then show ?thesis
    by (simp add: assert_hostname_resolves_public_def sample_domain_eval sample_dns_def
        del: list.map check_addrs.simps)
qed

lemma sample_origin_key: "fetch_origin_key (sc_network here) t t' ''P.cc'' = Ok (text_of (replicate 32 5))"
  by (simp add: fetch_origin_key_dials fetch_public_key_def sample_sealed_context_def sample_guard is_success_def)

lemma sample_admit:
  "admit here sample_federation (fetch_origin_key (sc_network here) 0 0) sample_fed_call
     (inbound_sealed_envelope here sample_inbound) (text_of [1]) (Some (text_of (replicate 64 0))) ()
   = ((), Ok ())"
  by (simp add: admit_def validate_federation_timestamp_at_def check_origin_rate_limit_def
      sample_federation_def sliding_window_check_and_record_def check_origin_signature_def sample_inbound_def
      inbound_sealed_envelope_def sample_origin_key abs_diff_def sample_fed_call_def
      FEDERATION_TIMESTAMP_MAX_SKEW_SECS_def Let_def)
    (simp add: verify_signature_def sample_sealed_context_def hash_payload_def)

lemma sample_claim:
  "claim_federation_message_id D steady_kv origin ''a'' (empty_store 0 [])
   = (empty_store 0 []\<lparr>ss_strings := [federation_message_key D (origin, ''a'')
        \<mapsto> (''1'', Some FEDERATION_MSG_DEDUP_TTL_SECS)]\<rparr>, Ok True)"
  by (simp add: claim_federation_message_id_def claim_id_def round_trip_def steady_kv_def set_nx_ex_def
      sample_kv_eval FEDERATION_MSG_DEDUP_TTL_SECS_def)

lemma sample_keys_of_ids:
  "exact_key D t \<noteq> federation_message_key D i" "seen_key D t \<noteq> federation_message_key D i"
  "federation_message_key D i \<noteq> exact_key D t" "federation_message_key D i \<noteq> seen_key D t"
  by (simp_all add: exact_key_def seen_key_def federation_message_key_def)

abbreviation claimed :: "string \<Rightarrow> Kv.sample_store" where
  "claimed origin \<equiv> empty_store 0 []\<lparr>ss_strings := [federation_message_key (ctx_digests here) (origin, ''a'')
     \<mapsto> (''1'', Some FEDERATION_MSG_DEDUP_TTL_SECS)]\<rparr>"

lemma sample_delivered:
  "dispatch_sealed_sender here sample_call sample_sealed (claimed origin, (0, 0))
   = ((claimed origin\<lparr>ss_strings := (ss_strings (claimed origin))
         (exact_key (ctx_digests here) [9] \<mapsto> (''1'', Some 300),
          seen_key (ctx_digests here) [9] \<mapsto> (''1'', Some 86400))\<rparr>, (0, 1)),
      Ok (response ''m'' 0 VerdictUnspecified [''a'']), None)"
  by (simp add: sample_send_eval sample_keys_of_ids token_gate_def sample_inner_def)

lemma sample_received:
  "receive here sample_federation (fetch_origin_key (sc_network here) 0 0) sample_fed_call
     (Sealed sample_inbound) ((), empty_store 0 [], (0, 0))
   = (((), fst (fst (dispatch_sealed_sender here sample_call sample_sealed (claimed ''P.cc'', (0, 0)))), (0, 1)),
      Ok \<lparr>fr_status = ''accepted'', fr_message_id = ''m''\<rparr>, None)"
proof -
  have "b64_decode (sc_s2s here) (text_of [1]) = Ok [1]" by (simp add: sample_sealed_context_def)
  then show ?thesis
    using sample_admit sample_claim [of "ctx_digests here" "''P.cc''"] sample_delivered [of "''P.cc''"]
    by (simp add: receive_def receive_sealed_def Let_def sample_federation_def sample_fed_call_def
        sample_inbound_def sample_sealed_def response_def)
qed

theorem inbound_is_signed_witness:
  "\<exists>key sig. assert_hostname_resolves_public (net_dns (sc_network here)) ''P.cc'' = Ok () \<and>
     fetch_public_key (sc_network here) ''P.cc'' = Ok key \<and>
     inbound_signature (Sealed sample_inbound) = Some sig \<and>
     verify_signature (sc_s2s here) key (inbound_sealed_envelope here sample_inbound) sig = Ok ()"
  using inbound_is_signed [OF sample_received]
  by (simp add: inbound_envelope_def inbound_sealed_envelope_def sample_inbound_def Let_def)

theorem inbound_once_witness:
  "let rx = receive here sample_federation (fetch_origin_key (sc_network here) 0 0) sample_fed_call
         (Sealed sample_inbound);
       (st1, _, _) = rx ((), empty_store 0 [], (0, 0));
       (st2, _, push) = rx st1
   in snd (snd st1) = (0, 1) \<and> snd (snd st2) = (0, 1) \<and> push = None"
proof -
  let ?lookup = "fetch_origin_key (sc_network here) 0 0"
  let ?r = "fst (fst (dispatch_sealed_sender here sample_call sample_sealed (claimed ''P.cc'', (0, 0))))"
  obtain z3 r3 s3 res p2 where second: "receive here sample_federation ?lookup sample_fed_call
      (Sealed sample_inbound) ((), ?r, (0, 1)) = ((z3, r3, s3), res, p2)" by (metis prod.exhaust)
  have "\<forall>r b. claim_id (ctx_digests here) (sc_kv here) (inbound_id (Sealed sample_inbound)) ?r = (r, b) \<longrightarrow>
      kv_now (sc_kv here) r < kv_now (sc_kv here) (empty_store 0 []) + FEDERATION_MSG_DEDUP_TTL_SECS"
    unfolding sample_delivered fst_conv
    by (auto simp: claim_id_def round_trip_def steady_kv_def set_nx_ex_def sample_kv_eval
        FEDERATION_MSG_DEDUP_TTL_SECS_def split: if_splits option.splits)
  from inbound_once [OF _ sample_received _ refl refl second this, of ss_strings ss_set_view] steady_kv_ok
  have "s3 = (0, 1) \<and> p2 = None" by simp
  with second show ?thesis by (simp add: sample_received Let_def)
qed

theorem forwarded_is_taken_witness:
  "\<exists>url q. fst (forward_sealed there (sample_call\<lparr>call_id := ''a''\<rparr>)
      (sample_sealed\<lparr>ss_recipient_server := ''P.cc''\<rparr>)) = Some (url, q) \<and>
    snd (snd (fst (receive_sealed here sample_federation (\<lambda>_. Ok (text_of (replicate 32 5))) sample_fed_call
      (wire q) ((), empty_store 0 [], (0, 0))))) = (0, 1)"
proof -
  let ?sealed = "sample_sealed\<lparr>ss_recipient_server := ''P.cc''\<rparr>"
  let ?c = "sample_call\<lparr>call_id := ''a''\<rparr>"
  let ?g = "\<lparr>signing_key = replicate 32 5, verifying_key = replicate 32 5, signer_domain = ''P.cc''\<rparr>"
  obtain url q where posted: "fst (forward_sealed there ?c ?sealed) = Some (url, q)"
    by (simp add: forward_sealed_def send_sealed_message_def sample_sealed_context_def sample_guard Let_def
        split: sum.splits)
  have ok: "s2s_ok (sc_s2s there)" "sc_s2s here = sc_s2s there" "sc_signer there = Some ?g"
    "signer_ok (sc_s2s there) ?g" "ss_recipient_server ?sealed = sc_domain here" "fed_enabled sample_federation"
    "public_key_base64 (sc_s2s there) ?g = text_of (replicate 32 5)"
    by (simp_all add: s2s_ok_def prims_correct_def signer_ok_def sample_sealed_context_def
        sample_federation_def public_key_base64_def)
  have rate: "check_origin_rate_limit (fed_zset sample_federation) (fed_max_per_hour sample_federation)
      (sc_domain there) (fed_clock sample_fed_call) () = ((), Ok ())"
    by (simp add: check_origin_rate_limit_def sample_federation_def sliding_window_check_and_record_def Let_def)
  have claim: "claim_federation_message_id (ctx_digests here) (sc_kv here) (sc_domain there) (call_id ?c)
      (empty_store 0 []) = (claimed ''q.cc'', Ok True)"
    using sample_claim [of "ctx_digests here" "''q.cc''"] by simp
  have "abs_diff (fed_now sample_fed_call) (ss_timestamp ?sealed) \<le> FEDERATION_TIMESTAMP_MAX_SKEW_SECS"
    by (simp add: abs_diff_def sample_fed_call_def sample_sealed_def FEDERATION_TIMESTAMP_MAX_SKEW_SECS_def)
  from forwarded_is_taken [OF ok(1,2,3,4) posted ok(5,6) _ this rate claim, of
      "\<lambda>_. Ok (text_of (replicate 32 5))" "(0, 0)"] sample_delivered [of "''q.cc''"] ok(7) posted
  show ?thesis by (simp add: sample_fed_call_def sample_sealed_def)
qed

end
