(* ===== verification/Spec2Isabelle.thy ===== *)
theory Spec2Isabelle
  imports Key_Transparency Pending_Messages Mailbox_Sweep Dispatch Sliding_Window Signaling
    Token_Issuance Token_Units Federation_Receive User_Id
begin

text \<open>
  Verification of the Konstruct server, an end-to-end encrypted messaging backend in Rust
  (\<open>src/\<close>). Several services share crates and talk to Redis and Postgres: the messaging service
  takes messages and serves mailboxes, the identity service issues anonymous tokens, the key service
  serves key bundles with transparency proofs, the signaling service carries calls, and servers
  forward messages to each other.

  \<^bold>\<open>How the code is modelled.\<close> A Rust function is a HOL function, a struct a \<open>record\<close>, an enum
  a \<open>datatype\<close>, \<open>Result\<close> a sum with \<open>Err\<close> and \<open>Ok\<close>, an integer a machine word where its width
  matters. An \<open>async\<close> handler takes the state of the services it uses and returns it changed,
  with its answer. Redis, Postgres, the DNS, the HTTP client and third-party crates are not in the
  repository: each is a record of operations over an abstract state, and what the code relies on is
  a named predicate over it (\<open>kv_ok\<close>, \<open>zset_server_ok\<close>, \<open>s2s_ok\<close>, \<open>prims_correct\<close> and others). Each of
  these predicates has an instance, which the witnesses use. A Redis round trip can fail, and can
  also run on the server with its reply lost.

  \<^bold>\<open>Shared theories.\<close> \<open>Prelude\<close> has bytes, text, results and the standard library functions
  several components use. \<open>Redis\<close> and \<open>Kv\<close> have the parts of Redis: replies and streams, strings and
  sets with times to live. \<open>Claims\<close> is the interface of guards that let a thing happen once; it is
  interpreted by \<open>Delivery_Tag\<close> and \<open>Federation_Receive\<close>. \<open>Ip_Addr\<close> has the address parser and text
  functions of the standard library.

  \<^bold>\<open>Mailboxes\<close> (\<open>crates/construct-queue\<close>, \<open>crates/construct-redis\<close>, \<open>messaging-service\<close>).
  \<open>Envelope\<close>: the stored envelope, its deduplication key and what a client is shown
  (\<open>construct-message/src/types.rs\<close>, \<open>messaging-service/src/envelope.rs\<close>). \<open>Mailbox\<close>: stream ids, the
  merge of a device's and an account's stream (\<open>merge_mailbox_pages\<close>, \<open>resume_after\<close>).
  \<open>Mailbox_Paging\<close>: what one page guarantees. \<open>Mailbox_Read\<close>: reading and decoding stream replies.
  \<open>Mailbox_Gap\<close>: the report of lost entries (\<open>gap.rs\<close>). \<open>Mailbox_Sweep\<close>: the age sweep
  (\<open>delivery.rs\<close>). \<open>Dispatch\<close>: \<open>dispatch_envelope\<close> of \<open>core.rs\<close>. \<open>Message_Stream\<close> and
  \<open>Pending_Messages\<close>: the two readers, the catch-up poll of \<open>stream.rs\<close> and \<open>GetPendingMessages\<close> of
  \<open>grpc.rs\<close>. The lemmas show that an accepted message is stored, that both readers end and return
  every stored message after the client's position, that lost entries are reported, and that the
  sweep's command sequence does what its specification says. The loops of the readers are
  recursions with fuel; the theorems give an amount of fuel that is enough.

  \<^bold>\<open>Rate limits\<close> (\<open>crates/construct-rate-limit\<close>, \<open>sealed_ip.rs\<close>). \<open>Degraded\<close>: the circuit breaker and
  the bounded fallback table, at machine width. \<open>Client_Bucket\<close>: which addresses share a limit.
  \<open>Sliding_Window\<close>: the window on a Redis sorted set and the door for sealed senders. The lemmas
  bound what passes in every interval, also during an outage.

  \<^bold>\<open>Tokens\<close> (\<open>construct-crypto/src/privacy_pass.rs\<close>, \<open>identity-service\<close>, \<open>token_redeem.rs\<close>,
  \<open>intake.rs\<close>, \<open>spent_tag.rs\<close>). \<open>Privacy_Pass\<close>: sealed boxes, blinded evaluation and the proof of equal
  discrete logarithms over an abstract group. \<open>Token_Issuance\<close>: a batch within an hourly cap.
  \<open>Token_Redeem\<close> and \<open>Token_Units\<close>: redemption as a step machine, one Redis round trip a step, under
  every interleaving. \<open>Intake\<close>: tags that recipients publish for their contacts. \<open>Delivery_Tag\<close>: the
  replay cache.

  \<^bold>\<open>Sealed sending and federation\<close> (\<open>envelope.rs\<close>, \<open>federation.rs\<close>, \<open>crates/construct-federation\<close>).
  \<open>User_Id\<close>: addresses. \<open>Ssrf\<close>: the guard on dialled domains. \<open>Federation\<close>: signed envelopes, the key
  cache, the client and discovery. \<open>Sealed_Send\<close>: \<open>dispatch_sealed_sender\<close>, which composes intake,
  tokens, delivery tags, dispatch and forwarding. \<open>Federation_Receive\<close>: the handlers of the other
  side. The lemmas show what a delivered message has paid, that a replay is not delivered, that a
  failed write can be retried, that only signed and fresh messages of a public host come in, once,
  and that what one server forwards the other takes.

  \<^bold>\<open>Calls\<close> (\<open>signaling-service\<close>). \<open>Call_Registry\<close>: calls, busy marks, presence, delivery, the reaper
  and the receiver of other instances' messages. \<open>Call_Delivery\<close>: what these deliver. \<open>Signaling\<close>: the
  gates of a new call and the handling of signals.

  \<^bold>\<open>Keys\<close> (\<open>crates/construct-crypto\<close>, \<open>key-service/src/kt.rs\<close>). \<open>Hybrid_Sig\<close>: hybrid signatures.
  \<open>Server_Trust\<close>: delegated server keys. \<open>Key_Transparency\<close>: the Merkle log, its table and the proofs
  of a bundle; the locale \<open>leaf_log\<close> is the contract of the table.

  \<^bold>\<open>Not modelled.\<close> Code that is mostly SQL over tables or calls to other services: the rest of the
  identity, key, group, media and veil services, \<open>crates/construct-db\<close>, the gateway, push
  notifications and APNs. Start-up, configuration, metrics, logging, TLS and the generated protobuf
  code have no model either. Token, signature, hash and cipher primitives are parameters.
\<close>

end
